(* ===== verification/Prelude.thy ===== *)
theory Prelude
  imports Main "HOL-Library.Word"
begin

text \<open>
  Shared ground of the development: bytes and C strings, the outcome of a C call, the
  parsers of json.c as functions on the memory behind a cursor, and the lemmas on words and
  lists that several components use.

  \<^item> A byte of memory is an 8 bit word. A \<open>char *\<close> is the list of the bytes from the
    pointer to the end of the object it points into, so that \<open>*s\<close> is the head of the list
    and \<open>s + n\<close> drops \<open>n\<close> elements. A C string is a list that contains a zero byte; what
    lies behind the zero stays in the list, because the code could read it by mistake.
  \<^item> A call that may misbehave has the type \<open>'a cres\<close>: \<open>Inr\<close> is the value it returns,
    \<open>Inl\<close> the fault: a failed \<open>assert\<close>, an access outside of an object, or the use of a
    null pointer or of a union member that does not hold a pointer.
  \<^item> A parser of json.c takes the cursor \<open>*sp\<close> and either returns false (\<open>Reject\<close>) or stores
    a value and moves the cursor (\<open>Accept\<close>).
\<close>

unbundle bit_operations_syntax

section \<open>Machine integers and strings\<close>

type_synonym byte = "8 word"
type_synonym u16 = "16 word"
type_synonym uchar = "32 word"

type_synonym cstr = "byte list"

definition ascii :: "string \<Rightarrow> byte list" where
  "ascii s = map of_char s"

text \<open>\<open>strlen\<close> and the string itself: the bytes before the first zero.\<close>

definition cstring :: "byte list \<Rightarrow> byte list" where
  "cstring m = takeWhile (\<lambda>b. b \<noteq> 0) m"

definition nulterm :: "byte list \<Rightarrow> bool" where
  "nulterm m \<longleftrightarrow> 0 \<in> set m"

definition no_nul :: "byte list \<Rightarrow> bool" where
  "no_nul bs \<longleftrightarrow> 0 \<notin> set bs"

section \<open>Outcomes of calls\<close>

datatype fault = AssertFail | OutOfBounds | BadPointer | NoReturn

type_synonym 'a cres = "fault + 'a"

definition c_bind :: "'a cres \<Rightarrow> ('a \<Rightarrow> 'b cres) \<Rightarrow> 'b cres" where
  "c_bind x f = (case x of Inl e \<Rightarrow> Inl e | Inr v \<Rightarrow> f v)"

definition c_assert :: "bool \<Rightarrow> 'a cres \<Rightarrow> 'a cres" where
  "c_assert b k = (if b then k else Inl AssertFail)"

text \<open>\<open>*s++\<close>: the byte read and the moved pointer are handed to the rest of the code.\<close>

definition read1 :: "byte list \<Rightarrow> (byte \<Rightarrow> byte list \<Rightarrow> 'a cres) \<Rightarrow> 'a cres" where
  "read1 s k = (case s of [] \<Rightarrow> Inl OutOfBounds | c # s' \<Rightarrow> k c s')"

definition returns :: "'a cres \<Rightarrow> bool" where
  "returns x \<longleftrightarrow> (\<exists>v. x = Inr v)"

lemma c_bind_simps [simp]:
  "c_bind (Inl e) f = Inl e"
  "c_bind (Inr v) f = f v"
  by (simp_all add: c_bind_def)

lemma returns_simps [simp]:
  "returns (Inr v)"
  "\<not> returns (Inl e)"
  by (simp_all add: returns_def)

lemma returnsE: "returns x \<Longrightarrow> (\<And>v. x = Inr v \<Longrightarrow> P) \<Longrightarrow> P"
  by (auto simp: returns_def)

lemma c_bind_cong [fundef_cong]:
  "x = y \<Longrightarrow> (\<And>v. y = Inr v \<Longrightarrow> f v = g v) \<Longrightarrow> c_bind x f = c_bind y g"
  by (cases y) (simp_all add: c_bind_def)

lemma c_bind_assoc: "c_bind (c_bind x f) g = c_bind x (\<lambda>v. c_bind (f v) g)"
  by (cases x) simp_all

lemma c_assert_simps [simp]:
  "c_assert True k = k"
  "c_assert False k = Inl AssertFail"
  by (simp_all add: c_assert_def)

lemma c_assert_cong [fundef_cong]:
  "b = b' \<Longrightarrow> (b' \<Longrightarrow> k = k') \<Longrightarrow> c_assert b k = c_assert b' k'"
  by (simp add: c_assert_def)

lemma read1_simps [simp]:
  "read1 [] k = Inl OutOfBounds"
  "read1 (c # s) k = k c s"
  by (simp_all add: read1_def)

lemma read1_cong [fundef_cong]:
  "s = t \<Longrightarrow> (\<And>c t'. t = c # t' \<Longrightarrow> k c t' = k' c t') \<Longrightarrow> read1 s k = read1 t k'"
  by (cases t) simp_all

named_theorems c_iff \<open>when the combinators return, and what\<close>

lemma c_bind_eq_Inr [c_iff]:
  "c_bind x f = Inr r \<longleftrightarrow> (\<exists>v. x = Inr v \<and> f v = Inr r)"
  by (cases x) simp_all

lemma c_bind_eq_Inl [c_iff]:
  "c_bind x f = Inl e \<longleftrightarrow> x = Inl e \<or> (\<exists>v. x = Inr v \<and> f v = Inl e)"
  by (cases x) auto

lemma c_assert_eq_Inr [c_iff]: "c_assert b k = Inr r \<longleftrightarrow> b \<and> k = Inr r"
  by (simp add: c_assert_def)

lemma c_assert_eq_Inl [c_iff]:
  "c_assert b k = Inl e \<longleftrightarrow> (\<not> b \<and> e = AssertFail) \<or> (b \<and> k = Inl e)"
  by (auto simp: c_assert_def)

lemma read1_eq_Inr [c_iff]:
  "read1 s k = Inr r \<longleftrightarrow> (\<exists>c s'. s = c # s' \<and> k c s' = Inr r)"
  by (cases s) simp_all

lemma read1_eq_Inl [c_iff]:
  "read1 s k = Inl e \<longleftrightarrow> (s = [] \<and> e = OutOfBounds) \<or> (\<exists>c s'. s = c # s' \<and> k c s' = Inl e)"
  by (cases s) auto

section \<open>Parsers\<close>

type_synonym 'a parse = "('a \<times> byte list) option cres"

abbreviation Reject :: "'a parse" where "Reject \<equiv> Inr None"
abbreviation Accept :: "'a \<Rightarrow> byte list \<Rightarrow> 'a parse" where "Accept v s \<equiv> Inr (Some (v, s))"

text \<open>\<open>if (!p(&s, &v)) return false;\<close> followed by the rest of the code.\<close>

definition p_bind :: "'a parse \<Rightarrow> ('a \<Rightarrow> byte list \<Rightarrow> 'b parse) \<Rightarrow> 'b parse" where
  "p_bind p f = (case p of Inl e \<Rightarrow> Inl e | Inr None \<Rightarrow> Reject | Inr (Some (v, s)) \<Rightarrow> f v s)"

lemma p_bind_simps [simp]:
  "p_bind (Inl e) f = Inl e"
  "p_bind Reject f = Reject"
  "p_bind (Accept v s) f = f v s"
  by (simp_all add: p_bind_def)

lemma parse_cases [case_names Fault Reject Accept]:
  fixes p :: "'a parse"
  obtains e where "p = Inl e" | "p = Reject" | v s where "p = Accept v s"
  by (cases p) (auto, metis option.exhaust surj_pair)

lemma p_bind_cong [fundef_cong]:
  "p = q \<Longrightarrow> (\<And>v s. q = Accept v s \<Longrightarrow> f v s = g v s) \<Longrightarrow> p_bind p f = p_bind q g"
  by (cases q rule: parse_cases) simp_all

lemma p_bind_eq_Accept [c_iff]:
  "p_bind p f = Accept v r \<longleftrightarrow> (\<exists>u s. p = Accept u s \<and> f u s = Accept v r)"
  by (cases p rule: parse_cases) auto

lemma p_bind_eq_Reject [c_iff]:
  "p_bind p f = Reject \<longleftrightarrow> p = Reject \<or> (\<exists>u s. p = Accept u s \<and> f u s = Reject)"
  by (cases p rule: parse_cases) auto

lemma p_bind_eq_Inl [c_iff]:
  "p_bind p f = Inl e \<longleftrightarrow> p = Inl e \<or> (\<exists>u s. p = Accept u s \<and> f u s = Inl e)"
  by (cases p rule: parse_cases) auto

text \<open>
  \<open>reads s r\<close>: the cursor moved from \<open>s\<close> to \<open>r\<close> over bytes none of which is the
  terminating zero.
\<close>

definition reads :: "byte list \<Rightarrow> byte list \<Rightarrow> bool" where
  "reads s r \<longleftrightarrow> (\<exists>p. s = p @ r \<and> no_nul p)"

lemma reads_refl [simp, intro]: "reads s s"
  by (auto simp: reads_def no_nul_def)

lemma reads_Cons: "c \<noteq> 0 \<Longrightarrow> reads s r \<Longrightarrow> reads (c # s) r"
  unfolding reads_def no_nul_def by (metis append_Cons set_ConsD)

lemma reads_trans [trans]: "reads s r \<Longrightarrow> reads r t \<Longrightarrow> reads s t"
  unfolding reads_def no_nul_def by (metis Un_iff append.assoc set_append)

lemma reads_nulterm: "reads s r \<Longrightarrow> nulterm s \<Longrightarrow> nulterm r"
  by (auto simp: reads_def nulterm_def no_nul_def)

lemma reads_length: "reads s r \<Longrightarrow> length r \<le> length s"
  by (auto simp: reads_def)

lemma nulterm_simps [simp]:
  "\<not> nulterm []"
  "nulterm (c # s) \<longleftrightarrow> c = 0 \<or> nulterm s"
  "nulterm (s @ t) \<longleftrightarrow> nulterm s \<or> nulterm t"
  by (auto simp: nulterm_def)

lemma no_nul_simps [simp]:
  "no_nul []"
  "no_nul (c # s) \<longleftrightarrow> c \<noteq> 0 \<and> no_nul s"
  "no_nul (s @ t) \<longleftrightarrow> no_nul s \<and> no_nul t"
  by (auto simp: no_nul_def)

lemma cstring_append_nul [simp]: "no_nul s \<Longrightarrow> cstring (s @ 0 # t) = s"
  by (auto simp: cstring_def no_nul_def takeWhile_tail)

lemma no_nul_cstring [simp]: "no_nul (cstring m)"
  by (auto simp: cstring_def no_nul_def dest: set_takeWhileD)

lemma nulterm_split: "nulterm m \<Longrightarrow> \<exists>t. m = cstring m @ 0 # t"
  by (induction m) (auto simp: cstring_def)

text \<open>
  Code that returns on every C string: reading the terminating zero is allowed, reading on
  behind it is not.
\<close>

lemma returns_read1:
  "nulterm s \<Longrightarrow> (\<And>c s'. s = c # s' \<Longrightarrow> (c \<noteq> 0 \<Longrightarrow> nulterm s') \<Longrightarrow> returns (k c s')) \<Longrightarrow>
   returns (read1 s k)"
  by (cases s) auto

lemma returns_c_bind:
  "returns x \<Longrightarrow> (\<And>v. x = Inr v \<Longrightarrow> returns (f v)) \<Longrightarrow> returns (c_bind x f)"
  by (cases x) auto

lemma returns_p_bind:
  "returns p \<Longrightarrow> (\<And>v s. p = Accept v s \<Longrightarrow> returns (f v s)) \<Longrightarrow> returns (p_bind p f)"
  by (cases p rule: parse_cases) auto

lemma returns_if: "(b \<Longrightarrow> returns x) \<Longrightarrow> (\<not> b \<Longrightarrow> returns y) \<Longrightarrow> returns (if b then x else y)"
  by simp

lemmas returns_intros = returns_read1 returns_c_bind returns_p_bind returns_if

section \<open>Bits of machine words as arithmetic\<close>

named_theorems word_arith \<open>from masks and shifts to mod, div and +\<close>

lemma and_disjoint_nat:
  fixes x :: nat
  assumes "x < 2 ^ k" shows "(a * 2 ^ k) AND x = 0"
proof -
  have "push_bit k a AND x = 0"
    using assms by (intro bit_eqI)
      (auto simp: bit_simps, metis bit_take_bit_iff not_less take_bit_nat_eq_self)
  then show ?thesis by (simp add: push_bit_eq_mult)
qed

lemma or_disjoint_nat:
  fixes x :: nat
  assumes "x < 2 ^ k" shows "(a * 2 ^ k) OR x = a * 2 ^ k + x"
  using and_disjoint_nat [OF assms] by (simp add: disjunctive_add_eq_or)

lemma and_mask_unat [word_arith]:
  fixes x :: "'a::len word"
  shows "unat (x AND mask k) = unat x mod 2 ^ k"
proof -
  have "unat (x AND mask k) = unat (take_bit k x)" by (simp only: take_bit_eq_mask)
  also have "\<dots> = take_bit k (unat x)" by (rule unsigned_take_bit_eq)
  also have "\<dots> = unat x mod 2 ^ k" by (rule take_bit_eq_mod)
  finally show ?thesis .
qed

lemma unat_drop_bit_div [word_arith]:
  fixes x :: "'a::len word"
  shows "unat (drop_bit k x) = unat x div 2 ^ k"
  by (metis drop_bit_eq_div unat_drop_bit_eq)

lemma and_63 [word_arith]: "unat (x AND 0x3F) = unat (x :: 'a::len word) mod 64"
  using and_mask_unat [of x 6] by (simp add: mask_eq_exp_minus_1)

lemma and_31 [word_arith]: "unat (x AND 0x1F) = unat (x :: 'a::len word) mod 32"
  using and_mask_unat [of x 5] by (simp add: mask_eq_exp_minus_1)

lemma and_15 [word_arith]: "unat (x AND 0xF) = unat (x :: 'a::len word) mod 16"
  using and_mask_unat [of x 4] by (simp add: mask_eq_exp_minus_1)

lemma and_7 [word_arith]: "unat (x AND 0x7) = unat (x :: 'a::len word) mod 8"
  using and_mask_unat [of x 3] by (simp add: mask_eq_exp_minus_1)

lemma and_1023 [word_arith]: "unat (x AND 0x3FF) = unat (x :: 'a::len word) mod 1024"
  using and_mask_unat [of x 10] by (simp add: mask_eq_exp_minus_1)

text \<open>An \<open>OR\<close> of disjoint bits is a sum.\<close>

lemma unat_or_disjoint:
  fixes x y :: "'a::len word"
  assumes "unat y mod 2 ^ k = 0" and "unat x < 2 ^ k"
  shows "unat (y OR x) = unat y + unat x"
proof -
  have y: "unat y = (unat y div 2 ^ k) * 2 ^ k"
    using assms(1) by (metis add.right_neutral div_mult_mod_eq)
  have "unat (y OR x) = unat y OR unat x" by (simp add: unsigned_or_eq)
  also have "\<dots> = unat y + unat x"
    using or_disjoint_nat [OF assms(2), of "unat y div 2 ^ k"] y by simp
  finally show ?thesis .
qed

lemma unat_push_bit:
  fixes x :: "'a::len word"
  assumes "unat x * 2 ^ k < 2 ^ LENGTH('a)"
  shows "unat (push_bit k x) = unat x * 2 ^ k"
proof -
  have "unat (push_bit k x) = take_bit LENGTH('a) (push_bit k (unat x))"
    by (rule unsigned_push_bit_eq)
  then show ?thesis
    using assms by (simp only: push_bit_eq_mult take_bit_nat_eq_self)
qed

lemma unat_ucast_mod [word_arith]:
  "unat (ucast (x :: 'a::len word) :: 'b::len word) = unat x mod 2 ^ LENGTH('b)"
  by (simp add: unsigned_ucast_eq take_bit_eq_mod)

lemma u16_less [simp]: "unat (c :: u16) < 65536"
  using unsigned_less [of c] by simp

lemma u16_mod [simp]: "65536 \<le> m \<Longrightarrow> unat (c :: u16) mod m = unat c"
  using u16_less [of c] by (intro mod_less) linarith


lemma byte_less [simp]: "unat (c :: byte) < 256"
  using unsigned_less [of c] by simp

lemma byte_mod [simp]: "256 \<le> m \<Longrightarrow> unat (c :: byte) mod m = unat c"
  using byte_less [of c] by (intro mod_less) linarith

end
