(* ===== verification/C_Double.thy ===== *)
theory C_Double
  imports Prelude "HOL-Library.Log_Nat" Complex_Main
begin

text \<open>
  The \<open>double\<close> of C as the program uses it: IEEE 754 binary64 with round to nearest, ties to
  even. A finite double is its exact rational value; the two zeros, the infinities and NaN
  are told apart, the sign and payload of a NaN are not. Every operation computes the exact
  result and rounds it once, as the standard demands. The lemma \<open>round_double_exact\<close> says that
  rounding changes no number that a double can hold; it is what makes the interval bisection
  of geohash.c exact.
\<close>

datatype double = DNaN | DInf (d_negative: bool) | DNegZero | DFin (d_rat: rat)

section \<open>Rounding\<close>

definition pow_int :: "rat \<Rightarrow> int \<Rightarrow> rat" where
  "pow_int b e = (if 0 \<le> e then b ^ nat e else 1 / b ^ nat (- e))"

text \<open>The exponent \<open>e\<close> with \<open>b ^ e \<le> x < b ^ (e + 1)\<close>, for positive \<open>x\<close>.\<close>

definition ilog :: "nat \<Rightarrow> rat \<Rightarrow> int" where
  "ilog b x =
     (case quotient_of x of (p, q) \<Rightarrow>
        let e = int (floorlog b (nat p)) - int (floorlog b (nat q))
        in if pow_int (of_nat b) e \<le> x then e else e - 1)"

definition round_even :: "rat \<Rightarrow> int" where
  "round_even x =
     (let f = \<lfloor>x\<rfloor>; d = x - of_int f
      in if d < 1 / 2 \<or> (d = 1 / 2 \<and> even f) then f else f + 1)"

definition round_double :: "rat \<Rightarrow> double" where
  "round_double x =
     (if x = 0 then DFin 0
      else let e = max (ilog 2 \<bar>x\<bar>) (- 1022) - 52;
               m = round_even (\<bar>x\<bar> / pow_int 2 e);
               y = of_int m * pow_int 2 e
           in if pow_int 2 1024 \<le> y then DInf (x < 0)
              else if m = 0 then (if x < 0 then DNegZero else DFin 0)
              else DFin (if x < 0 then - y else y))"

text \<open>The rational numbers that a double can hold.\<close>

definition representable :: "rat \<Rightarrow> bool" where
  "representable x \<longleftrightarrow> (\<exists>m e. \<bar>m\<bar> < 2 ^ 53 \<and> - 1074 \<le> e \<and> e \<le> 971 \<and> x = of_int m * pow_int 2 e)"

section \<open>Arithmetic and comparison\<close>

fun finite_value :: "double \<Rightarrow> rat option" where
  "finite_value DNaN = None"
| "finite_value (DInf _) = None"
| "finite_value DNegZero = Some 0"
| "finite_value (DFin r) = Some r"

fun sign_bit :: "double \<Rightarrow> bool" where
  "sign_bit DNaN = False"
| "sign_bit (DInf n) = n"
| "sign_bit DNegZero = True"
| "sign_bit (DFin r) = (r < 0)"

fun d_neg :: "double \<Rightarrow> double" where
  "d_neg DNaN = DNaN"
| "d_neg (DInf n) = DInf (\<not> n)"
| "d_neg DNegZero = DFin 0"
| "d_neg (DFin r) = (if r = 0 then DNegZero else DFin (- r))"

definition d_zero :: "bool \<Rightarrow> double" where
  "d_zero n = (if n then DNegZero else DFin 0)"

fun d_add :: "double \<Rightarrow> double \<Rightarrow> double" where
  "d_add DNaN y = DNaN"
| "d_add x DNaN = DNaN"
| "d_add (DInf m) (DInf n) = (if m = n then DInf m else DNaN)"
| "d_add (DInf m) y = DInf m"
| "d_add x (DInf n) = DInf n"
| "d_add DNegZero DNegZero = DNegZero"
| "d_add DNegZero (DFin r) = DFin r"
| "d_add (DFin r) DNegZero = DFin r"
| "d_add (DFin r) (DFin s) = round_double (r + s)"

definition d_sub :: "double \<Rightarrow> double \<Rightarrow> double" where
  "d_sub x y = d_add x (d_neg y)"

definition d_div :: "double \<Rightarrow> double \<Rightarrow> double" where
  "d_div x y =
     (let n = (sign_bit x \<noteq> sign_bit y)
      in if x = DNaN \<or> y = DNaN then DNaN
         else case (finite_value x, finite_value y) of
                (None, None) \<Rightarrow> DNaN
              | (None, Some _) \<Rightarrow> DInf n
              | (Some _, None) \<Rightarrow> d_zero n
              | (Some r, Some s) \<Rightarrow>
                  if s = 0 then (if r = 0 then DNaN else DInf n)
                  else if r = 0 then d_zero n
                  else round_double (r / s))"

fun d_le :: "double \<Rightarrow> double \<Rightarrow> bool" where
  "d_le DNaN y = False"
| "d_le x DNaN = False"
| "d_le (DInf True) y = True"
| "d_le x (DInf False) = True"
| "d_le (DInf False) y = False"
| "d_le x (DInf True) = False"
| "d_le x y = (the (finite_value x) \<le> the (finite_value y))"

definition d_lt :: "double \<Rightarrow> double \<Rightarrow> bool" where
  "d_lt x y \<longleftrightarrow> d_le x y \<and> \<not> d_le y x"

definition d_eq :: "double \<Rightarrow> double \<Rightarrow> bool" where
  "d_eq x y \<longleftrightarrow> d_le x y \<and> d_le y x"

text \<open>The conversion of an integer of the program.\<close>

definition d_of_int :: "int \<Rightarrow> double" where
  "d_of_int i = round_double (of_int i)"

section \<open>Lemmas\<close>

lemma pow_int_pos [simp]: "0 < b \<Longrightarrow> 0 < pow_int b e"
  by (simp add: pow_int_def)

lemma pow_int_add: "0 < b \<Longrightarrow> pow_int b (e + f) = pow_int b e * pow_int b f"
proof -
  assume "0 < b"
  then have "pow_int b e = power_int b e" for e
    by (auto simp: pow_int_def power_int_def power_inverse divide_inverse)
  with \<open>0 < b\<close> show ?thesis by (simp add: power_int_add)
qed

lemma pow_int_0 [simp]: "pow_int b 0 = 1"
  by (simp add: pow_int_def)

lemma pow_int_1 [simp]: "pow_int b 1 = b"
  by (simp add: pow_int_def)

lemma pow_int_nat [simp]: "pow_int b (int n) = b ^ n"
  by (simp add: pow_int_def)

lemma pow_int_mono: "1 < b \<Longrightarrow> e \<le> f \<Longrightarrow> pow_int b e \<le> pow_int b f"
proof -
  assume b: "1 < b" and "e \<le> f"
  then obtain n where f: "f = e + int n" by (metis zle_iff_zadd)
  have "pow_int b e * 1 \<le> pow_int b e * b ^ n"
    using b by (intro mult_left_mono) (auto intro: less_imp_le)
  then show ?thesis using b by (simp add: f pow_int_add)
qed

lemma pow_int_less_iff: "1 < b \<Longrightarrow> pow_int b e < pow_int b f \<longleftrightarrow> e < f"
proof
  assume b: "1 < b"
  show "pow_int b e < pow_int b f \<Longrightarrow> e < f"
    using pow_int_mono [OF b, of f e] by (cases "e < f") auto
  assume "e < f"
  then have "pow_int b (e + 1) \<le> pow_int b f" using b by (intro pow_int_mono) auto
  moreover have "pow_int b e < pow_int b (e + 1)" using b by (simp add: pow_int_add)
  ultimately show "pow_int b e < pow_int b f" by simp
qed

lemma floorlog_rat:
  assumes "1 < b" and "0 < n"
  shows "pow_int (of_nat b) (int (floorlog b n) - 1) \<le> of_nat n"
    and "of_nat n < pow_int (of_nat b) (int (floorlog b n))"
proof -
  have "b ^ (floorlog b n - 1) \<le> n" and up: "n < b ^ floorlog b n"
    using assms floorlog_bounds [of n b] by auto
  moreover from up assms(2) have "0 < floorlog b n" by (cases "floorlog b n") auto
  ultimately have "(of_nat b :: rat) ^ (floorlog b n - 1) \<le> of_nat n"
    and "(of_nat n :: rat) < of_nat b ^ floorlog b n"
    by (metis of_nat_le_iff of_nat_power, metis of_nat_less_iff of_nat_power)
  moreover have "int (floorlog b n) - 1 = int (floorlog b n - 1)"
    using up assms(2) by (cases "floorlog b n") auto
  ultimately show "pow_int (of_nat b) (int (floorlog b n) - 1) \<le> of_nat n"
    and "of_nat n < pow_int (of_nat b) (int (floorlog b n))"
    by (simp_all only: pow_int_nat)
qed

lemma ilog_bounds:
  assumes "1 < b" and "0 < x"
  shows "pow_int (of_nat b) (ilog b x) \<le> x" and "x < pow_int (of_nat b) (ilog b x + 1)"
proof -
  obtain p q where pq: "quotient_of x = (p, q)" by (cases "quotient_of x")
  then have q: "0 < q" and x: "x = of_int p / of_int q"
    by (simp_all add: quotient_of_denom_pos quotient_of_div)
  with \<open>0 < x\<close> have p: "0 < p" by (simp add: zero_less_divide_iff)
  let ?B = "of_nat b :: rat"
  let ?i = "int (floorlog b (nat p))" and ?j = "int (floorlog b (nat q))"
  have B: "1 < ?B" using assms(1) by simp
  have rp: "of_nat (nat p) = (of_int p :: rat)" and rq: "of_nat (nat q) = (of_int q :: rat)"
    using p q by simp_all
  have P: "pow_int ?B (?i - 1) \<le> of_int p" "of_int p < pow_int ?B ?i"
    using floorlog_rat [OF assms(1), of "nat p"] p by (simp_all add: rp)
  have Q: "pow_int ?B (?j - 1) \<le> of_int q" "of_int q < pow_int ?B ?j"
    using floorlog_rat [OF assms(1), of "nat q"] q by (simp_all add: rq)
  have padd: "pow_int ?B (e + f) = pow_int ?B e * pow_int ?B f" for e f
    using B by (intro pow_int_add) simp
  have pos: "0 < pow_int ?B e" for e using B by simp
  have lo: "pow_int ?B (?i - ?j - 1) \<le> x"
  proof -
    have "pow_int ?B (?i - ?j - 1) * of_int q \<le> pow_int ?B (?i - ?j - 1) * pow_int ?B ?j"
      using Q(2) pos [of "?i - ?j - 1"] by (intro mult_left_mono) auto
    also have "\<dots> = pow_int ?B (?i - 1)" by (simp flip: padd del: pow_int_nat)
    finally show ?thesis using P(1) q by (simp add: x pos_le_divide_eq)
  qed
  have hi: "x < pow_int ?B (?i - ?j + 1)"
  proof -
    have "pow_int ?B ?i = pow_int ?B (?i - ?j + 1) * pow_int ?B (?j - 1)" by (simp flip: padd del: pow_int_nat)
    also have "\<dots> \<le> pow_int ?B (?i - ?j + 1) * of_int q"
      using Q(1) pos [of "?i - ?j + 1"] by (intro mult_left_mono) auto
    finally show ?thesis using P(2) q by (simp add: x pos_divide_less_eq)
  qed
  show "pow_int (of_nat b) (ilog b x) \<le> x" and "x < pow_int (of_nat b) (ilog b x + 1)"
    using lo hi by (auto simp: ilog_def pq Let_def not_le)
qed

lemma round_even_int [simp]: "round_even (of_int i) = i"
  by (simp add: round_even_def)

lemma round_even_bounds: "round_even x \<le> \<lfloor>x\<rfloor> + 1" "\<lfloor>x\<rfloor> \<le> round_even x"
  by (simp_all add: round_even_def Let_def)

theorem round_double_exact:
  assumes "representable x"
  shows "round_double x = DFin x"
proof (cases "x = 0")
  case True
  then show ?thesis by (simp add: round_double_def)
next
  case False
  obtain m e where m: "\<bar>m\<bar> < 2 ^ 53" and e: "- 1074 \<le> e" "e \<le> 971"
    and x: "x = of_int m * pow_int 2 e"
    using assms by (auto simp: representable_def)
  let ?a = "\<bar>x\<bar>"
  define E where "E = max (ilog 2 ?a) (- 1022) - 52"
  have a: "?a = of_int \<bar>m\<bar> * pow_int 2 e" by (simp add: x abs_mult abs_of_pos)
  have "0 < ?a" using False by simp
  then have lo: "pow_int 2 (ilog 2 ?a) \<le> ?a" using ilog_bounds(1) [of 2 ?a] by simp
  have am: "(of_int \<bar>m\<bar> :: rat) < 2 ^ 53"
    using m by (metis of_int_less_iff of_int_numeral of_int_power)
  have "pow_int 2 (53 + e) = 2 ^ 53 * pow_int 2 e"
    by (simp only: pow_int_add zero_less_numeral) (simp add: pow_int_def)
  then have up: "?a < pow_int 2 (53 + e)"
    unfolding a using am by (simp only: mult_strict_right_mono pow_int_pos zero_less_numeral)
  have Ee: "E \<le> e"
  proof (rule ccontr)
    assume "\<not> E \<le> e"
    then have "53 + e \<le> ilog 2 ?a" using e(1) by (auto simp: E_def)
    then have "pow_int 2 (53 + e) \<le> pow_int 2 (ilog 2 ?a)" by (intro pow_int_mono) auto
    with lo up show False by simp
  qed
  then obtain k where k: "e = E + int k" by (metis zle_iff_zadd)
  have "pow_int 2 e = pow_int 2 E * 2 ^ k" by (subst k) (simp add: pow_int_add)
  then have y: "of_int (\<bar>m\<bar> * 2 ^ k) * pow_int 2 E = ?a" by (simp add: a)
  then have "?a / pow_int 2 E = of_int (\<bar>m\<bar> * 2 ^ k)"
    using pow_int_pos [of 2 E] by (metis less_irrefl nonzero_mult_div_cancel_right zero_less_numeral)
  then have M: "round_even (?a / pow_int 2 E) = \<bar>m\<bar> * 2 ^ k" by (simp only: round_even_int)
  have "pow_int 2 (53 + e) \<le> pow_int 2 1024" using e(2) by (intro pow_int_mono) auto
  then have "\<not> pow_int 2 1024 \<le> ?a" using up by simp
  moreover have "\<bar>m\<bar> * 2 ^ k \<noteq> 0" using False by (simp add: x)
  ultimately show ?thesis
    using False by (simp only: round_double_def Let_def M y if_False flip: E_def) (simp split: if_splits)
qed

text \<open>The doubles that exist, and that every operation yields one of them.\<close>

definition valid_double :: "double \<Rightarrow> bool" where
  "valid_double d \<longleftrightarrow> (case d of DFin r \<Rightarrow> representable r | _ \<Rightarrow> True)"

lemma valid_double_simps [simp]:
  "valid_double DNaN" "valid_double (DInf n)" "valid_double DNegZero"
  "valid_double (DFin r) \<longleftrightarrow> representable r"
  by (simp_all add: valid_double_def)

lemma representable_0 [simp]: "representable 0"
  by (auto simp: representable_def intro!: exI [of _ 0])

lemma representable_minus: "representable x \<Longrightarrow> representable (- x)"
proof -
  assume "representable x"
  then obtain m e where "\<bar>m\<bar> < 2 ^ 53" "- 1074 \<le> e" "e \<le> 971" "x = of_int m * pow_int 2 e"
    by (auto simp: representable_def)
  then show ?thesis unfolding representable_def by (intro exI [of _ "- m"] exI [of _ e]) simp
qed

lemma representable_int: "\<bar>i\<bar> < 2 ^ 53 \<Longrightarrow> representable (of_int i)"
  unfolding representable_def by (rule exI [of _ i], rule exI [of _ 0]) simp

lemma representable_bounds:
  assumes "representable x" and "0 < x"
  shows "pow_int 2 (- 1074) \<le> x" and "x < pow_int 2 1024"
proof -
  obtain m e where m: "\<bar>m\<bar> < 2 ^ 53" and e: "- 1074 \<le> e" "e \<le> 971" and x: "x = of_int m * pow_int 2 e"
    using assms(1) by (auto simp: representable_def)
  have p: "0 < pow_int 2 e" by simp
  have "0 < m" using assms(2) p unfolding x by (simp only: zero_less_mult_iff) auto
  then have m1: "(1 :: rat) \<le> of_int m" by simp
  have "pow_int 2 (- 1074) \<le> pow_int 2 e" using e(1) by (intro pow_int_mono) auto
  also have "\<dots> \<le> x" unfolding x using m1 pow_int_pos [of 2 e] by simp
  finally show "pow_int 2 (- 1074) \<le> x" .
  have "(of_int m :: rat) < 2 ^ 53" using m \<open>0 < m\<close>
    by (metis abs_of_pos of_int_less_iff of_int_numeral of_int_power)
  then have "x < 2 ^ 53 * pow_int 2 e" unfolding x by (intro mult_strict_right_mono) auto
  also have "\<dots> = pow_int 2 (53 + e)" using pow_int_add [of 2 53 e] pow_int_nat [of 2 53] by simp
  also have "\<dots> \<le> pow_int 2 1024" using e(2) by (intro pow_int_mono) auto
  finally show "x < pow_int 2 1024" .
qed

lemma round_double_pos_valid:
  fixes e :: int and m :: int
  assumes e: "- 1074 \<le> e" and m: "0 \<le> m" "m \<le> 2 ^ 53" "2 ^ 52 \<le> m \<or> e = - 1074"
    and y: "of_int m * pow_int 2 e < pow_int 2 1024"
  shows "representable (of_int m * pow_int 2 e)"
proof (cases "m = 2 ^ 53")
  case True
  have "pow_int 2 (53 + e) = of_int m * pow_int 2 e"
    using pow_int_add [of 2 53 e] pow_int_nat [of 2 53] True by simp
  with y have "53 + e < 1024" by (metis pow_int_less_iff one_less_numeral_iff semiring_norm(76))
  moreover have "of_int m * pow_int 2 e = of_int (2 ^ 52) * pow_int 2 (e + 1)"
    using True by (simp add: pow_int_add)
  ultimately show ?thesis
    using e unfolding representable_def by (intro exI [of _ "2 ^ 52"] exI [of _ "e + 1"]) auto
next
  case False
  have "e \<le> 971"
  proof (rule ccontr)
    assume "\<not> e \<le> 971"
    then have "2 ^ 52 \<le> m" using m(3) by auto
    then have "(2 :: rat) ^ 52 \<le> of_int m" by (metis of_int_le_iff of_int_numeral of_int_power)
    then have "2 ^ 52 * pow_int 2 e \<le> of_int m * pow_int 2 e" by (intro mult_right_mono) (auto intro: less_imp_le)
    moreover have "pow_int 2 (52 + e) = 2 ^ 52 * pow_int 2 e"
      using pow_int_add [of 2 52 e] pow_int_nat [of 2 52] by simp
    ultimately have "pow_int 2 (52 + e) < pow_int 2 1024" using y by (simp only:) 
    then show False using \<open>\<not> e \<le> 971\<close> by (simp add: pow_int_less_iff)
  qed
  then show ?thesis using e m False unfolding representable_def by (intro exI [of _ m] exI [of _ e]) auto
qed

lemma round_double_valid [simp]: "valid_double (round_double x)"
proof (cases "x = 0")
  case False
  let ?a = "\<bar>x\<bar>"
  define e where "e = max (ilog 2 ?a) (- 1022) - 52"
  define m where "m = round_even (?a / pow_int 2 e)"
  have "0 < ?a" using False by simp
  then have b: "pow_int 2 (ilog 2 ?a) \<le> ?a" "?a < pow_int 2 (ilog 2 ?a + 1)"
    using ilog_bounds [of 2 ?a] by simp_all
  have p: "0 < pow_int 2 e" by simp
  have e: "- 1074 \<le> e" by (simp add: e_def)
  have "pow_int 2 (ilog 2 ?a + 1) \<le> pow_int 2 (53 + e)" by (intro pow_int_mono) (auto simp: e_def)
  also have "\<dots> = 2 ^ 53 * pow_int 2 e" using pow_int_add [of 2 53 e] pow_int_nat [of 2 53] by simp
  finally have "?a < 2 ^ 53 * pow_int 2 e" using b(2) by simp
  then have up: "?a / pow_int 2 e < 2 ^ 53" using p by (simp add: pos_divide_less_eq)
  then have m_up: "m \<le> 2 ^ 53"
    using round_even_bounds(1) [of "?a / pow_int 2 e"] by (simp add: m_def floor_less_iff) linarith
  have "0 \<le> ?a / pow_int 2 e" using p by (simp add: less_imp_le)
  then have m0: "0 \<le> m" using round_even_bounds(2) [of "?a / pow_int 2 e"] by (simp add: m_def) linarith
  have m_lo: "2 ^ 52 \<le> m \<or> e = - 1074"
  proof (cases "ilog 2 ?a \<le> - 1022")
    case False
    then have "pow_int 2 (ilog 2 ?a) = 2 ^ 52 * pow_int 2 e"
      using pow_int_add [of 2 52 e] pow_int_nat [of 2 52] by (simp add: e_def max_def)
    then have "2 ^ 52 \<le> ?a / pow_int 2 e" using b(1) p by (simp add: pos_le_divide_eq)
    then show ?thesis
      using round_even_bounds(2) [of "?a / pow_int 2 e"] by (simp add: m_def le_floor_iff) linarith
  qed (simp add: e_def)
  have "representable (of_int m * pow_int 2 e)" if "\<not> pow_int 2 1024 \<le> of_int m * pow_int 2 e"
    using round_double_pos_valid [OF e m0 m_up m_lo] that by simp
  then show ?thesis
    using False unfolding round_double_def Let_def e_def [symmetric] m_def [symmetric]
    by (auto simp: representable_minus)
qed (simp add: round_double_def)

end
