(* ===== verification/Json_Tree.thy ===== *)
theory Json_Tree
  imports C_Double
begin

text \<open>
  The JSON values that the nodes of json.c stand for, and the operations of json.c on them
  that the rest of the program uses: a \<open>JsonNode *\<close> with its subtree is a value of the
  datatype \<open>json\<close>, the null pointer is \<open>None\<close>. Strings are the bytes before the
  terminating zero. The members of an object are an association list in the order of their
  nodes, with duplicate keys where the text has them.
\<close>

datatype json =
    JNull
  | JBool bool
  | JString "byte list"
  | JNumber double
  | JArray "json list"
  | JObject "(byte list \<times> json) list"

fun find_nth :: "json list \<Rightarrow> int \<Rightarrow> int \<Rightarrow> json option" where
  "find_nth [] i index = None"
| "find_nth (element # rest) i index =
     (if i = index then Some element else find_nth rest (i + 1) index)"

definition json_find_element :: "json option \<Rightarrow> int \<Rightarrow> json option" where
  "json_find_element array index =
     (case array of Some (JArray es) \<Rightarrow> find_nth es 0 index | _ \<Rightarrow> None)"

fun find_key :: "(byte list \<times> json) list \<Rightarrow> byte list \<Rightarrow> json option" where
  "find_key [] name = None"
| "find_key ((key, member) # rest) name =
     (if key = name then Some member else find_key rest name)"

definition json_find_member :: "json option \<Rightarrow> byte list \<Rightarrow> json option" where
  "json_find_member object name =
     (case object of Some (JObject ms) \<Rightarrow> find_key ms name | _ \<Rightarrow> None)"

definition json_mkobject :: json where "json_mkobject = JObject []"

definition json_mkarray :: json where "json_mkarray = JArray []"

definition json_append_element :: "json \<Rightarrow> json \<Rightarrow> json cres" where
  "json_append_element array element =
     (case array of JArray es \<Rightarrow> Inr (JArray (es @ [element])) | _ \<Rightarrow> Inl AssertFail)"

definition json_append_member :: "json \<Rightarrow> byte list \<Rightarrow> json \<Rightarrow> json cres" where
  "json_append_member object key value =
     (case object of JObject ms \<Rightarrow> Inr (JObject (ms @ [(key, value)])) | _ \<Rightarrow> Inl AssertFail)"

lemma find_nth_nth: "find_nth es i index =
    (if i \<le> index \<and> index - i < int (length es) then Some (es ! nat (index - i)) else None)"
proof (induction es arbitrary: i)
  case (Cons e es)
  show ?case
  proof (cases "i < index")
    case True
    then have "nat (index - i) = Suc (nat (index - (i + 1)))" by linarith
    with True Cons [of "i + 1"] show ?thesis by auto
  qed (use Cons [of "i + 1"] in auto)
qed simp

lemma find_key_map_of: "find_key ms name = map_of ms name"
  by (induction ms) auto

lemma json_find_member_object [simp]: "json_find_member (Some (JObject ms)) k = map_of ms k"
  by (simp add: json_find_member_def find_key_map_of)

lemma json_find_member_None [simp]: "json_find_member None k = None"
  by (simp add: json_find_member_def)

lemma json_append_member_object [simp]:
  "json_append_member (JObject ms) k v = Inr (JObject (ms @ [(k, v)]))"
  by (simp add: json_append_member_def)

end
