(* ===== verification/Utf8.thy ===== *)
theory Utf8
  imports Prelude
begin

text \<open>
  The Unicode helpers of json.c: validation, reading and writing of one UTF-8 character,
  surrogate pairs, and the four hexadecimal digits of a \<open>\u\<close> escape. The definitions keep
  the code's word arithmetic; the lemmas relate it to the scalar values of Unicode:
  validation accepts exactly the byte sequences that \<open>utf8_write_char\<close> writes for a scalar
  value, and reading inverts writing.
\<close>

section \<open>Validation\<close>

definition continuation :: "byte \<Rightarrow> bool" where
  "continuation c \<longleftrightarrow> c AND 0xC0 = 0x80"

definition utf8_validate_cz :: "byte list \<Rightarrow> nat cres" where
  "utf8_validate_cz s = read1 s (\<lambda>c s.
     if c \<le> 0x7F then Inr 1
     else if c \<le> 0xC1 then Inr 0
     else if c \<le> 0xDF then
       read1 s (\<lambda>c1 s. if \<not> continuation c1 then Inr 0 else Inr 2)
     else if c \<le> 0xEF then
       read1 s (\<lambda>c1 s.
         if c = 0xE0 \<and> c1 < 0xA0 then Inr 0
         else if c = 0xED \<and> c1 > 0x9F then Inr 0
         else if \<not> continuation c1 then Inr 0
         else read1 s (\<lambda>c2 s. if \<not> continuation c2 then Inr 0 else Inr 3))
     else if c \<le> 0xF4 then
       read1 s (\<lambda>c1 s.
         if c = 0xF0 \<and> c1 < 0x90 then Inr 0
         else if c = 0xF4 \<and> c1 > 0x8F then Inr 0
         else if \<not> continuation c1 then Inr 0
         else read1 s (\<lambda>c2 s.
           if \<not> continuation c2 then Inr 0
           else read1 s (\<lambda>c3 s. if \<not> continuation c3 then Inr 0 else Inr 4)))
     else Inr 0)"

function utf8_validate :: "byte list \<Rightarrow> bool cres" where
  "utf8_validate s = read1 s (\<lambda>c _.
     if c = 0 then Inr True
     else c_bind (utf8_validate_cz s) (\<lambda>len.
       if len = 0 then Inr False else utf8_validate (drop len s)))"
  by pat_completeness auto
termination
  by (relation "measure length") auto

declare utf8_validate.simps [simp del]

section \<open>Reading and writing one character\<close>

definition utf8_read_char :: "byte list \<Rightarrow> (nat \<times> uchar) cres" where
  "utf8_read_char s = c_bind (utf8_validate_cz s) (\<lambda>ok. c_assert (ok \<noteq> 0)
     (read1 s (\<lambda>c0 s.
       if c0 \<le> 0x7F then Inr (1, ucast c0)
       else if c0 \<le> 0xDF then
         read1 s (\<lambda>c1 s. Inr (2, push_bit 6 (ucast c0 AND 0x1F) OR (ucast c1 AND 0x3F)))
       else if c0 \<le> 0xEF then
         read1 s (\<lambda>c1 s. read1 s (\<lambda>c2 s.
           Inr (3, push_bit 12 (ucast c0 AND 0xF) OR push_bit 6 (ucast c1 AND 0x3F)
                   OR (ucast c2 AND 0x3F))))
       else
         read1 s (\<lambda>c1 s. read1 s (\<lambda>c2 s. read1 s (\<lambda>c3 s.
           Inr (4, push_bit 18 (ucast c0 AND 0x7) OR push_bit 12 (ucast c1 AND 0x3F)
                   OR push_bit 6 (ucast c2 AND 0x3F) OR (ucast c3 AND 0x3F))))))))"

text \<open>The scalar values of Unicode: what \<open>utf8_write_char\<close> asserts of its argument.\<close>

definition scalar :: "uchar \<Rightarrow> bool" where
  "scalar u \<longleftrightarrow> u \<le> 0x10FFFF \<and> \<not> (u \<ge> 0xD800 \<and> u \<le> 0xDFFF)"

text \<open>The bytes written to \<open>out\<close>; their number is the value returned.\<close>

definition utf8_write_char :: "uchar \<Rightarrow> byte list cres" where
  "utf8_write_char unicode = c_assert (scalar unicode) (Inr (
     if unicode \<le> 0x7F then [ucast unicode]
     else if unicode \<le> 0x7FF then
       [ucast (0xC0 OR drop_bit 6 unicode), ucast (0x80 OR (unicode AND 0x3F))]
     else if unicode \<le> 0xFFFF then
       [ucast (0xE0 OR drop_bit 12 unicode), ucast (0x80 OR (drop_bit 6 unicode AND 0x3F)),
        ucast (0x80 OR (unicode AND 0x3F))]
     else
       [ucast (0xF0 OR drop_bit 18 unicode), ucast (0x80 OR (drop_bit 12 unicode AND 0x3F)),
        ucast (0x80 OR (drop_bit 6 unicode AND 0x3F)), ucast (0x80 OR (unicode AND 0x3F))]))"

section \<open>Surrogate pairs\<close>

definition from_surrogate_pair :: "u16 \<Rightarrow> u16 \<Rightarrow> uchar option" where
  "from_surrogate_pair uc lc =
     (if uc \<ge> 0xD800 \<and> uc \<le> 0xDBFF \<and> lc \<ge> 0xDC00 \<and> lc \<le> 0xDFFF
      then Some (0x10000 + (push_bit 10 (ucast uc AND 0x3FF) OR ucast (lc AND 0x3FF)))
      else None)"

definition to_surrogate_pair :: "uchar \<Rightarrow> (u16 \<times> u16) cres" where
  "to_surrogate_pair unicode = c_assert (unicode \<ge> 0x10000 \<and> unicode \<le> 0x10FFFF)
     (let n = unicode - 0x10000
      in Inr (ucast ((drop_bit 10 n AND 0x3FF) OR 0xD800), ucast ((n AND 0x3FF) OR 0xDC00)))"

section \<open>Hexadecimal escapes\<close>

definition hex_value :: "byte \<Rightarrow> u16 option" where
  "hex_value c =
     (if c \<ge> 0x30 \<and> c \<le> 0x39 then Some (ucast (c - 0x30))
      else if c \<ge> 0x41 \<and> c \<le> 0x46 then Some (ucast (c - 0x41 + 10))
      else if c \<ge> 0x61 \<and> c \<le> 0x66 then Some (ucast (c - 0x61 + 10))
      else None)"

fun hex16_loop :: "nat \<Rightarrow> u16 \<Rightarrow> byte list \<Rightarrow> u16 parse" where
  "hex16_loop 0 ret s = Accept ret s"
| "hex16_loop (Suc i) ret s = read1 s (\<lambda>c s.
     case hex_value c of None \<Rightarrow> Reject
     | Some tmp \<Rightarrow> hex16_loop i (push_bit 4 ret + tmp) s)"

definition parse_hex16 :: "byte list \<Rightarrow> u16 parse" where
  "parse_hex16 s = hex16_loop 4 0 s"

definition hex_digits :: "byte list" where
  "hex_digits = ascii ''0123456789ABCDEF''"

definition write_hex16 :: "u16 \<Rightarrow> byte list" where
  "write_hex16 val =
     [hex_digits ! unat (drop_bit 12 val AND 0xF), hex_digits ! unat (drop_bit 8 val AND 0xF),
      hex_digits ! unat (drop_bit 4 val AND 0xF), hex_digits ! unat (val AND 0xF)]"

section \<open>Lemmas\<close>

lemma continuation_iff: "continuation c \<longleftrightarrow> 0x80 \<le> unat c \<and> unat c < 0xC0"
proof -
  define q r where "q = unat c div 64" and "r = unat c mod 64"
  have c: "unat c = q * 64 + r" and "r < 64" by (simp_all add: q_def r_def)
  have q: "q = 0 \<or> q = 1 \<or> q = 2 \<or> q = 3"
    using byte_less [of c] unfolding q_def by linarith
  have "unat c = q * 64 OR r"
    using or_disjoint_nat [of r 6 q] \<open>r < 64\<close> by (simp add: c)
  then have "unat c AND 192 = (q * 64 AND 192) OR (r AND 192)"
    by (auto simp: bit_eq_iff bit_and_iff bit_or_iff)
  also have "r AND 192 = 0"
    using and_disjoint_nat [of r 6 3] \<open>r < 64\<close> by (simp add: and.commute)
  finally have "unat c AND 192 = 128 \<longleftrightarrow> 128 \<le> unat c \<and> unat c < 192"
    using q \<open>r < 64\<close> by (auto simp: c)
  then show ?thesis by (simp add: continuation_def word_unat_eq_iff unsigned_and_eq)
qed
lemma cont_byte: "unat (ucast (0x80 OR (u AND 0x3F)) :: byte) = 0x80 + unat (u :: uchar) mod 64"
proof -
  have "unat (0x80 OR (u AND 0x3F)) = 0x80 + unat (u AND 0x3F)"
    using unat_or_disjoint[of "0x80" 6 "u AND 0x3F"] by (simp add: word_arith)
  then show ?thesis by (simp add: word_arith)
qed
lemma lead_byte2: "u \<le> 0x7FF \<Longrightarrow> unat (ucast (0xC0 OR drop_bit 6 (u::uchar)) :: byte) = 0xC0 + unat u div 64"
proof -
  assume "u \<le> 0x7FF"
  then have "unat u div 64 < 32" by (simp add: word_le_nat_alt)
  moreover then have "unat (0xC0 OR drop_bit 6 u) = 0xC0 + unat (drop_bit 6 u)"
    using unat_or_disjoint[of "0xC0" 6 "drop_bit 6 u"] by (simp add: unat_drop_bit_div)
  ultimately show ?thesis by (simp add: word_arith)
qed
lemma lead_byte3: "u \<le> 0xFFFF \<Longrightarrow> unat (ucast (0xE0 OR drop_bit 12 (u::uchar)) :: byte) = 0xE0 + unat u div 4096"
proof -
  assume "u \<le> 0xFFFF"
  then have "unat u div 4096 < 16" by (simp add: word_le_nat_alt)
  moreover then have "unat (0xE0 OR drop_bit 12 u) = 0xE0 + unat (drop_bit 12 u)"
    using unat_or_disjoint[of "0xE0" 4 "drop_bit 12 u"] by (simp add: unat_drop_bit_div)
  ultimately show ?thesis by (simp add: word_arith)
qed
lemma lead_byte4: "u \<le> 0x10FFFF \<Longrightarrow> unat (ucast (0xF0 OR drop_bit 18 (u::uchar)) :: byte) = 0xF0 + unat u div 262144"
proof -
  assume "u \<le> 0x10FFFF"
  then have "unat u div 262144 < 8" by (simp add: word_le_nat_alt)
  moreover then have "unat (0xF0 OR drop_bit 18 u) = 0xF0 + unat (drop_bit 18 u)"
    using unat_or_disjoint[of "0xF0" 4 "drop_bit 18 u"] by (simp add: unat_drop_bit_div)
  ultimately show ?thesis by (simp add: word_arith)
qed
lemma cont_byte_shift: "unat (ucast (0x80 OR (drop_bit k (u::uchar) AND 0x3F)) :: byte) = 0x80 + unat u div 2 ^ k mod 64"
  by (simp add: cont_byte unat_drop_bit_div)
lemmas utf8_bytes = lead_byte2 lead_byte3 lead_byte4 cont_byte cont_byte_shift

lemma code2: "unat (push_bit 6 (ucast c0 AND 0x1F) OR (ucast c1 AND 0x3F) :: uchar)
   = (unat (c0::byte) mod 32) * 64 + unat (c1::byte) mod 64"
proof -
  have p: "unat (push_bit 6 (ucast c0 AND 0x1F) :: uchar) = (unat c0 mod 32) * 64"
    by (subst unat_push_bit) (simp_all add: word_arith del: push_bit_and)
  show ?thesis
    by (subst unat_or_disjoint[where k=6]) (simp_all add: p word_arith del: push_bit_and)
qed

lemma two_digits64: "(a :: nat) mod 64 * 64 + b mod 64 < 4096"
  using mod_less_divisor [of 64 a] mod_less_divisor [of 64 b] by (simp del: mod_less_divisor)

lemma code3: "unat (push_bit 12 (ucast c0 AND 0xF) OR push_bit 6 (ucast c1 AND 0x3F) OR (ucast c2 AND 0x3F) :: uchar)
   = (unat (c0::byte) mod 16) * 4096 + (unat (c1::byte) mod 64) * 64 + unat (c2::byte) mod 64"
proof -
  have p: "unat (push_bit 12 (ucast c0 AND 0xF) :: uchar) = (unat c0 mod 16) * 4096"
    and q: "unat (push_bit 6 (ucast c1 AND 0x3F) :: uchar) = (unat c1 mod 64) * 64"
    by (subst unat_push_bit; simp add: word_arith del: push_bit_and)+
  have qr: "unat (push_bit 6 (ucast c1 AND 0x3F) OR (ucast c2 AND 0x3F) :: uchar)
      = (unat c1 mod 64) * 64 + unat c2 mod 64"
    by (subst unat_or_disjoint[where k=6]) (simp_all add: q word_arith del: push_bit_and)
  have "(unat c1 mod 64) * 64 + unat c2 mod 64 < 4096" by (rule two_digits64)
  then show ?thesis
    by (subst unat_or_disjoint[where k=12]) (simp_all add: p qr del: push_bit_and)
qed
lemma code4: "unat (push_bit 18 (ucast c0 AND 0x7) OR push_bit 12 (ucast c1 AND 0x3F) OR push_bit 6 (ucast c2 AND 0x3F) OR (ucast c3 AND 0x3F) :: uchar)
   = (unat (c0::byte) mod 8) * 262144 + (unat (c1::byte) mod 64) * 4096 + (unat (c2::byte) mod 64) * 64 + unat (c3::byte) mod 64"
proof -
  have p: "unat (push_bit 18 (ucast c0 AND 0x7) :: uchar) = (unat c0 mod 8) * 262144"
    and q: "unat (push_bit 12 (ucast c1 AND 0x3F) :: uchar) = (unat c1 mod 64) * 4096"
    and r: "unat (push_bit 6 (ucast c2 AND 0x3F) :: uchar) = (unat c2 mod 64) * 64"
    by (subst unat_push_bit; simp add: word_arith del: push_bit_and)+
  have s: "unat (push_bit 6 (ucast c2 AND 0x3F) OR (ucast c3 AND 0x3F) :: uchar)
      = (unat c2 mod 64) * 64 + unat c3 mod 64"
    by (subst unat_or_disjoint[where k=6]) (simp_all add: r word_arith del: push_bit_and)
  have lt: "(unat c2 mod 64) * 64 + unat c3 mod 64 < 4096" by (rule two_digits64)
  have t: "unat (push_bit 12 (ucast c1 AND 0x3F) OR push_bit 6 (ucast c2 AND 0x3F) OR (ucast c3 AND 0x3F) :: uchar)
      = (unat c1 mod 64) * 4096 + ((unat c2 mod 64) * 64 + unat c3 mod 64)"
    using lt by (subst unat_or_disjoint[where k=12]) (simp_all add: q s del: push_bit_and)
  have "(unat c1 mod 64) * 4096 + ((unat c2 mod 64) * 64 + unat c3 mod 64) < 262144"
    using lt mod_less_divisor[of 64 "unat c1"] by linarith
  then show ?thesis
    by (subst unat_or_disjoint[where k=18]) (simp_all add: p t del: push_bit_and)
qed
definition utf8_seq :: "nat \<Rightarrow> nat list" where
  "utf8_seq n =
     (if n < 0x80 then [n]
      else if n < 0x800 then [0xC0 + n div 64, 0x80 + n mod 64]
      else if n < 0x10000 then [0xE0 + n div 4096, 0x80 + n div 64 mod 64, 0x80 + n mod 64]
      else [0xF0 + n div 262144, 0x80 + n div 4096 mod 64, 0x80 + n div 64 mod 64,
            0x80 + n mod 64])"

definition scalar_value :: "nat \<Rightarrow> bool" where
  "scalar_value n \<longleftrightarrow> n < 0xD800 \<or> (0xDFFF < n \<and> n < 0x110000)"

lemma scalar_iff: "scalar u \<longleftrightarrow> scalar_value (unat u)"
  by (auto simp: scalar_def scalar_value_def word_le_nat_alt)

lemma utf8_write_char_seq:
  "utf8_write_char u = Inr bs \<longleftrightarrow> scalar u \<and> map unat bs = utf8_seq (unat u)"
proof (cases "scalar u")
  case True
  then have le: "u \<le> 0x10FFFF" by (simp add: scalar_def)
  have n: "utf8_seq (unat u) = map unat (
     if u \<le> 0x7F then [ucast u :: byte]
     else if u \<le> 0x7FF then
       [ucast (0xC0 OR drop_bit 6 u), ucast (0x80 OR (u AND 0x3F))]
     else if u \<le> 0xFFFF then
       [ucast (0xE0 OR drop_bit 12 u), ucast (0x80 OR (drop_bit 6 u AND 0x3F)),
        ucast (0x80 OR (u AND 0x3F))]
     else
       [ucast (0xF0 OR drop_bit 18 u), ucast (0x80 OR (drop_bit 12 u AND 0x3F)),
        ucast (0x80 OR (drop_bit 6 u AND 0x3F)), ucast (0x80 OR (u AND 0x3F))])"
    (is "_ = map unat ?bs")
    using le by (simp add: utf8_seq_def utf8_bytes) (simp add: word_le_nat_alt word_arith)
  have "utf8_write_char u = Inr ?bs" using True by (simp add: utf8_write_char_def)
  moreover have "map unat bs = map unat ?bs \<longleftrightarrow> bs = ?bs"
    by (rule inj_map_eq_map) (rule injI, simp add: word_unat_eq_iff)
  ultimately show ?thesis using True n by auto
qed (auto simp: utf8_write_char_def)

lemma unat_le_numeral: "(c :: byte) \<le> numeral k \<longleftrightarrow> unat c \<le> unat (numeral k :: byte)"
  by (simp add: word_le_nat_alt)

lemmas byte_nat = word_le_nat_alt word_less_nat_alt word_unat_eq_iff continuation_iff

lemma utf8_seq_valid:
  assumes "scalar_value n" and "map unat bs = utf8_seq n"
  shows "utf8_validate_cz (bs @ t) = Inr (length bs)"
proof -
  consider "n < 0x80" | "0x80 \<le> n" "n < 0x800" | "0x800 \<le> n" "n < 0x10000"
    | "0x10000 \<le> n" "n < 0x110000"
    using assms(1) by (fastforce simp: scalar_value_def)
  then show ?thesis
  proof cases
    case 1
    with assms(2) show ?thesis
      by (auto simp: utf8_seq_def utf8_validate_cz_def byte_nat)
  next
    case 2
    with assms(2) obtain c0 c1 where bs: "bs = [c0, c1]"
      and c: "unat c0 = 0xC0 + n div 64" "unat c1 = 0x80 + n mod 64"
      by (auto simp: utf8_seq_def)
    from 2 have "2 \<le> n div 64" "n div 64 < 32" by auto
    then show ?thesis by (simp add: bs utf8_validate_cz_def byte_nat c)
  next
    case 3
    with assms(2) obtain c0 c1 c2 where bs: "bs = [c0, c1, c2]"
      and c: "unat c0 = 0xE0 + n div 4096" "unat c1 = 0x80 + n div 64 mod 64"
        "unat c2 = 0x80 + n mod 64"
      by (auto simp: utf8_seq_def)
    define q where "q = n div 64"
    have d: "n div 4096 = q div 64" by (simp add: q_def div_mult2_eq [symmetric])
    have q: "32 \<le> q" "q < 1024" "q < 864 \<or> 896 \<le> q"
      using 3 assms(1) by (auto simp: q_def scalar_value_def)
    define a b where "a = q div 64" and "b = q mod 64"
    then have ab: "a * 64 + b = q" "b < 64" by (simp_all add: div_mult_mod_eq)
    have "a < 16" "a = 0 \<longrightarrow> 32 \<le> b" "a = 13 \<longrightarrow> b < 32" "b < 64"
      using q ab by auto
    then show ?thesis
      by (auto simp add: bs utf8_validate_cz_def byte_nat c d simp flip: q_def a_def b_def)
  next
    case 4
    with assms(2) obtain c0 c1 c2 c3 where bs: "bs = [c0, c1, c2, c3]"
      and c: "unat c0 = 0xF0 + n div 262144" "unat c1 = 0x80 + n div 4096 mod 64"
        "unat c2 = 0x80 + n div 64 mod 64" "unat c3 = 0x80 + n mod 64"
      by (auto simp: utf8_seq_def)
    define q where "q = n div 4096"
    have d: "n div 262144 = q div 64" by (simp add: q_def div_mult2_eq [symmetric])
    have q: "16 \<le> q" "q < 272" using 4 by (auto simp: q_def)
    define a b where "a = q div 64" and "b = q mod 64"
    then have ab: "a * 64 + b = q" "b < 64" by (simp_all add: div_mult_mod_eq)
    have "a \<le> 4" "a = 0 \<longrightarrow> 16 \<le> b" "a = 4 \<longrightarrow> b < 16" "b < 64"
      using q ab by auto
    then show ?thesis
      by (auto simp add: bs utf8_validate_cz_def byte_nat c d simp flip: q_def a_def b_def)
  qed
qed

lemma digits64_3: "(n::nat) div 4096 * 4096 + n div 64 mod 64 * 64 + n mod 64 = n"
proof -
  have "n div 4096 * 64 + n div 64 mod 64 = n div 64"
    using div_mult_mod_eq [of "n div 64" 64] by (simp add: div_mult2_eq [symmetric])
  then have "(n div 4096 * 64 + n div 64 mod 64) * 64 + n mod 64 = n"
    using div_mult_mod_eq [of n 64] by simp
  then show ?thesis by simp
qed

lemma digits64_4:
  "(n::nat) div 262144 * 262144 + n div 4096 mod 64 * 4096 + n div 64 mod 64 * 64 + n mod 64 = n"
proof -
  have "n div 262144 * 64 + n div 4096 mod 64 = n div 4096"
    using div_mult_mod_eq [of "n div 4096" 64] by (simp add: div_mult2_eq [symmetric])
  then have "(n div 262144 * 64 + n div 4096 mod 64) * 4096 + n div 64 mod 64 * 64 + n mod 64 = n"
    using digits64_3 [of n] by simp
  then show ?thesis by simp
qed

lemma continuation_mod: "(128 + n mod 64) mod 64 = n mod (64 :: nat)"
  using mod_mult_self3 [of 2 64 "n mod 64"] by simp

lemma lead_mod:
  "x < 32 \<Longrightarrow> (0xC0 + x) mod 32 = (x :: nat)"
  "y < 16 \<Longrightarrow> (0xE0 + y) mod 16 = (y :: nat)"
  "z \<le> 4 \<Longrightarrow> (0xF0 + z) mod 8 = (z :: nat)"
  using mod_mult_self3 [of 6 32 x] mod_mult_self3 [of 14 16 y] mod_mult_self3 [of 30 8 z]
  by simp_all

lemma utf8_seq_read:
  assumes "scalar u" and "map unat bs = utf8_seq (unat u)"
  shows "utf8_read_char (bs @ t) = Inr (length bs, u)"
proof -
  let ?n = "unat u"
  have v: "utf8_validate_cz (bs @ t) = Inr (length bs)"
    using assms by (intro utf8_seq_valid) (simp_all add: scalar_iff)
  have n: "?n < 0x110000" using assms(1) by (auto simp: scalar_iff scalar_value_def)
  consider "?n < 0x80" | "0x80 \<le> ?n" "?n < 0x800" | "0x800 \<le> ?n" "?n < 0x10000"
    | "0x10000 \<le> ?n" by linarith
  then show ?thesis
  proof cases
    case 1
    with assms(2) v show ?thesis
      by (auto simp: utf8_seq_def utf8_read_char_def byte_nat word_arith)
  next
    case 2
    with assms(2) obtain c0 c1 where bs: "bs = [c0, c1]"
      and c: "unat c0 = 0xC0 + ?n div 64" "unat c1 = 0x80 + ?n mod 64"
      by (auto simp: utf8_seq_def)
    from 2 have "?n div 64 < 32" by auto
    moreover from this have "(0xC0 + ?n div 64) mod 32 = ?n div 64" by (rule lead_mod(1))
    ultimately show ?thesis using v c
      by (simp add: bs utf8_read_char_def word_le_nat_alt del: push_bit_and) (simp add: word_unat_eq_iff code2 continuation_mod del: push_bit_and)
  next
    case 3
    with assms(2) obtain c0 c1 c2 where bs: "bs = [c0, c1, c2]"
      and c: "unat c0 = 0xE0 + ?n div 4096" "unat c1 = 0x80 + ?n div 64 mod 64"
        "unat c2 = 0x80 + ?n mod 64"
      by (auto simp: utf8_seq_def)
    from 3 have "?n div 4096 < 16" by auto
    moreover from this have "(0xE0 + ?n div 4096) mod 16 = ?n div 4096" by (rule lead_mod(2))
    moreover note digits64_3 [of ?n]
    ultimately show ?thesis using v c
      by (simp add: bs utf8_read_char_def word_le_nat_alt del: push_bit_and) (simp add: word_unat_eq_iff code3 continuation_mod del: push_bit_and)
  next
    case 4
    with assms(2) obtain c0 c1 c2 c3 where bs: "bs = [c0, c1, c2, c3]"
      and c: "unat c0 = 0xF0 + ?n div 262144" "unat c1 = 0x80 + ?n div 4096 mod 64"
        "unat c2 = 0x80 + ?n div 64 mod 64" "unat c3 = 0x80 + ?n mod 64"
      by (auto simp: utf8_seq_def)
    from n have "?n div 262144 \<le> 4" by auto
    moreover from this have "(0xF0 + ?n div 262144) mod 8 = ?n div 262144" by (rule lead_mod(3))
    moreover note digits64_4 [of ?n]
    ultimately show ?thesis using v c
      by (simp add: bs utf8_read_char_def word_le_nat_alt del: push_bit_and) (simp add: word_unat_eq_iff code4 continuation_mod del: push_bit_and)
  qed
qed

lemma digit64: "z < 64 \<Longrightarrow> (a * 64 + z) div 64 = (a :: nat)" "z < 64 \<Longrightarrow> (a * 64 + z) mod 64 = (z :: nat)"
  by auto

lemma div_digits: "(n::nat) div 4096 = n div 64 div 64" "(n::nat) div 262144 = n div 64 div 64 div 64"
  by (simp_all add: div_mult2_eq [symmetric])

lemma validate_seq:
  assumes "utf8_validate_cz s = Inr k" "k \<noteq> 0"
  shows "\<exists>n. scalar_value n \<and> map unat (take k s) = utf8_seq n"
proof -
  obtain c0 s1 where s: "s = c0 # s1" using assms by (cases s) (auto simp: utf8_validate_cz_def)
  consider "unat c0 < 0x80" | "0xC2 \<le> unat c0" "unat c0 < 0xE0" | "0xE0 \<le> unat c0" "unat c0 < 0xF0"
    | "0xF0 \<le> unat c0" "unat c0 \<le> 0xF4" 
    using assms by (auto simp add: s utf8_validate_cz_def byte_nat not_le split: if_splits)
  then show ?thesis
  proof cases
    case 1 
    with assms s have "k = 1" by (simp add: utf8_validate_cz_def byte_nat)
    with 1 show ?thesis by (intro exI[of _ "unat c0"]) (simp add: s scalar_value_def utf8_seq_def)
  next
    case 2
    then obtain c1 s2 where s1: "s1 = c1 # s2" and k: "k = 2" and c1: "0x80 \<le> unat c1" "unat c1 < 0xC0"
      using assms by (cases s1) (auto simp: s utf8_validate_cz_def byte_nat split: if_splits)
    from 2(1) have "0xC0 \<le> unat c0" by simp
    from le_Suc_ex [OF this] le_Suc_ex [OF c1(1)]
    obtain x y where c: "unat c0 = 0xC0 + x" "unat c1 = 0x80 + y" by blast
    with 2 c1 have "2 \<le> x" "x < 32" "y < 64" by simp_all
    then show ?thesis
      by (intro exI [of _ "x * 64 + y"]) (simp add: s s1 k c scalar_value_def utf8_seq_def)
  next
    case 3
    then obtain c1 c2 s2 where s1: "s1 = c1 # c2 # s2" and k: "k = 3" 
      and c1: "0x80 \<le> unat c1" "unat c1 < 0xC0" and c2: "0x80 \<le> unat c2" "unat c2 < 0xC0"
      and e: "unat c0 = 0xE0 \<longrightarrow> 0xA0 \<le> unat c1" "unat c0 = 0xED \<longrightarrow> unat c1 \<le> 0x9F"
      using assms by (cases s1; cases "tl s1") (auto simp: s utf8_validate_cz_def byte_nat split: if_splits)
    from le_Suc_ex [OF 3(1)] le_Suc_ex [OF c1(1)] le_Suc_ex [OF c2(1)]
    obtain x y z where c: "unat c0 = 0xE0 + x" "unat c1 = 0x80 + y" "unat c2 = 0x80 + z"
      by blast
    with 3 c1 c2 e have b: "x < 16" "y < 64" "z < 64" "x = 0 \<longrightarrow> 32 \<le> y" "x = 13 \<longrightarrow> y < 32"
      by auto
    define n where "n = (x * 64 + y) * 64 + z"
    have "n div 64 = x * 64 + y" "n mod 64 = z" "n div 4096 = x" "n div 64 mod 64 = y"
      unfolding n_def using b by (simp_all only: div_digits digit64)
    moreover have "0x800 \<le> n" using b by (cases "x = 0") (simp_all add: n_def)
    moreover have "n < 0x10000" using b(1-3) by (simp add: n_def)
    moreover have "n < 0xD800 \<or> 0xDFFF < n"
      using b by (cases "x < 13"; cases "x = 13") (simp_all add: n_def)
    ultimately show ?thesis using b
      by (intro exI [of _ n]) (simp add: s s1 k c scalar_value_def utf8_seq_def)
  next
    case 4
    then obtain c1 c2 c3 s2 where s1: "s1 = c1 # c2 # c3 # s2" and k: "k = 4" 
      and c1: "0x80 \<le> unat c1" "unat c1 < 0xC0" and c2: "0x80 \<le> unat c2" "unat c2 < 0xC0"
      and c3: "0x80 \<le> unat c3" "unat c3 < 0xC0"
      and e: "unat c0 = 0xF0 \<longrightarrow> 0x90 \<le> unat c1" "unat c0 = 0xF4 \<longrightarrow> unat c1 \<le> 0x8F"
      using assms by (cases s1; cases "tl s1"; cases "tl (tl s1)") (auto simp: s utf8_validate_cz_def byte_nat split: if_splits)
    from le_Suc_ex [OF 4(1)] le_Suc_ex [OF c1(1)] le_Suc_ex [OF c2(1)] le_Suc_ex [OF c3(1)]
    obtain x y z w where c: "unat c0 = 0xF0 + x" "unat c1 = 0x80 + y"
        "unat c2 = 0x80 + z" "unat c3 = 0x80 + w"
      by blast
    with 4 c1 c2 c3 e have b: "x \<le> 4" "y < 64" "z < 64" "w < 64"
      "x = 0 \<longrightarrow> 16 \<le> y" "x = 4 \<longrightarrow> y < 16"
      by auto
    define n where "n = ((x * 64 + y) * 64 + z) * 64 + w"
    have "n div 64 = (x * 64 + y) * 64 + z" "n mod 64 = w" "n div 4096 = x * 64 + y"
      "n div 262144 = x" "n div 64 mod 64 = z" "n div 4096 mod 64 = y"
      unfolding n_def using b by (simp_all only: div_digits digit64)
    moreover have "0x10000 \<le> n" using b by (cases "x = 0") (simp_all add: n_def)
    moreover have "n < 0x110000" using b by (cases "x = 4") (simp_all add: n_def)
    ultimately show ?thesis using b
      by (intro exI [of _ n]) (simp add: s s1 k c scalar_value_def utf8_seq_def)
  qed
qed

definition utf8_enc :: "uchar \<Rightarrow> byte list" where
  "utf8_enc u = map of_nat (utf8_seq (unat u))"

lemma utf8_seq_bytes: "n < 0x110000 \<Longrightarrow> k \<in> set (utf8_seq n) \<Longrightarrow> k < 256"
  by (auto simp: utf8_seq_def split: if_splits)

lemma map_unat_enc: "scalar u \<Longrightarrow> map unat (utf8_enc u) = utf8_seq (unat u)"
  by (auto simp: utf8_enc_def scalar_iff scalar_value_def unat_of_nat
      intro!: map_idI dest: utf8_seq_bytes [rotated])

lemma map_unat_inj: "map unat bs = map unat (cs :: byte list) \<longleftrightarrow> bs = cs"
  by (rule inj_map_eq_map) (rule injI, simp add: word_unat_eq_iff)

lemma utf8_write_char_eq: "utf8_write_char u = (if scalar u then Inr (utf8_enc u) else Inl AssertFail)"
proof (cases "scalar u")
  case True
  then have "utf8_write_char u = Inr (utf8_enc u)" by (simp add: utf8_write_char_seq map_unat_enc)
  with True show ?thesis by simp
qed (simp add: utf8_write_char_def)

lemma utf8_enc_valid: "scalar u \<Longrightarrow> utf8_validate_cz (utf8_enc u @ t) = Inr (length (utf8_enc u))"
  by (rule utf8_seq_valid) (simp_all add: map_unat_enc scalar_iff)
lemma utf8_enc_read: "scalar u \<Longrightarrow> utf8_read_char (utf8_enc u @ t) = Inr (length (utf8_enc u), u)"
  by (rule utf8_seq_read) (simp_all add: map_unat_enc)

lemma utf8_enc_length: "length (utf8_enc u) \<in> {1..4}"
  by (auto simp: utf8_enc_def utf8_seq_def)

lemma utf8_validE:
  assumes "utf8_validate_cz s = Inr k" "k \<noteq> 0"
  obtains u t where "scalar u" "s = utf8_enc u @ t" "k = length (utf8_enc u)"
proof -
  obtain n where n: "scalar_value n" "map unat (take k s) = utf8_seq n"
    using validate_seq [OF assms] by blast
  let ?u = "of_nat n :: uchar"
  have u: "unat ?u = n" using n(1) by (auto simp: scalar_value_def unat_of_nat)
  then have sc: "scalar ?u" using n(1) by (simp add: scalar_iff)
  have "take k s = utf8_enc ?u"
    using n(2) u sc map_unat_enc [OF sc] by (simp flip: map_unat_inj)
  moreover then have "s = utf8_enc ?u @ drop k s" by (metis append_take_drop_id)
  moreover from this have "utf8_validate_cz s = Inr (length (utf8_enc ?u))"
    using utf8_enc_valid [OF sc, of "drop k s"] by simp
  ultimately show ?thesis using that [OF sc] assms(1) by simp
qed

lemma utf8_validate_cz_returns: "nulterm s \<Longrightarrow> returns (utf8_validate_cz s)"
  by (cases s; cases "tl s"; cases "tl (tl s)"; cases "tl (tl (tl s))")
    (auto simp: utf8_validate_cz_def continuation_iff)

lemma utf8_enc_nul: "scalar u \<Longrightarrow> u \<noteq> 0 \<Longrightarrow> no_nul (utf8_enc u)"
proof -
  assume u: "scalar u" "u \<noteq> 0"
  then have "0 \<notin> set (utf8_seq (unat u))"
    by (auto simp: utf8_seq_def word_unat_eq_iff)
  then have "0 \<notin> unat ` set (utf8_enc u)"
    using map_unat_enc [OF u(1)] by (metis list.set_map)
  then show ?thesis by (force simp: no_nul_def)
qed

inductive utf8_text :: "byte list \<Rightarrow> bool" where
  Nil: "utf8_text []"
| Char: "scalar u \<Longrightarrow> u \<noteq> 0 \<Longrightarrow> utf8_text bs \<Longrightarrow> utf8_text (utf8_enc u @ bs)"

lemma utf8_text_no_nul: "utf8_text bs \<Longrightarrow> no_nul bs"
  by (induction rule: utf8_text.induct) (simp_all add: utf8_enc_nul)

lemma utf8_validate_text: "utf8_text bs \<Longrightarrow> utf8_validate (bs @ 0 # t) = Inr True"
proof (induction rule: utf8_text.induct)
  case Nil show ?case by (simp add: utf8_validate.simps)
next
  case (Char u bs)
  obtain c cs where c: "utf8_enc u = c # cs" "c \<noteq> 0" 
    using utf8_enc_length[of u] utf8_enc_nul[OF Char(1,2)] by (cases "utf8_enc u") auto
  have "utf8_validate_cz (utf8_enc u @ bs @ 0 # t) = Inr (length (utf8_enc u))" using Char.hyps by (simp add: utf8_enc_valid)
  then show ?case using c Char.IH by (subst utf8_validate.simps) simp
qed

lemma utf8_validate_sound: "utf8_validate s = Inr True \<Longrightarrow> utf8_text (cstring s)"
proof (induction s rule: utf8_validate.induct)
  case (1 s)
  from "1.prems" obtain c s' where s: "s = c # s'" by (cases s) (auto simp: utf8_validate.simps)
  show ?case
  proof (cases "c = 0")
    case True then show ?thesis by (simp add: s cstring_def utf8_text.Nil)
  next
    case False
    with "1.prems" obtain k where k: "utf8_validate_cz s = Inr k" "k \<noteq> 0" "utf8_validate (drop k s) = Inr True"
      by (subst (asm) utf8_validate.simps) (auto simp: s c_iff split: if_splits)
    from k(1,2) obtain u t where u: "scalar u" "s = utf8_enc u @ t" "k = length (utf8_enc u)" by (rule utf8_validE)
    have "utf8_text (cstring t)" using "1.IH"[OF s False k(1)] k u by simp
    moreover have "u \<noteq> 0" using u(2) s False by (auto simp: utf8_enc_def utf8_seq_def)
    moreover have "cstring s = utf8_enc u @ cstring t"
      using utf8_enc_nul[OF u(1) \<open>u \<noteq> 0\<close>] by (auto simp: u(2) cstring_def no_nul_def takeWhile_append)
    ultimately show ?thesis using u(1) by (simp add: utf8_text.Char)
  qed
qed

lemma utf8_validate_returns: "nulterm s \<Longrightarrow> returns (utf8_validate s)"
proof (induction s rule: utf8_validate.induct)
  case (1 s)
  then obtain c s' where s: "s = c # s'" by (cases s) auto
  show ?case
  proof (cases "c = 0")
    case True then show ?thesis by (subst utf8_validate.simps) (simp add: s)
  next
    case False
    obtain k where k: "utf8_validate_cz s = Inr k" using utf8_validate_cz_returns[OF "1.prems"] by (auto simp: returns_def)
    show ?thesis
    proof (cases "k = 0")
      case True then show ?thesis using k False by (subst utf8_validate.simps) (simp add: s)
    next
      case k0: False
      from k k0 obtain u t where u: "scalar u" "s = utf8_enc u @ t" "k = length (utf8_enc u)" by (rule utf8_validE)
      have "u \<noteq> 0" using u(2) s False by (auto simp: utf8_enc_def utf8_seq_def)
      then have "nulterm (drop k s)" using "1.prems" utf8_enc_nul[OF u(1)] u by (auto simp: nulterm_def no_nul_def)
      then have "returns (utf8_validate (drop k s))" using "1.IH"[OF s False k k0] by simp
      then show ?thesis using k k0 False s by (subst utf8_validate.simps) simp
    qed
  qed
qed

lemma surrogate_round:
  assumes "to_surrogate_pair u = Inr (uc, lc)" shows "from_surrogate_pair uc lc = Some u"
proof -
  define n where "n = u - 0x10000"
  have u: "0x10000 \<le> u" "u \<le> 0x10FFFF" using assms by (auto simp: to_surrogate_pair_def c_iff)
  then have n: "unat n = unat u - 0x10000" "unat n < 0x100000"
    by (simp_all add: n_def unat_sub word_le_nat_alt)
  have e: "uc = ucast ((drop_bit 10 n AND 0x3FF) OR 0xD800)" "lc = ucast ((n AND 0x3FF) OR 0xDC00)"
    using assms u by (auto simp: to_surrogate_pair_def c_iff Let_def n_def)
  have "unat ((drop_bit 10 n AND 0x3FF) OR 0xD800) = unat n div 1024 + 0xD800"
    using unat_or_disjoint [of "0xD800" 10 "drop_bit 10 n AND 0x3FF"] n(2)
    by (simp add: word_arith or.commute)
  then have uc: "unat uc = 0xD800 + unat n div 1024"
    using n(2) by (simp add: e word_arith)
  have "unat ((n AND 0x3FF) OR 0xDC00) = unat n mod 1024 + 0xDC00"
    using unat_or_disjoint [of "0xDC00" 10 "n AND 0x3FF"] 
    by (simp add: word_arith or.commute)
  then have lc: "unat lc = 0xDC00 + unat n mod 1024"
    by (simp add: e word_arith)
  define a b where "a = unat n div 1024" and "b = unat n mod 1024"
  have ab: "a < 1024" "b < 1024" "unat n = a * 1024 + b"
    using n(2) by (auto simp: a_def b_def)
  note uc = uc [folded a_def] and lc = lc [folded b_def]
  have m: "(0xD800 + a) mod 1024 = a" "(0xDC00 + b) mod 1024 = b"
    using ab(1,2) mod_mult_self4 [of 1024 54 a] mod_mult_self4 [of 1024 55 b] by simp_all
  have "unat (ucast uc :: uchar) = 0xD800 + a"
    using ab(1) by (simp only: unat_ucast_mod uc) simp
  then have u: "unat (ucast uc AND 0x3FF :: uchar) = a" by (simp only: and_1023 m)
  have "unat (lc AND 0x3FF) = b" by (simp only: and_1023 lc m)
  then have q: "unat (ucast (lc AND 0x3FF) :: uchar) = b"
    using ab(2) by (simp only: unat_ucast_mod) simp
  have p: "unat (push_bit 10 (ucast uc AND 0x3FF) :: uchar) = a * 1024"
    using ab(1) by (subst unat_push_bit) (simp_all add: u del: push_bit_and)
  have "unat (push_bit 10 (ucast uc AND 0x3FF) OR ucast (lc AND 0x3FF) :: uchar) = unat n"
    using ab by (subst unat_or_disjoint [where k = 10]) (simp_all add: p q del: push_bit_and)
  then have "push_bit 10 (ucast uc AND 0x3FF) OR ucast (lc AND 0x3FF) = n"
    by (simp only: word_unat_eq_iff)
  moreover have "0xD800 \<le> uc" "uc \<le> 0xDBFF" "0xDC00 \<le> lc" "lc \<le> 0xDFFF"
    using ab by (simp_all add: word_le_nat_alt uc lc)
  ultimately show ?thesis by (simp add: from_surrogate_pair_def n_def del: push_bit_and)
qed

lemma hex_value_digit: "k < 16 \<Longrightarrow> hex_value (hex_digits ! k) = Some (of_nat k)"
proof -
  have "list_all (\<lambda>k. hex_value (hex_digits ! k) = Some (of_nat k)) [0..<16]" by code_simp
  then show "k < 16 \<Longrightarrow> hex_value (hex_digits ! k) = Some (of_nat k)" by (simp add: list_all_iff)
qed

lemma hex_round: "parse_hex16 (write_hex16 v @ t) = Accept v t"
proof -
  let ?n = "unat v"
  have four: "4 = Suc (Suc (Suc (Suc 0)))" by simp
  have top: "?n div 4096 < 16" using u16_less [of v] by linarith
  have "((?n div 4096 * 16 + ?n div 256 mod 16) * 16 + ?n div 16 mod 16) * 16 + ?n mod 16 = ?n"
    and "?n div 4096 mod 16 = ?n div 4096"
    using div_mult_mod_eq [of ?n 16] div_mult_mod_eq [of "?n div 16" 16]
      div_mult_mod_eq [of "?n div 256" 16]
    by (simp_all add: div_mult2_eq [symmetric] mod_less [OF top])
  then have "v = of_nat (((?n div 4096 mod 16 * 16 + ?n div 256 mod 16) * 16 + ?n div 16 mod 16) * 16 + ?n mod 16)"
    by (metis of_nat_unat ucast_id)
  also have "\<dots> = (push_bit 4 (push_bit 4 (push_bit 4 (push_bit 4 0 + of_nat (?n div 4096 mod 16)) 
     + of_nat (?n div 256 mod 16)) + of_nat (?n div 16 mod 16)) + of_nat (?n mod 16) :: u16)"
    by (simp only: push_bit_eq_mult of_nat_add of_nat_mult) simp
  finally have v: "push_bit 4 (push_bit 4 (push_bit 4 (push_bit 4 0 + of_nat (?n div 4096 mod 16)) 
     + of_nat (?n div 256 mod 16)) + of_nat (?n div 16 mod 16)) + of_nat (?n mod 16) = v" by simp
  show ?thesis
    unfolding parse_hex16_def four
    by (simp add: write_hex16_def hex_value_digit word_arith del: push_bit_of_0) (rule v)
qed

section \<open>What the callers rely on\<close>

text \<open>\<open>utf8_write_char\<close> of a scalar value writes one to four bytes which, whatever follows
  them, \<open>utf8_validate_cz\<close> accepts as one character of that length and \<open>utf8_read_char\<close> reads
  back as the same scalar value.\<close>

theorem utf8_char_roundtrip:
  assumes "scalar u"
  shows "\<exists>bs. utf8_write_char u = Inr bs \<and> length bs \<in> {1..4}
    \<and> utf8_validate_cz (bs @ t) = Inr (length bs) \<and> utf8_read_char (bs @ t) = Inr (length bs, u)"
  using assms utf8_enc_length [of u]
  by (simp add: utf8_write_char_eq utf8_enc_valid utf8_enc_read)

theorem utf8_char_roundtrip_witness:
  "\<exists>bs. utf8_write_char 0x20AC = Inr bs \<and> length bs \<in> {1..4}
    \<and> utf8_validate_cz (bs @ [0x22]) = Inr (length bs) \<and> utf8_read_char (bs @ [0x22]) = Inr (length bs, 0x20AC)"
  by (rule utf8_char_roundtrip) (simp add: scalar_def)

lemma utf8_validate_cstring:
  assumes "nulterm s"
  shows "utf8_validate s = Inr (utf8_text (cstring s))"
proof -
  obtain b where b: "utf8_validate s = Inr b" using utf8_validate_returns [OF assms] by (rule returnsE)
  obtain t where t: "s = cstring s @ 0 # t" using nulterm_split [OF assms] ..
  have "b \<longleftrightarrow> utf8_text (cstring s)"
  proof
    assume b
    with b show "utf8_text (cstring s)" by (intro utf8_validate_sound) simp
  next
    assume "utf8_text (cstring s)"
    then have "utf8_validate (cstring s @ 0 # t) = Inr True" by (rule utf8_validate_text)
    with b t show b by simp
  qed
  with b show ?thesis by simp
qed

text \<open>C34: \<open>utf8_validate\<close> returns on every C string, without reading behind its zero, and says
  exactly whether the string is a sequence of encoded scalar values.\<close>

theorem utf8_validate_exact:
  assumes "nulterm s"
  shows "utf8_validate s = Inr (utf8_text (cstring s))"
  using assms by (rule utf8_validate_cstring)

theorem utf8_validate_exact_witness:
  "utf8_validate [0xC3, 0xBC, 0x66, 0xFF, 0, 0xFF] = Inr (utf8_text (cstring [0xC3, 0xBC, 0x66, 0xFF, 0, 0xFF]))
   \<and> \<not> utf8_text [0xC3, 0xBC, 0x66, 0xFF]"
proof
  show *: "utf8_validate [0xC3, 0xBC, 0x66, 0xFF, 0, 0xFF]
      = Inr (utf8_text (cstring [0xC3, 0xBC, 0x66, 0xFF, 0, 0xFF]))"
    by (rule utf8_validate_exact) simp
  have "utf8_validate [0xC3, 0xBC, 0x66, 0xFF, 0, 0xFF] = Inr False" by code_simp
  with * show "\<not> utf8_text [0xC3, 0xBC, 0x66, 0xFF]" by (simp add: cstring_def)
qed

text \<open>Escapes invert: \<open>parse_hex16\<close> reads the four digits of \<open>write_hex16\<close> back, and
  \<open>from_surrogate_pair\<close> recovers every supplementary character from the pair that
  \<open>to_surrogate_pair\<close> makes of it.\<close>

theorem unicode_escape_roundtrip:
  "parse_hex16 (write_hex16 v @ t) = Accept v t \<and>
   (case to_surrogate_pair u of
      Inl e \<Rightarrow> e = AssertFail \<and> (u < 0x10000 \<or> 0x10FFFF < u)
    | Inr (uc, lc) \<Rightarrow> from_surrogate_pair uc lc = Some u)"
proof -
  have "from_surrogate_pair uc lc = Some u" if "to_surrogate_pair u = Inr (uc, lc)" for uc lc
    using that by (rule surrogate_round)
  moreover have "e = AssertFail \<and> (u < 0x10000 \<or> 0x10FFFF < u)" if "to_surrogate_pair u = Inl e" for e
    using that by (auto simp: to_surrogate_pair_def Let_def c_iff not_le)
  ultimately show ?thesis by (auto simp: hex_round split: sum.split)
qed

end
