(* ===== verification/String_Buffers.thy ===== *)
theory String_Buffers
  imports Prelude "HOL-Library.While_Combinator"
begin

text \<open>
  The two growing byte buffers of the program: \<open>SB\<close> of json.c and \<open>UT_string\<close> of utstring.h.
  Both keep an allocation, a length and a place for the terminating zero; the code writes
  through raw pointers after a call that reserves room. The model keeps the bytes written and
  the size of the allocation, and makes a write beyond the allocation a fault. Both implement
  the interface \<open>byte_buffer\<close>: appending never faults and appends exactly the bytes given.
  Sizes are natural numbers: the buffers stay far below the 31 bits of \<open>int\<close> and the 64 bits
  of \<open>size_t\<close>; \<open>malloc\<close> and \<open>realloc\<close> succeed (the code exits when they do not).
\<close>

section \<open>The interface\<close>

locale byte_buffer =
  fixes inv :: "'b \<Rightarrow> bool"
    and contents :: "'b \<Rightarrow> byte list"
    and append :: "'b \<Rightarrow> byte list \<Rightarrow> 'b cres"
  assumes append_ok:
    "inv b \<Longrightarrow> \<exists>b'. append b bs = Inr b' \<and> inv b' \<and> contents b' = contents b @ bs"

text \<open>A loop that appends one chunk after the other.\<close>

fun append_each :: "('b \<Rightarrow> byte list \<Rightarrow> 'b cres) \<Rightarrow> 'b \<Rightarrow> byte list list \<Rightarrow> 'b cres" where
  "append_each app b [] = Inr b"
| "append_each app b (c # cs) = c_bind (app b c) (\<lambda>b. append_each app b cs)"

context byte_buffer
begin

lemma appendE:
  assumes "inv b"
  obtains b' where "append b bs = Inr b'" and "inv b'" and "contents b' = contents b @ bs"
  using append_ok [OF assms] by blast

lemma append_each_ok:
  "inv b \<Longrightarrow> \<exists>b'. append_each append b cs = Inr b' \<and> inv b' \<and> contents b' = contents b @ concat cs"
proof (induction cs arbitrary: b)
  case Nil
  then show ?case by simp
next
  case (Cons c cs)
  from Cons.prems obtain b1
    where b1: "append b c = Inr b1" "inv b1" "contents b1 = contents b @ c" by (rule appendE)
  from Cons.IH [OF b1(2)] b1 show ?case by simp
qed

lemma append_each_replicate:
  "inv b \<Longrightarrow> \<exists>b'. append_each append b (replicate k c) = Inr b' \<and> inv b'
    \<and> contents b' = contents b @ concat (replicate k c)"
  by (rule append_each_ok)

end

section \<open>SB of json.c\<close>

text \<open>
  \<open>sb_data\<close> holds the bytes between \<open>start\<close> and \<open>cur\<close>, \<open>sb_size\<close> is \<open>end - start\<close>;
  one more byte is allocated for the terminating zero.
\<close>

record SB =
  sb_data :: "byte list"
  sb_size :: nat

definition sb_init :: SB where
  "sb_init = \<lparr>sb_data = [], sb_size = 16\<rparr>"

text \<open>The \<open>do \<dots> while\<close> loop of \<open>sb_grow\<close>; a loop that does not end is a fault.\<close>

definition grow_alloc :: "nat \<Rightarrow> nat \<Rightarrow> nat option" where
  "grow_alloc alloc target = while_option (\<lambda>a. a < target) (\<lambda>a. a * 2) (alloc * 2)"

definition sb_grow :: "SB \<Rightarrow> nat \<Rightarrow> SB cres" where
  "sb_grow sb need =
     (case grow_alloc (sb_size sb) (length (sb_data sb) + need) of
        None \<Rightarrow> Inl NoReturn
      | Some alloc \<Rightarrow> Inr (sb\<lparr>sb_size := alloc\<rparr>))"

definition sb_need :: "SB \<Rightarrow> nat \<Rightarrow> SB cres" where
  "sb_need sb need =
     (if int (sb_size sb) - int (length (sb_data sb)) < int need then sb_grow sb need else Inr sb)"

text \<open>Writing bytes from \<open>cur\<close> on and moving \<open>cur\<close> behind them.\<close>

definition sb_write :: "SB \<Rightarrow> byte list \<Rightarrow> SB cres" where
  "sb_write sb bs =
     (if length (sb_data sb) + length bs \<le> sb_size sb
      then Inr (sb\<lparr>sb_data := sb_data sb @ bs\<rparr>) else Inl OutOfBounds)"

definition sb_put :: "SB \<Rightarrow> byte list \<Rightarrow> SB cres" where
  "sb_put sb bytes = c_bind (sb_need sb (length bytes)) (\<lambda>sb. sb_write sb bytes)"

definition sb_putc :: "SB \<Rightarrow> byte \<Rightarrow> SB cres" where
  "sb_putc sb c =
     c_bind (if length (sb_data sb) \<ge> sb_size sb then sb_grow sb 1 else Inr sb)
       (\<lambda>sb. sb_write sb [c])"

definition sb_puts :: "SB \<Rightarrow> byte list \<Rightarrow> SB cres" where
  "sb_puts sb str = sb_put sb str"

definition sb_finish :: "SB \<Rightarrow> byte list cres" where
  "sb_finish sb =
     (if length (sb_data sb) < sb_size sb + 1
      then c_assert (length (cstring (sb_data sb @ [0])) = length (sb_data sb)) (Inr (sb_data sb))
      else Inl OutOfBounds)"

definition sb_inv :: "SB \<Rightarrow> bool" where
  "sb_inv sb \<longleftrightarrow> 0 < sb_size sb \<and> length (sb_data sb) \<le> sb_size sb"

definition sb_room :: "SB \<Rightarrow> nat" where
  "sb_room sb = sb_size sb - length (sb_data sb)"

lemma sb_init_inv [simp]: "sb_inv sb_init" and sb_init_data [simp]: "sb_data sb_init = []"
  by (simp_all add: sb_init_def sb_inv_def)

lemma grow_alloc_Some:
  assumes "0 < alloc"
  obtains a where "grow_alloc alloc target = Some a" and "target \<le> a" and "alloc < a"
proof -
  have "\<exists>a. while_option (\<lambda>a. a < target) (\<lambda>a. a * 2) (alloc * 2) = Some a"
    using assms
    by (intro measure_while_option_Some [where P = "\<lambda>a. 0 < a" and f = "\<lambda>a. target - a"]) auto
  then have "\<exists>a. grow_alloc alloc target = Some a" by (simp only: grow_alloc_def)
  then obtain a where a: "grow_alloc alloc target = Some a" ..
  moreover from a have "target \<le> a"
    unfolding grow_alloc_def by (auto dest: while_option_stop)
  moreover from a have "alloc < a"
    unfolding grow_alloc_def
    by (rule while_option_rule [rotated]) (use assms in auto)
  ultimately show ?thesis by (rule that)
qed

lemma sb_growE:
  assumes "sb_inv sb"
  obtains sb' where "sb_grow sb need = Inr sb'" and "sb_inv sb'" and "sb_data sb' = sb_data sb"
    and "need \<le> sb_room sb'"
proof -
  from assms have "0 < sb_size sb" by (simp add: sb_inv_def)
  then obtain a where "grow_alloc (sb_size sb) (length (sb_data sb) + need) = Some a"
    and "length (sb_data sb) + need \<le> a" and "sb_size sb < a"
    by (rule grow_alloc_Some)
  then show ?thesis
    using assms by (intro that [of "sb\<lparr>sb_size := a\<rparr>"]) (auto simp: sb_grow_def sb_inv_def sb_room_def)
qed

lemma sb_needE:
  assumes "sb_inv sb"
  obtains sb' where "sb_need sb need = Inr sb'" and "sb_inv sb'" and "sb_data sb' = sb_data sb"
    and "need \<le> sb_room sb'"
proof (cases "int (sb_size sb) - int (length (sb_data sb)) < int need")
  case True
  then show ?thesis using that sb_growE [OF assms, of need] by (auto simp: sb_need_def)
next
  case False
  then show ?thesis using that [of sb] assms by (auto simp: sb_need_def sb_room_def sb_inv_def)
qed

lemma sb_writeE:
  assumes "sb_inv sb" and "length bs \<le> sb_room sb"
  obtains sb' where "sb_write sb bs = Inr sb'" and "sb_inv sb'" and "sb_data sb' = sb_data sb @ bs"
    and "sb_room sb' = sb_room sb - length bs"
proof -
  have le: "length (sb_data sb) + length bs \<le> sb_size sb" and "0 < sb_size sb"
    using assms unfolding sb_inv_def sb_room_def by linarith+
  then show ?thesis
    by (intro that [of "sb\<lparr>sb_data := sb_data sb @ bs\<rparr>"])
      (simp_all add: sb_write_def sb_inv_def sb_room_def)
qed

interpretation sb: byte_buffer sb_inv sb_data sb_put
proof
  fix b and bs :: "byte list"
  assume "sb_inv b"
  then obtain b1 where b1: "sb_need b (length bs) = Inr b1" "sb_inv b1" "sb_data b1 = sb_data b"
    "length bs \<le> sb_room b1" by (rule sb_needE)
  from b1(2,4) obtain b2 where "sb_write b1 bs = Inr b2" "sb_inv b2" "sb_data b2 = sb_data b1 @ bs"
    by (rule sb_writeE)
  with b1 show "\<exists>b'. sb_put b bs = Inr b' \<and> sb_inv b' \<and> sb_data b' = sb_data b @ bs"
    by (simp add: sb_put_def)
qed

lemma sb_putcE:
  assumes "sb_inv sb"
  obtains sb' where "sb_putc sb c = Inr sb'" and "sb_inv sb'" and "sb_data sb' = sb_data sb @ [c]"
proof -
  let ?grown = "if length (sb_data sb) \<ge> sb_size sb then sb_grow sb 1 else Inr sb"
  obtain b1 where b1: "?grown = Inr b1" "sb_inv b1" "sb_data b1 = sb_data sb" "1 \<le> sb_room b1"
  proof (cases "length (sb_data sb) \<ge> sb_size sb")
    case True
    obtain b1 where "sb_grow sb 1 = Inr b1" "sb_inv b1" "sb_data b1 = sb_data sb" "1 \<le> sb_room b1"
      using assms by (rule sb_growE)
    with True show ?thesis using that by simp
  next
    case False
    with assms show ?thesis using that [of sb] by (simp add: sb_room_def)
  qed
  have "length [c] \<le> sb_room b1" using b1(4) by simp
  with b1(2) obtain b2 where "sb_write b1 [c] = Inr b2" "sb_inv b2" "sb_data b2 = sb_data b1 @ [c]"
    by (rule sb_writeE)
  with b1 show ?thesis by (intro that [of b2]) (simp_all only: sb_putc_def c_bind_simps)
qed

lemma sb_finish_ok: "sb_inv sb \<Longrightarrow> no_nul (sb_data sb) \<Longrightarrow> sb_finish sb = Inr (sb_data sb)"
  by (simp add: sb_finish_def sb_inv_def)

section \<open>UT_string of utstring.h\<close>

text \<open>
  \<open>ut_d\<close> holds the \<open>i\<close> used bytes of \<open>d\<close>, \<open>ut_n\<close> is the size \<open>n\<close> of the allocation. The
  zero that every operation stores at \<open>d[i]\<close> must lie inside of the allocation.
\<close>

record utstring =
  ut_d :: "byte list"
  ut_n :: nat

definition utstring_reserve :: "utstring \<Rightarrow> nat \<Rightarrow> utstring" where
  "utstring_reserve s amt =
     (if ut_n s - length (ut_d s) < amt then s\<lparr>ut_n := ut_n s + amt\<rparr> else s)"

text \<open>Storing \<open>bs\<close> at \<open>d[i]\<close>, moving \<open>i\<close> behind it and storing the zero.\<close>

definition ut_write :: "utstring \<Rightarrow> byte list \<Rightarrow> utstring cres" where
  "ut_write s bs =
     (if length (ut_d s) + length bs < ut_n s then Inr (s\<lparr>ut_d := ut_d s @ bs\<rparr>)
      else Inl OutOfBounds)"

definition utstring_init :: "utstring cres" where
  "utstring_init = ut_write (utstring_reserve \<lparr>ut_d = [], ut_n = 0\<rparr> 100) []"

definition utstring_clear :: "utstring \<Rightarrow> utstring cres" where
  "utstring_clear s = ut_write (s\<lparr>ut_d := []\<rparr>) []"

text \<open>A null pointer is \<open>None\<close>.\<close>

definition utstring_renew :: "utstring option \<Rightarrow> utstring cres" where
  "utstring_renew s = (case s of Some s \<Rightarrow> utstring_clear s | None \<Rightarrow> utstring_init)"

definition utstring_bincpy :: "utstring \<Rightarrow> byte list \<Rightarrow> utstring cres" where
  "utstring_bincpy s b = ut_write (utstring_reserve s (length b + 1)) b"

definition utstring_concat :: "utstring \<Rightarrow> utstring \<Rightarrow> utstring cres" where
  "utstring_concat dst src = ut_write (utstring_reserve dst (length (ut_d src) + 1)) (ut_d src)"

text \<open>
  The argument is the text that the format and its arguments expand to; \<open>vsnprintf\<close> returns
  its length and has stored it when the room \<open>n - i\<close> is larger. The loop goes round until it
  is.
\<close>

function utstring_printf :: "utstring \<Rightarrow> byte list \<Rightarrow> utstring cres" where
  "utstring_printf s text =
     (let n = length text
      in if n < ut_n s - length (ut_d s) then ut_write s text
         else utstring_printf (utstring_reserve s (n + 1)) text)"
  by pat_completeness auto
termination
  by (relation "measure (\<lambda>(s, text). length (ut_d s) + length text + 1 - ut_n s)")
    (auto simp: utstring_reserve_def)

declare utstring_printf.simps [simp del]

definition utstring_len :: "utstring \<Rightarrow> 32 word" where
  "utstring_len s = of_nat (length (ut_d s))"

text \<open>The memory that \<open>utstring_body\<close> points to, up to the zero at \<open>d[i]\<close>.\<close>

definition utstring_body :: "utstring \<Rightarrow> byte list" where
  "utstring_body s = ut_d s @ [0]"

definition ut_inv :: "utstring \<Rightarrow> bool" where
  "ut_inv s \<longleftrightarrow> length (ut_d s) < ut_n s"

lemma utstring_reserve_d [simp]: "ut_d (utstring_reserve s amt) = ut_d s"
  by (simp add: utstring_reserve_def)

lemma utstring_reserve_room: "amt \<le> ut_n (utstring_reserve s amt) - length (ut_d s) \<or> \<not> ut_inv s"
  by (auto simp: utstring_reserve_def ut_inv_def)

lemma utstring_reserve_inv: "ut_inv s \<Longrightarrow> ut_inv (utstring_reserve s amt)"
  by (auto simp: utstring_reserve_def ut_inv_def)

lemma ut_writeE:
  assumes "length (ut_d s) + length bs < ut_n s"
  obtains s' where "ut_write s bs = Inr s'" and "ut_inv s'" and "ut_d s' = ut_d s @ bs"
  using assms by (intro that [of "s\<lparr>ut_d := ut_d s @ bs\<rparr>"]) (simp_all add: ut_write_def ut_inv_def)

interpretation ut_bin: byte_buffer ut_inv ut_d utstring_bincpy
proof
  fix s and bs :: "byte list"
  assume "ut_inv s"
  then have "length (ut_d (utstring_reserve s (length bs + 1))) + length bs
      < ut_n (utstring_reserve s (length bs + 1))"
    by (auto simp: utstring_reserve_def ut_inv_def)
  then obtain s' where "ut_write (utstring_reserve s (length bs + 1)) bs = Inr s'" "ut_inv s'"
    "ut_d s' = ut_d s @ bs" by (rule ut_writeE) simp
  then show "\<exists>s'. utstring_bincpy s bs = Inr s' \<and> ut_inv s' \<and> ut_d s' = ut_d s @ bs"
    by (simp add: utstring_bincpy_def)
qed

interpretation ut: byte_buffer ut_inv ut_d utstring_printf
proof
  fix s and bs :: "byte list"
  assume "ut_inv s"
  then show "\<exists>s'. utstring_printf s bs = Inr s' \<and> ut_inv s' \<and> ut_d s' = ut_d s @ bs"
  proof (induction s bs rule: utstring_printf.induct)
    case (1 s bs)
    show ?case
    proof (cases "length bs < ut_n s - length (ut_d s)")
      case True
      then have "length (ut_d s) + length bs < ut_n s" by simp
      then obtain s' where "ut_write s bs = Inr s'" "ut_inv s'" "ut_d s' = ut_d s @ bs"
        by (rule ut_writeE)
      with True show ?thesis by (subst utstring_printf.simps) simp
    next
      case False
      then show ?thesis
        using "1.IH" [OF refl False utstring_reserve_inv [OF "1.prems"]]
        by (subst utstring_printf.simps) simp
    qed
  qed
qed

lemma utstring_init_ok: "\<exists>s. utstring_init = Inr s \<and> ut_inv s \<and> ut_d s = []"
  by (simp add: utstring_init_def ut_write_def utstring_reserve_def ut_inv_def)

lemma utstring_clear_ok: "ut_inv s \<Longrightarrow> \<exists>s'. utstring_clear s = Inr s' \<and> ut_inv s' \<and> ut_d s' = []"
  by (simp add: utstring_clear_def ut_write_def ut_inv_def)

lemma utstring_renew_ok:
  "(\<forall>s0. s = Some s0 \<longrightarrow> ut_inv s0) \<Longrightarrow> \<exists>s'. utstring_renew s = Inr s' \<and> ut_inv s' \<and> ut_d s' = []"
  by (cases s) (simp_all add: utstring_renew_def utstring_init_ok utstring_clear_ok)

section \<open>What the callers rely on\<close>

text \<open>Every sequence of writes to a fresh SB returns, whatever sizes make it grow, and
  \<open>sb_finish\<close> then gives the concatenation of all that was written.\<close>

theorem sb_collects:
  assumes "\<forall>c \<in> set cs. no_nul c"
  shows "c_bind (append_each sb_put sb_init cs) sb_finish = Inr (concat cs)"
proof -
  obtain sb' where "append_each sb_put sb_init cs = Inr sb'" "sb_inv sb'" "sb_data sb' = concat cs"
    using sb.append_each_ok [OF sb_init_inv, of cs] by auto
  moreover have "no_nul (concat cs)" using assms by (auto simp: no_nul_def)
  ultimately show ?thesis by (simp add: sb_finish_ok)
qed

theorem sb_collects_witness:
  "c_bind (append_each sb_put sb_init [replicate 20 0x61, [0x62]]) sb_finish
     = Inr (replicate 20 0x61 @ [0x62])"
  using sb_collects [of "[replicate 20 0x61, [0x62]]"] by (simp add: no_nul_def)

text \<open>\<open>utstring_renew\<close> followed by any sequence of \<open>utstring_printf\<close> leaves in the buffer
  the concatenation of what was printed, for a null pointer and for any buffer in use.\<close>

theorem utstring_collects:
  assumes "\<forall>s0. s = Some s0 \<longrightarrow> ut_inv s0"
  shows "\<exists>s'. c_bind (utstring_renew s) (\<lambda>s. append_each utstring_printf s cs) = Inr s'
    \<and> utstring_body s' = concat cs @ [0]"
proof -
  obtain s1 where s1: "utstring_renew s = Inr s1" "ut_inv s1" "ut_d s1 = []"
    using utstring_renew_ok [OF assms] by blast
  from ut.append_each_ok [OF s1(2), of cs] s1(1,3) show ?thesis by (auto simp: utstring_body_def)
qed

theorem utstring_collects_witness:
  "\<exists>s'. c_bind (utstring_renew None) (\<lambda>s. append_each utstring_printf s [ascii ''key'', ascii ''s''])
     = Inr s' \<and> utstring_body s' = concat [ascii ''key'', ascii ''s''] @ [0]"
  by (rule utstring_collects) simp

end
