(* ===== verification/C_Format.thy ===== *)
theory C_Format
  imports C_Double
begin

text \<open>
  The conversions of the C library between numbers and text that the program calls, in the C
  locale: \<open>strtod\<close> and \<open>atof\<close>, and the formats \<open>%.16g\<close>, \<open>%lf\<close> and \<open>%d\<close> of \<open>printf\<close>.
  Both directions round once, to nearest with ties to even. At the end, how far \<open>fgets\<close> reads.
\<close>

section \<open>Characters\<close>

definition is_digit :: "byte \<Rightarrow> bool" where
  "is_digit c \<longleftrightarrow> c \<ge> 0x30 \<and> c \<le> 0x39"

definition digit_val :: "byte \<Rightarrow> nat" where
  "digit_val c = unat (c - 0x30)"

definition digit :: "nat \<Rightarrow> byte" where
  "digit d = 0x30 + of_nat d"

text \<open>The value of a hexadecimal digit.\<close>

definition xdigit_val :: "byte \<Rightarrow> nat option" where
  "xdigit_val c =
     (if is_digit c then Some (digit_val c)
      else if c \<ge> 0x41 \<and> c \<le> 0x46 then Some (unat (c - 0x41) + 10)
      else if c \<ge> 0x61 \<and> c \<le> 0x66 then Some (unat (c - 0x61) + 10)
      else None)"

definition is_xdigit :: "byte \<Rightarrow> bool" where
  "is_xdigit c \<longleftrightarrow> xdigit_val c \<noteq> None"

definition isspace :: "byte \<Rightarrow> bool" where
  "isspace c \<longleftrightarrow> c = 0x20 \<or> (c \<ge> 0x09 \<and> c \<le> 0x0D)"

definition tolower :: "byte \<Rightarrow> byte" where
  "tolower c = (if c \<ge> 0x41 \<and> c \<le> 0x5A then c + 0x20 else c)"

definition toupper :: "byte \<Rightarrow> byte" where
  "toupper c = (if c \<ge> 0x61 \<and> c \<le> 0x7A then c - 0x20 else c)"

definition islower :: "byte \<Rightarrow> bool" where
  "islower c \<longleftrightarrow> c \<ge> 0x61 \<and> c \<le> 0x7A"

section \<open>Digits\<close>

definition nat_of_digits :: "byte list \<Rightarrow> nat" where
  "nat_of_digits ds = foldl (\<lambda>n c. 10 * n + digit_val c) 0 ds"

definition nat_of_xdigits :: "byte list \<Rightarrow> nat" where
  "nat_of_xdigits ds = foldl (\<lambda>n c. 16 * n + the (xdigit_val c)) 0 ds"

text \<open>The decimal digits of a number, and its last \<open>k\<close> digits.\<close>

fun dec_digits :: "nat \<Rightarrow> byte list" where
  "dec_digits n = (if n < 10 then [digit n] else dec_digits (n div 10) @ [digit (n mod 10)])"

fun dec_pad :: "nat \<Rightarrow> nat \<Rightarrow> byte list" where
  "dec_pad 0 n = []"
| "dec_pad (Suc k) n = dec_pad k (n div 10) @ [digit (n mod 10)]"

declare dec_digits.simps [simp del]

section \<open>From text to double\<close>

text \<open>A sign, an optional one, and what follows it.\<close>

definition read_sign :: "byte list \<Rightarrow> bool \<times> byte list" where
  "read_sign s = (case s of [] \<Rightarrow> (False, s)
     | c # s' \<Rightarrow> if c = 0x2D then (True, s') else if c = 0x2B then (False, s') else (False, s))"

text \<open>
  The exponent that follows the letter \<open>l\<close>, in lower case; zero when there is none.
\<close>

definition read_exponent :: "byte \<Rightarrow> byte list \<Rightarrow> int" where
  "read_exponent l s = (case s of [] \<Rightarrow> 0
     | c # s' \<Rightarrow>
         if tolower c = l then
           (case read_sign s' of (neg, s2) \<Rightarrow>
              let e = int (nat_of_digits (takeWhile is_digit s2)) in if neg then - e else e)
         else 0)"

text \<open>Digits, a point and digits: what \<open>strtod\<close> reads before the exponent.\<close>

definition read_mantissa :: "(byte \<Rightarrow> bool) \<Rightarrow> byte list \<Rightarrow> byte list \<times> byte list \<times> byte list" where
  "read_mantissa P s =
     (let i = takeWhile P s; r = dropWhile P s
      in case r of [] \<Rightarrow> (i, [], r)
         | c # r' \<Rightarrow> if c = 0x2E then (i, takeWhile P r', dropWhile P r') else (i, [], r))"

definition signed_round :: "bool \<Rightarrow> rat \<Rightarrow> double" where
  "signed_round neg x = (if x = 0 then d_zero neg else round_double (if neg then - x else x))"

definition strtod_dec :: "bool \<Rightarrow> byte list \<Rightarrow> double" where
  "strtod_dec neg s =
     (case read_mantissa is_digit s of (i, f, r) \<Rightarrow>
        if i = [] \<and> f = [] then DFin 0
        else signed_round neg
               (of_nat (nat_of_digits (i @ f)) * pow_int 10 (read_exponent 0x65 r - int (length f))))"

definition strtod_hex :: "bool \<Rightarrow> byte list \<Rightarrow> double" where
  "strtod_hex neg s =
     (case read_mantissa is_xdigit s of (i, f, r) \<Rightarrow>
        if i = [] \<and> f = [] then d_zero neg
        else signed_round neg
               (of_nat (nat_of_xdigits (i @ f)) * pow_int 2 (read_exponent 0x70 r - 4 * int (length f))))"

definition has_prefix :: "string \<Rightarrow> byte list \<Rightarrow> bool" where
  "has_prefix p s \<longleftrightarrow> map tolower (take (length p) s) = ascii p"

definition strtod :: "byte list \<Rightarrow> double" where
  "strtod s =
     (case read_sign (dropWhile isspace s) of (neg, s1) \<Rightarrow>
        if has_prefix ''inf'' s1 then DInf neg
        else if has_prefix ''nan'' s1 then DNaN
        else if has_prefix ''0x'' s1 then strtod_hex neg (drop 2 s1)
        else strtod_dec neg s1)"

definition atof :: "byte list \<Rightarrow> double" where
  "atof s = strtod s"

section \<open>From double to text\<close>

definition strip_zeros :: "byte list \<Rightarrow> byte list" where
  "strip_zeros ds = rev (dropWhile (\<lambda>c. c = 0x30) (rev ds))"

definition with_point :: "byte list \<Rightarrow> byte list \<Rightarrow> byte list" where
  "with_point i f = i @ (if f = [] then [] else 0x2E # f)"

text \<open>The sixteen significant digits of \<open>x\<close> as a number, and the exponent of the first.\<close>

definition significant16 :: "rat \<Rightarrow> nat \<times> int" where
  "significant16 x =
     (let e = ilog 10 x; m = nat (round_even (x / pow_int 10 (e - 15)))
      in if m = 10 ^ 16 then (10 ^ 15, e + 1) else (m, e))"

definition fmt_exponent :: "int \<Rightarrow> byte list" where
  "fmt_exponent e =
     0x65 # (if e < 0 then 0x2D else 0x2B) #
     (if \<bar>e\<bar> < 10 then [0x30] else []) @ dec_digits (nat \<bar>e\<bar>)"

definition fmt_g16_pos :: "rat \<Rightarrow> byte list" where
  "fmt_g16_pos x =
     (case significant16 x of (m, e) \<Rightarrow>
        if 0 \<le> e \<and> e < 16 then
          (let k = nat (15 - e)
           in with_point (dec_digits (m div 10 ^ k)) (strip_zeros (dec_pad k (m mod 10 ^ k))))
        else if - 4 \<le> e \<and> e < 0 then
          with_point [0x30] (replicate (nat (- e - 1)) 0x30 @ strip_zeros (dec_pad 16 m))
        else
          with_point (dec_digits (m div 10 ^ 15)) (strip_zeros (dec_pad 15 (m mod 10 ^ 15)))
            @ fmt_exponent e)"

definition fmt_sign :: "bool \<Rightarrow> byte list" where
  "fmt_sign neg = (if neg then [0x2D] else [])"

definition fmt_g16 :: "double \<Rightarrow> byte list" where
  "fmt_g16 d =
     (case d of DNaN \<Rightarrow> ascii ''nan''
      | DInf n \<Rightarrow> fmt_sign n @ ascii ''inf''
      | DNegZero \<Rightarrow> ascii ''-0''
      | DFin r \<Rightarrow> if r = 0 then ascii ''0'' else fmt_sign (r < 0) @ fmt_g16_pos \<bar>r\<bar>)"

definition fmt_lf :: "double \<Rightarrow> byte list" where
  "fmt_lf d =
     (case d of DNaN \<Rightarrow> ascii ''nan''
      | DInf n \<Rightarrow> fmt_sign n @ ascii ''inf''
      | _ \<Rightarrow>
          (let x = \<bar>the (finite_value d)\<bar>; m = nat (round_even (x * 10 ^ 6))
           in fmt_sign (sign_bit d) @ dec_digits (m div 10 ^ 6) @ [0x2E] @ dec_pad 6 (m mod 10 ^ 6)))"

definition fmt_d :: "int \<Rightarrow> byte list" where
  "fmt_d i = fmt_sign (i < 0) @ dec_digits (nat \<bar>i\<bar>)"

section \<open>Lemmas on digits\<close>

lemma is_digit_digit [simp]: "d < 10 \<Longrightarrow> is_digit (digit d)"
  and digit_val_digit [simp]: "d < 10 \<Longrightarrow> digit_val (digit d) = d"
  and digit_eq_0 [simp]: "d < 10 \<Longrightarrow> digit d = 0x30 \<longleftrightarrow> d = 0"
proof -
  have "list_all (\<lambda>d. is_digit (digit d) \<and> digit_val (digit d) = d \<and> (digit d = 0x30 \<longleftrightarrow> d = 0)) [0..<10]"
    by code_simp
  then show "d < 10 \<Longrightarrow> is_digit (digit d)" "d < 10 \<Longrightarrow> digit_val (digit d) = d"
    "d < 10 \<Longrightarrow> digit d = 0x30 \<longleftrightarrow> d = 0"
    by (simp_all add: list_all_iff)
qed

lemma nat_of_digits_Nil [simp]: "nat_of_digits [] = 0"
  by (simp add: nat_of_digits_def)

lemma nat_of_digits_snoc [simp]: "nat_of_digits (ds @ [c]) = 10 * nat_of_digits ds + digit_val c"
  by (simp add: nat_of_digits_def)

lemma nat_of_digits_append: "nat_of_digits (as @ bs) = nat_of_digits as * 10 ^ length bs + nat_of_digits bs"
  by (induction bs rule: rev_induct) (simp_all flip: append_assoc add: algebra_simps)

lemma nat_of_dec_digits [simp]: "nat_of_digits (dec_digits n) = n"
proof (induction n rule: dec_digits.induct)
  case (1 n)
  then show ?case
    using nat_of_digits_snoc [of "[]" "digit n"] by (subst dec_digits.simps) auto
qed

lemma dec_digits_digits: "\<forall>c \<in> set (dec_digits n). is_digit c"
  by (induction n rule: dec_digits.induct) (subst dec_digits.simps, auto)

lemma dec_digits_0 [simp]: "dec_digits 0 = [0x30]"
  by (subst dec_digits.simps) (simp add: digit_def)

lemma dec_digits_not_Nil [simp]: "dec_digits n \<noteq> []"
  by (subst dec_digits.simps) simp

lemma dec_digits_hd: "0 < n \<Longrightarrow> hd (dec_digits n) \<noteq> 0x30"
proof (induction n rule: dec_digits.induct)
  case (1 n)
  then show ?case by (subst dec_digits.simps) (auto simp: hd_append)
qed

lemma dec_digits_length: "n < 10 ^ k \<Longrightarrow> 0 < k \<Longrightarrow> length (dec_digits n) \<le> k"
proof (induction n arbitrary: k rule: dec_digits.induct)
  case (1 n)
  show ?case
  proof (cases "n < 10")
    case False
    then obtain k' where k: "k = Suc k'" "0 < k'" using 1(2,3)
      by (cases k; cases "k - 1") auto
    then have "n div 10 < 10 ^ k'" using 1(2) by (simp add: div_less_iff_less_mult mult.commute)
    with False 1(1) k show ?thesis by (subst dec_digits.simps) simp
  qed (use 1(3) in \<open>subst dec_digits.simps, simp\<close>)
qed

lemma dec_pad_length [simp]: "length (dec_pad k n) = k"
  by (induction k arbitrary: n) simp_all

lemma dec_pad_digits: "\<forall>c \<in> set (dec_pad k n). is_digit c"
  by (induction k arbitrary: n) auto

lemma nat_of_dec_pad [simp]: "nat_of_digits (dec_pad k n) = n mod 10 ^ k"
  by (induction k arbitrary: n) (simp_all add: mod_mult2_eq)

lemma strip_zeros_split: "\<exists>k. ds = strip_zeros ds @ replicate k 0x30"
proof -
  let ?z = "takeWhile (\<lambda>c. c = 0x30) (rev ds)"
  have "rev ds = ?z @ dropWhile (\<lambda>c. c = 0x30) (rev ds)" by simp
  then have "ds = strip_zeros ds @ rev ?z" unfolding strip_zeros_def by (metis rev_append rev_rev_ident)
  moreover have "\<forall>c \<in> set (rev ?z). c = 0x30" by (auto dest: set_takeWhileD)
  then have "rev ?z = replicate (length (rev ?z)) 0x30" by (rule replicate_length_same [symmetric])
  ultimately show ?thesis by metis
qed

lemma strip_zeros_subset: "set (strip_zeros ds) \<subseteq> set ds"
  by (metis Un_upper1 set_append strip_zeros_split)

lemma strip_zeros_length: "length (strip_zeros ds) \<le> length ds"
  by (metis le_add1 length_append strip_zeros_split)

lemma strip_zeros_Nil: "strip_zeros ds = [] \<longleftrightarrow> (\<forall>c \<in> set ds. c = 0x30)"
  by (simp add: strip_zeros_def)

section \<open>Lemmas on the sixteen digits\<close>

lemma ilog_unique:
  assumes "1 < b" and "0 < x" and "pow_int (of_nat b) e \<le> x" and "x < pow_int (of_nat b) (e + 1)"
  shows "ilog b x = e"
proof -
  have b: "1 < (of_nat b :: rat)" using assms(1) by simp
  note i = ilog_bounds [OF assms(1,2)]
  have "pow_int (of_nat b) e < pow_int (of_nat b) (ilog b x + 1)" using assms(3) i(2) by simp
  moreover have "pow_int (of_nat b) (ilog b x) < pow_int (of_nat b) (e + 1)" using assms(4) i(1) by simp
  ultimately show ?thesis by (simp add: pow_int_less_iff [OF b])
qed

lemma significant16_range:
  assumes "0 < x"
  shows "significant16 x = (m, e) \<Longrightarrow> 10 ^ 15 \<le> m \<and> m < 10 ^ 16 \<and> ilog 10 x \<le> e \<and> e \<le> ilog 10 x + 1"
proof -
  let ?e = "ilog 10 x" and ?m = "round_even (x / pow_int 10 (ilog 10 x - 15))"
  have b: "pow_int 10 ?e \<le> x" "x < pow_int 10 (?e + 1)"
    using ilog_bounds [of 10 x] assms by simp_all
  have p: "0 < pow_int 10 (?e - 15)" by simp
  have "pow_int 10 ?e = 10 ^ 15 * pow_int 10 (?e - 15)"
    using pow_int_add [of 10 15 "?e - 15"] pow_int_nat [of 10 15] by simp
  then have lo: "10 ^ 15 \<le> x / pow_int 10 (?e - 15)"
    using b(1) p by (simp add: pos_le_divide_eq)
  have "pow_int 10 (?e + 1) = 10 ^ 16 * pow_int 10 (?e - 15)"
    using pow_int_add [of 10 16 "?e - 15"] pow_int_nat [of 10 16] by (simp add: add.commute)
  then have hi: "x / pow_int 10 (?e - 15) < 10 ^ 16"
    using b(2) p by (simp add: pos_divide_less_eq)
  have m: "10 ^ 15 \<le> ?m" "?m \<le> 10 ^ 16"
    using round_even_bounds [of "x / pow_int 10 (?e - 15)"] lo hi by (simp_all add: le_floor_iff floor_less_iff) linarith+
  assume "significant16 x = (m, e)"
  then show ?thesis using m by (auto simp: significant16_def Let_def split: if_splits)
qed

section \<open>Lines of a file\<close>

text \<open>\<open>fgets\<close>: up to \<open>n - 1\<close> bytes, no further than the first newline.\<close>

definition fgets_len :: "nat \<Rightarrow> byte list \<Rightarrow> nat" where
  "fgets_len n inp =
     min (n - 1) (length (takeWhile (\<lambda>c. c \<noteq> 0x0A) inp) + (if 0x0A \<in> set inp then 1 else 0))"

lemma fgets_len_pos: "inp \<noteq> [] \<Longrightarrow> 2 \<le> n \<Longrightarrow> 0 < fgets_len n inp"
  by (cases inp) (auto simp: fgets_len_def)

lemma takeWhile_upto: "c \<notin> set xs \<Longrightarrow> takeWhile (\<lambda>b. b \<noteq> c) (xs @ c # ys) = xs"
  by (induction xs) auto

lemma takeWhile_line: "\<forall>c \<in> set s. c \<noteq> x \<Longrightarrow> takeWhile (\<lambda>c. c \<noteq> x) (s @ x # r) = s"
  by (induction s) auto

lemma fgets_line:
  "\<forall>c \<in> set s. c \<noteq> 0x0A \<Longrightarrow> length s + 1 < n \<Longrightarrow> fgets_len n (s @ 0x0A # r) = length s + 1"
  by (simp add: fgets_len_def takeWhile_line)

end
