(* ===== verification/Json_Parse.thy ===== *)
theory Json_Parse
  imports Json_Tree Utf8 String_Buffers C_Format
begin

text \<open>
  The parser of json.c. Every function takes the memory behind the cursor and the flag
  \<open>out\<close>, which is false where the code passes a null pointer for the result (validation
  only). The code writes the characters of a string through a raw pointer into the buffer
  (or, when validating, into an array of four bytes); the model checks the room for each write.
  The recursion has no depth limit, as the code's has none; its stack is not modelled.
\<close>

section \<open>Scanning\<close>

definition is_space :: "byte \<Rightarrow> bool" where
  "is_space c \<longleftrightarrow> c = 0x09 \<or> c = 0x0A \<or> c = 0x0D \<or> c = 0x20"

fun skip_space :: "byte list \<Rightarrow> byte list cres" where
  "skip_space [] = Inl OutOfBounds"
| "skip_space (c # s) = (if is_space c then skip_space s else Inr (c # s))"

fun expect_literal :: "byte list \<Rightarrow> byte list \<Rightarrow> unit parse" where
  "expect_literal [] s = Accept () s"
| "expect_literal (b # str) s =
     read1 s (\<lambda>c s. if c \<noteq> b then Reject else expect_literal str s)"

section \<open>Strings\<close>

definition parse_unicode_escape :: "byte list \<Rightarrow> byte list parse" where
  "parse_unicode_escape s = p_bind (parse_hex16 s) (\<lambda>uc s.
     if uc \<ge> 0xD800 \<and> uc \<le> 0xDFFF then
       read1 s (\<lambda>c s. if c \<noteq> 0x5C then Reject else
       read1 s (\<lambda>c s. if c \<noteq> 0x75 then Reject else
       p_bind (parse_hex16 s) (\<lambda>lc s.
         case from_surrogate_pair uc lc of
           None \<Rightarrow> Reject
         | Some unicode \<Rightarrow> c_bind (utf8_write_char unicode) (\<lambda>b. Accept b s))))
     else if uc = 0 then Reject
     else c_bind (utf8_write_char (ucast uc)) (\<lambda>b. Accept b s))"

text \<open>The character after a backslash; the value is what is written to \<open>b\<close>.\<close>

definition parse_escape :: "byte list \<Rightarrow> byte list parse" where
  "parse_escape s = read1 s (\<lambda>c s.
     if c = 0x22 \<or> c = 0x5C \<or> c = 0x2F then Accept [c] s
     else if c = 0x62 then Accept [0x08] s
     else if c = 0x66 then Accept [0x0C] s
     else if c = 0x6E then Accept [0x0A] s
     else if c = 0x72 then Accept [0x0D] s
     else if c = 0x74 then Accept [0x09] s
     else if c = 0x75 then parse_unicode_escape s
     else Reject)"

definition parse_char :: "byte list \<Rightarrow> byte list parse" where
  "parse_char s = read1 s (\<lambda>c s'.
     if c = 0x5C then parse_escape s'
     else if c \<le> 0x1F then Reject
     else c_bind (utf8_validate_cz s) (\<lambda>len.
       if len = 0 then Reject else Accept (take len s) (drop len s)))"

text \<open>
  Where the characters go: the buffer, or the four bytes of \<open>throwaway_buffer\<close>. After the
  write the code reserves room for the next character.
\<close>

definition put_char :: "SB option \<Rightarrow> byte list \<Rightarrow> SB option cres" where
  "put_char b bs =
     (case b of
        None \<Rightarrow> if length bs \<le> 4 then Inr None else Inl OutOfBounds
      | Some sb \<Rightarrow> c_bind (sb_write sb bs) (\<lambda>sb. c_bind (sb_need sb 4) (\<lambda>sb. Inr (Some sb))))"

lemma reads_read1: "c \<noteq> 0 \<Longrightarrow> reads (c # s) s"
  by (simp add: reads_Cons)

lemma hex16_loop_reads: "hex16_loop i ret s = Accept v r \<Longrightarrow> reads s r"
proof (induction i arbitrary: ret s)
  case (Suc i)
  then obtain c s' tmp where s: "s = c # s'" "hex_value c = Some tmp"
    "hex16_loop i (push_bit 4 ret + tmp) s' = Accept v r"
    by (auto simp: c_iff split: option.splits)
  then have "c \<noteq> 0" by (auto simp: hex_value_def)
  then show ?case using s(1) Suc.IH [OF s(3)] by (simp add: reads_Cons)
qed simp

lemma parse_hex16_reads: "parse_hex16 s = Accept v r \<Longrightarrow> reads s r"
  by (auto simp: parse_hex16_def intro: hex16_loop_reads)

lemma parse_unicode_escape_reads: "parse_unicode_escape s = Accept v r \<Longrightarrow> reads s r"
  by (fastforce simp: parse_unicode_escape_def c_iff split: if_splits option.splits
      dest!: parse_hex16_reads intro: reads_trans reads_Cons)

lemma parse_escape_reads: "parse_escape s = Accept v r \<Longrightarrow> reads s r \<and> length r < length s"
  by (auto simp: parse_escape_def c_iff split: if_splits
      dest: parse_unicode_escape_reads intro!: reads_Cons dest!: reads_length)

lemma parse_char_reads:
  assumes "parse_char s = Accept bs r"
  shows "reads s r \<and> length r < length s"
proof -
  obtain c s' where s: "s = c # s'" using assms by (cases s) (auto simp: parse_char_def)
  then have "hd s \<noteq> 0" using assms by (auto simp: parse_char_def split: if_splits)
  show ?thesis
  proof (cases "c = 0x5C")
    case True
    with assms have "parse_escape s' = Accept bs r" by (simp add: parse_char_def s)
    with True show ?thesis by (auto simp: s dest: parse_escape_reads intro: reads_Cons)
  next
    case False
    with assms obtain len where len: "utf8_validate_cz s = Inr len" "len \<noteq> 0" "r = drop len s"
      by (auto simp: parse_char_def s c_iff split: if_splits)
    from len(1,2) obtain u t where u: "scalar u" "s = utf8_enc u @ t" "len = length (utf8_enc u)"
      by (rule utf8_validE)
    have "u \<noteq> 0" using u(2) s \<open>hd s \<noteq> 0\<close> by (auto simp: utf8_enc_def utf8_seq_def)
    with u len show ?thesis
      using utf8_enc_nul [OF u(1)] utf8_enc_length [of u] by (auto simp: reads_def)
  qed
qed

function parse_string_loop :: "SB option \<Rightarrow> byte list \<Rightarrow> SB option parse" where
  "parse_string_loop b s = read1 s (\<lambda>c s'.
     if c = 0x22 then Accept b s'
     else p_bind (parse_char s) (\<lambda>bs r. c_bind (put_char b bs) (\<lambda>b. parse_string_loop b r)))"
  by pat_completeness auto
termination
  by (relation "measure (\<lambda>(b, s). length s)") (auto dest: parse_char_reads)

declare parse_string_loop.simps [simp del]

definition parse_string :: "bool \<Rightarrow> byte list \<Rightarrow> byte list option parse" where
  "parse_string out s = read1 s (\<lambda>c s.
     if c \<noteq> 0x22 then Reject
     else if out then
       c_bind (sb_need sb_init 4) (\<lambda>sb.
       p_bind (parse_string_loop (Some sb) s) (\<lambda>b s.
         case b of None \<Rightarrow> Inl BadPointer
         | Some sb \<Rightarrow> c_bind (sb_finish sb) (\<lambda>str. Accept (Some str) s)))
     else p_bind (parse_string_loop None s) (\<lambda>_ s. Accept None s))"

section \<open>Numbers\<close>

text \<open>The loop over digits, and the loop that wants at least one.\<close>

fun skip_digits :: "byte list \<Rightarrow> unit parse" where
  "skip_digits [] = Inl OutOfBounds"
| "skip_digits (c # s) = (if is_digit c then skip_digits s else Accept () (c # s))"

definition need_digits :: "byte list \<Rightarrow> unit parse" where
  "need_digits s = read1 s (\<lambda>c s'. if \<not> is_digit c then Reject else skip_digits s')"

definition parse_sign :: "byte list \<Rightarrow> unit parse" where
  "parse_sign s = read1 s (\<lambda>c s'. if c = 0x2D then Accept () s' else Accept () s)"

definition parse_int_part :: "byte list \<Rightarrow> unit parse" where
  "parse_int_part s = read1 s (\<lambda>c s'. if c = 0x30 then Accept () s' else need_digits s)"

definition parse_frac_part :: "byte list \<Rightarrow> unit parse" where
  "parse_frac_part s = read1 s (\<lambda>c s'. if c = 0x2E then need_digits s' else Accept () s)"

definition parse_exp_part :: "byte list \<Rightarrow> unit parse" where
  "parse_exp_part s = read1 s (\<lambda>c s'.
     if c = 0x45 \<or> c = 0x65 then
       read1 s' (\<lambda>d s''. if d = 0x2B \<or> d = 0x2D then need_digits s'' else need_digits s')
     else Accept () s)"

definition parse_number :: "bool \<Rightarrow> byte list \<Rightarrow> double option parse" where
  "parse_number out sp =
     p_bind (parse_sign sp) (\<lambda>_ s.
     p_bind (parse_int_part s) (\<lambda>_ s.
     p_bind (parse_frac_part s) (\<lambda>_ s.
     p_bind (parse_exp_part s) (\<lambda>_ s.
       Accept (if out then Some (strtod sp) else None) s))))"

lemma skip_space_reads: "skip_space s = Inr r \<Longrightarrow> reads s r"
  by (induction s) (auto simp: is_space_def split: if_splits intro!: reads_Cons)

lemma expect_literal_reads: "no_nul str \<Longrightarrow> expect_literal str s = Accept v r \<Longrightarrow> reads s r"
  by (induction str s rule: expect_literal.induct)
    (auto simp: c_iff split: if_splits intro!: reads_Cons)

lemma literals_read:
  "expect_literal (ascii ''null'') s = Accept v r \<Longrightarrow> reads s r"
  "expect_literal (ascii ''false'') s = Accept v r \<Longrightarrow> reads s r"
  "expect_literal (ascii ''true'') s = Accept v r \<Longrightarrow> reads s r"
proof -
  have "no_nul (ascii ''null'')" "no_nul (ascii ''false'')" "no_nul (ascii ''true'')"
    by code_simp+
  then show "expect_literal (ascii ''null'') s = Accept v r \<Longrightarrow> reads s r"
    "expect_literal (ascii ''false'') s = Accept v r \<Longrightarrow> reads s r"
    "expect_literal (ascii ''true'') s = Accept v r \<Longrightarrow> reads s r"
    by (blast intro: expect_literal_reads)+
qed

lemma is_digit_nonzero: "is_digit c \<Longrightarrow> c \<noteq> 0"
  by (auto simp: is_digit_def)

lemma skip_digits_reads: "skip_digits s = Accept v r \<Longrightarrow> reads s r"
  by (induction s) (auto dest: is_digit_nonzero split: if_splits intro!: reads_Cons)

lemma need_digits_reads: "need_digits s = Accept v r \<Longrightarrow> reads s r"
  by (auto simp: need_digits_def c_iff dest: is_digit_nonzero split: if_splits
      intro!: reads_Cons skip_digits_reads)

lemma number_parts_read:
  "parse_sign s = Accept v r \<Longrightarrow> reads s r"
  "parse_int_part s = Accept v r \<Longrightarrow> reads s r"
  "parse_frac_part s = Accept v r \<Longrightarrow> reads s r"
  "parse_exp_part s = Accept v r \<Longrightarrow> reads s r"
  by (cases s; cases "tl s"; force simp: parse_sign_def parse_int_part_def parse_frac_part_def
      parse_exp_part_def split: if_splits dest!: need_digits_reads intro: reads_Cons)+

lemma parse_number_reads: "parse_number out s = Accept v r \<Longrightarrow> reads s r"
  by (fastforce simp: parse_number_def c_iff dest: number_parts_read intro: reads_trans)

lemma parse_string_loop_reads: "parse_string_loop b s = Accept v r \<Longrightarrow> reads s r"
proof (induction b s rule: parse_string_loop.induct)
  case (1 b s)
  show ?case
  proof (cases s)
    case Nil
    with "1.prems" show ?thesis by (simp add: parse_string_loop.simps)
  next
    case (Cons c s')
    show ?thesis
    proof (cases "c = 0x22")
      case True
      with "1.prems" Cons show ?thesis by (auto simp: parse_string_loop.simps intro: reads_Cons)
    next
      case False
      with "1.prems" Cons obtain bs t b' where *: "parse_char s = Accept bs t"
        "put_char b bs = Inr b'" "parse_string_loop b' t = Accept v r"
        by (subst (asm) parse_string_loop.simps) (auto simp: c_iff)
      then show ?thesis using "1.IH" [OF Cons False *] by (auto dest: parse_char_reads intro: reads_trans)
    qed
  qed
qed

lemma parse_string_reads: "parse_string out s = Accept v r \<Longrightarrow> reads s r"
  by (auto simp: parse_string_def c_iff split: if_splits option.splits
      intro!: reads_Cons dest: parse_string_loop_reads)

section \<open>Values\<close>

definition node :: "bool \<Rightarrow> json \<Rightarrow> json option" where
  "node out v = (if out then Some v else None)"

definition add_element :: "json list \<Rightarrow> json option \<Rightarrow> json list" where
  "add_element ret e = (case e of None \<Rightarrow> ret | Some v \<Rightarrow> ret @ [v])"

definition add_member ::
  "(byte list \<times> json) list \<Rightarrow> byte list option \<Rightarrow> json option \<Rightarrow> (byte list \<times> json) list" where
  "add_member ret k e =
     (case (k, e) of (Some key, Some v) \<Rightarrow> ret @ [(key, v)] | _ \<Rightarrow> ret)"

function (domintros)
  parse_value :: "bool \<Rightarrow> byte list \<Rightarrow> json option parse"
  and parse_array :: "bool \<Rightarrow> byte list \<Rightarrow> json option parse"
  and array_loop :: "bool \<Rightarrow> json list \<Rightarrow> byte list \<Rightarrow> json option parse"
  and parse_object :: "bool \<Rightarrow> byte list \<Rightarrow> json option parse"
  and object_loop :: "bool \<Rightarrow> (byte list \<times> json) list \<Rightarrow> byte list \<Rightarrow> json option parse"
where
  "parse_value out s = read1 s (\<lambda>c _.
     if c = 0x6E then p_bind (expect_literal (ascii ''null'') s) (\<lambda>_ s. Accept (node out JNull) s)
     else if c = 0x66 then
       p_bind (expect_literal (ascii ''false'') s) (\<lambda>_ s. Accept (node out (JBool False)) s)
     else if c = 0x74 then
       p_bind (expect_literal (ascii ''true'') s) (\<lambda>_ s. Accept (node out (JBool True)) s)
     else if c = 0x22 then
       p_bind (parse_string out s) (\<lambda>str s. Accept (map_option JString str) s)
     else if c = 0x5B then parse_array out s
     else if c = 0x7B then parse_object out s
     else p_bind (parse_number out s) (\<lambda>num s. Accept (map_option JNumber num) s))"
| "parse_array out s = read1 s (\<lambda>c s.
     if c \<noteq> 0x5B then Reject
     else c_bind (skip_space s) (\<lambda>s. read1 s (\<lambda>c s'.
       if c = 0x5D then Accept (node out (JArray [])) s' else array_loop out [] s)))"
| "array_loop out ret s = p_bind (parse_value out s) (\<lambda>element s.
     c_bind (skip_space s) (\<lambda>s. read1 s (\<lambda>c s'.
       if c = 0x5D then Accept (node out (JArray (add_element ret element))) s'
       else if c \<noteq> 0x2C then Reject
       else c_bind (skip_space s') (\<lambda>s. array_loop out (add_element ret element) s))))"
| "parse_object out s = read1 s (\<lambda>c s.
     if c \<noteq> 0x7B then Reject
     else c_bind (skip_space s) (\<lambda>s. read1 s (\<lambda>c s'.
       if c = 0x7D then Accept (node out (JObject [])) s' else object_loop out [] s)))"
| "object_loop out ret s = p_bind (parse_string out s) (\<lambda>key s.
     c_bind (skip_space s) (\<lambda>s. read1 s (\<lambda>c s.
       if c \<noteq> 0x3A then Reject
       else c_bind (skip_space s) (\<lambda>s. p_bind (parse_value out s) (\<lambda>value s.
         c_bind (skip_space s) (\<lambda>s. read1 s (\<lambda>c s'.
           if c = 0x7D then Accept (node out (JObject (add_member ret key value))) s'
           else if c \<noteq> 0x2C then Reject
           else c_bind (skip_space s') (\<lambda>s. object_loop out (add_member ret key value) s))))))))"
  by pat_completeness auto

lemma parsers_read_partial:
  "parse_value_parse_array_array_loop_parse_object_object_loop_dom (Inl (Inl (out, s))) \<Longrightarrow>
     (\<And>v r. parse_value out s = Accept v r \<Longrightarrow> reads s r)"
  "parse_value_parse_array_array_loop_parse_object_object_loop_dom (Inl (Inr (out, s))) \<Longrightarrow>
     (\<And>v r. parse_array out s = Accept v r \<Longrightarrow> reads s r)"
  "parse_value_parse_array_array_loop_parse_object_object_loop_dom (Inr (Inl (out, ret, s))) \<Longrightarrow>
     (\<And>v r. array_loop out ret s = Accept v r \<Longrightarrow> reads s r)"
  "parse_value_parse_array_array_loop_parse_object_object_loop_dom (Inr (Inr (Inl (out, s)))) \<Longrightarrow>
     (\<And>v r. parse_object out s = Accept v r \<Longrightarrow> reads s r)"
  "parse_value_parse_array_array_loop_parse_object_object_loop_dom (Inr (Inr (Inr (out, ret', s)))) \<Longrightarrow>
     (\<And>v r. object_loop out ret' s = Accept v r \<Longrightarrow> reads s r)"
proof (induction out s and out s and out ret s and out s and out ret' s
    rule: parse_value_parse_array_array_loop_parse_object_object_loop.pinduct)
  case (1 out s)
  then obtain c t where s: "s = c # t" by (cases s) (auto simp: parse_value.psimps)
  from 1(4) have "c = 0x5B \<and> parse_array out s = Accept v r \<or> c = 0x7B \<and> parse_object out s = Accept v r
      \<or> reads s r"
    unfolding parse_value.psimps [OF 1(1)]
    by (auto simp: c_iff s split: if_splits
        dest: literals_read parse_string_reads parse_number_reads)
  then show ?case using 1(2,3) s by auto
next
  case (2 out s)
  from 2(3) obtain t c u where *: "s = 0x5B # t" "skip_space t = Inr (c # u)"
    "c = 0x5D \<and> r = u \<or> c \<noteq> 0x5D \<and> array_loop out [] (c # u) = Accept v r"
    by (auto simp: "2"(1) parse_array.psimps c_iff split: if_splits)
  then have "reads (c # u) r" using 2(2) by (auto intro: reads_Cons)
  then show ?case using * by (auto intro!: reads_Cons intro: reads_trans skip_space_reads)
next
  case (3 out ret s)
  from 3(4) obtain e t c u where *: "parse_value out s = Accept e t" "skip_space t = Inr (c # u)"
    "c = 0x5D \<and> r = u \<or> c = 0x2C \<and> (\<exists>w. skip_space u = Inr w \<and>
       array_loop out (add_element ret e) w = Accept v r)"
    by (auto simp: "3"(1) array_loop.psimps c_iff split: if_splits)
  then have "reads u r" using 3(3) by (auto intro: reads_trans skip_space_reads)
  then have "reads (c # u) r" using * by (auto intro: reads_Cons)
  then show ?case using * 3(2) by (blast intro: reads_trans skip_space_reads)
next
  case (4 out s)
  from 4(3) obtain t c u where *: "s = 0x7B # t" "skip_space t = Inr (c # u)"
    "c = 0x7D \<and> r = u \<or> c \<noteq> 0x7D \<and> object_loop out [] (c # u) = Accept v r"
    by (auto simp: "4"(1) parse_object.psimps c_iff split: if_splits)
  then have "reads (c # u) r" using 4(2) by (auto intro: reads_Cons)
  then show ?case using * by (auto intro!: reads_Cons intro: reads_trans skip_space_reads)
next
  case (5 out ret s)
  from 5(4) obtain k s1 s2 s3 e t c u where *: "parse_string out s = Accept k s1"
    "skip_space s1 = Inr (0x3A # s2)" "skip_space s2 = Inr s3"
    "parse_value out s3 = Accept e t" "skip_space t = Inr (c # u)"
    "c = 0x7D \<and> r = u \<or> c = 0x2C \<and> (\<exists>w. skip_space u = Inr w \<and>
       object_loop out (add_member ret k e) w = Accept v r)"
    by (auto simp: "5"(1) object_loop.psimps c_iff split: if_splits)
  then have "reads u r" using 5(3) by (auto intro: reads_trans skip_space_reads)
  then have "reads (c # u) r" using * by (auto intro: reads_Cons)
  moreover have "reads s3 t" using 5(2) * by blast
  ultimately have "reads s2 r" using * by (blast intro: reads_trans skip_space_reads)
  then have "reads (0x3A # s2) r" by (simp add: reads_Cons)
  then show ?case using * by (blast intro: reads_trans skip_space_reads parse_string_reads)
qed

lemma parsers_total: "All parse_value_parse_array_array_loop_parse_object_object_loop_dom"
proof (relation "measures [\<lambda>x. case x of Inl (Inl (_, s)) \<Rightarrow> length s | Inl (Inr (_, s)) \<Rightarrow> length s
      | Inr (Inl (_, _, s)) \<Rightarrow> length s | Inr (Inr (Inl (_, s))) \<Rightarrow> length s
      | Inr (Inr (Inr (_, _, s))) \<Rightarrow> length s,
    \<lambda>x. case x of Inl (Inl _) \<Rightarrow> 1 | Inl (Inr _) \<Rightarrow> 0 | Inr (Inl _) \<Rightarrow> 2 | Inr (Inr (Inl _)) \<Rightarrow> 0
      | Inr (Inr (Inr _)) \<Rightarrow> 2]", goal_cases)
qed (fastforce dest!: skip_space_reads parse_string_reads parsers_read_partial(1) dest: reads_length)+

termination parse_value by (rule parsers_total)

lemmas parser_simps = parse_value.simps parse_array.simps array_loop.simps parse_object.simps
  object_loop.simps

declare parser_simps [simp del]

lemmas parser_induct = parse_value_parse_array_array_loop_parse_object_object_loop.induct

lemmas parsers_read = parsers_read_partial [OF parsers_total [THEN spec]]

section \<open>Whole texts\<close>

definition json_decode :: "byte list \<Rightarrow> json option cres" where
  "json_decode json = c_bind (skip_space json) (\<lambda>s. c_bind (parse_value True s) (\<lambda>p.
     case p of None \<Rightarrow> Inr None
     | Some (ret, s) \<Rightarrow> c_bind (skip_space s) (\<lambda>s. read1 s (\<lambda>c _.
         if c \<noteq> 0 then Inr None else Inr ret))))"

definition json_validate :: "byte list \<Rightarrow> bool cres" where
  "json_validate json = c_bind (skip_space json) (\<lambda>s. c_bind (parse_value False s) (\<lambda>p.
     case p of None \<Rightarrow> Inr False
     | Some (_, s) \<Rightarrow> c_bind (skip_space s) (\<lambda>s. read1 s (\<lambda>c _.
         if c \<noteq> 0 then Inr False else Inr True))))"

end
