(* ===== verification/Json_Safety.thy ===== *)
theory Json_Safety
  imports Json_Parse
begin

text \<open>
  What the parser of json.c guarantees on every C string, well formed or not: it never reads
  behind the terminating zero, never writes outside of its buffers, never fails an assertion
  and always returns; the strings of the value it builds are valid UTF-8 without zero bytes;
  validating and decoding accept the same texts.
\<close>

section \<open>The characters of a string\<close>

lemma utf8_enc_ascii: "unat c < 128 \<Longrightarrow> utf8_enc (ucast (c :: byte)) = [c]"
  by (simp add: utf8_enc_def utf8_seq_def word_arith)

lemma utf8_enc_bytes:
  assumes "scalar u" and "128 \<le> unat u"
  shows "\<forall>c \<in> set (utf8_enc u). 128 \<le> unat c"
proof -
  have "\<forall>k \<in> set (utf8_seq (unat u)). 128 \<le> k" using assms(2) by (auto simp: utf8_seq_def)
  then have "\<forall>k \<in> set (map unat (utf8_enc u)). 128 \<le> k" using map_unat_enc [OF assms(1)] by simp
  then show ?thesis by simp
qed

lemma utf8_enc_cases:
  assumes "scalar u" and "u \<noteq> 0"
  obtains (ascii) c where "utf8_enc u = [c]" and "c \<noteq> 0" and "unat c < 128" and "u = ucast c"
  | (long) c cs where "utf8_enc u = c # cs" and "\<forall>c \<in> set (utf8_enc u). 128 \<le> unat c" and "128 \<le> unat u"
proof (cases "unat u < 128")
  case True
  then have "utf8_enc u = [of_nat (unat u)]" by (simp add: utf8_enc_def utf8_seq_def)
  moreover have "unat (of_nat (unat u) :: byte) = unat u"
    using True by (simp only: unat_of_nat) simp
  ultimately show ?thesis
    using assms(2) True by (intro ascii [of "of_nat (unat u)"]) (auto simp: word_unat_eq_iff word_arith)
next
  case False
  then have "\<forall>c \<in> set (utf8_enc u). 128 \<le> unat c" using assms(1) by (intro utf8_enc_bytes) auto
  then show ?thesis
    using utf8_enc_length [of u] long False by (cases "utf8_enc u") auto
qed

lemma utf8_text_append: "utf8_text a \<Longrightarrow> utf8_text b \<Longrightarrow> utf8_text (a @ b)"
  by (induction rule: utf8_text.induct) (auto intro: utf8_text.intros)

lemma utf8_text_enc: "scalar u \<Longrightarrow> u \<noteq> 0 \<Longrightarrow> utf8_text (utf8_enc u)"
  using utf8_text.Char [of u "[]"] utf8_text.Nil by simp

definition enc_of_char :: "byte list \<Rightarrow> bool" where
  "enc_of_char bs \<longleftrightarrow> (\<exists>u. scalar u \<and> u \<noteq> 0 \<and> bs = utf8_enc u)"

lemma enc_of_charI: "scalar u \<Longrightarrow> u \<noteq> 0 \<Longrightarrow> enc_of_char (utf8_enc u)"
  by (auto simp: enc_of_char_def)

lemma enc_of_ascii: "c \<noteq> 0 \<Longrightarrow> unat c < 128 \<Longrightarrow> enc_of_char [c]"
proof -
  assume c: "c \<noteq> 0" "unat c < 128"
  then have "scalar (ucast c)" "(ucast c :: uchar) \<noteq> 0"
    by (simp_all add: scalar_iff scalar_value_def word_arith word_unat_eq_iff)
  then show ?thesis using utf8_enc_ascii [OF c(2)] enc_of_charI by metis
qed

lemma from_surrogate_pair_range:
  assumes "from_surrogate_pair uc lc = Some u"
  shows "scalar u" and "0x10000 \<le> unat u"
proof -
  have r: "0xD800 \<le> unat uc" "unat uc \<le> 0xDBFF" "0xDC00 \<le> unat lc" "unat lc \<le> 0xDFFF"
    and u: "u = 0x10000 + (push_bit 10 (ucast uc AND 0x3FF) OR ucast (lc AND 0x3FF))"
    using assms by (auto simp: from_surrogate_pair_def word_le_nat_alt split: if_splits)
  let ?v = "push_bit 10 (ucast uc AND 0x3FF) OR ucast (lc AND 0x3FF) :: uchar"
  have uc: "unat (ucast uc AND 0x3FF :: uchar) < 1024" by (simp add: and_1023)
  have lc: "unat (ucast (lc AND 0x3FF) :: uchar) < 1024"
  proof -
    have "unat (lc AND 0x3FF) < 1024" by (simp add: and_1023)
    then show ?thesis by (simp only: unat_ucast_mod) simp
  qed
  have "unat (push_bit 10 (ucast uc AND 0x3FF) :: uchar) = unat (ucast uc AND 0x3FF :: uchar) * 1024"
    using uc by (subst unat_push_bit) (simp_all del: push_bit_and)
  then have "unat ?v = unat (ucast uc AND 0x3FF :: uchar) * 1024 + unat (ucast (lc AND 0x3FF) :: uchar)"
    using lc by (subst unat_or_disjoint [where k = 10]) (simp_all del: push_bit_and)
  with uc lc have v: "unat ?v < 0x100000" by linarith
  then have "unat u = 0x10000 + unat ?v" by (simp add: u unat_word_ariths del: push_bit_and)
  with v show "scalar u" and "0x10000 \<le> unat u" by (simp_all add: scalar_iff scalar_value_def)
qed

lemma scalar_of_u16:
  assumes "\<not> (uc \<ge> 0xD800 \<and> uc \<le> 0xDFFF)"
  shows "scalar (ucast (uc :: u16))"
proof -
  have "unat uc < 1114112" by (rule less_trans [OF u16_less]) simp
  with assms show ?thesis
    by (auto simp: scalar_iff scalar_value_def word_arith word_le_nat_alt)
qed

lemma parse_unicode_escape_enc:
  assumes "parse_unicode_escape s = Accept bs r"
  shows "enc_of_char bs"
proof -
  obtain uc s1 where uc: "parse_hex16 s = Accept uc s1"
    using assms by (auto simp: parse_unicode_escape_def c_iff)
  show ?thesis
  proof (cases "uc \<ge> 0xD800 \<and> uc \<le> 0xDFFF")
    case True
    with assms uc obtain lc u where "from_surrogate_pair uc lc = Some u" and bs: "bs = utf8_enc u"
      by (auto simp: parse_unicode_escape_def c_iff utf8_write_char_eq split: if_splits option.splits)
    from from_surrogate_pair_range [OF this(1)] have "scalar u" and "u \<noteq> 0" by auto
    then show ?thesis unfolding bs by (rule enc_of_charI)
  next
    case False
    with assms uc have "uc \<noteq> 0" and bs: "bs = utf8_enc (ucast uc)"
      by (auto simp: parse_unicode_escape_def c_iff utf8_write_char_eq split: if_splits)
    then have "(ucast uc :: uchar) \<noteq> 0" by (simp add: word_unat_eq_iff word_arith)
    with scalar_of_u16 [OF False] show ?thesis unfolding bs by (rule enc_of_charI)
  qed
qed

lemma parse_char_enc:
  assumes "parse_char s = Accept bs r"
  shows "enc_of_char bs"
proof -
  obtain c s' where s: "s = c # s'" using assms by (cases s) (auto simp: parse_char_def)
  show ?thesis
  proof (cases "c = 0x5C")
    case True
    with assms have "parse_escape s' = Accept bs r" by (simp add: parse_char_def s)
    then show ?thesis
      by (auto simp: parse_escape_def c_iff split: if_splits
          intro: parse_unicode_escape_enc intro!: enc_of_ascii)
  next
    case False
    with assms obtain len where len: "utf8_validate_cz s = Inr len" "len \<noteq> 0" "bs = take len s"
      by (auto simp: parse_char_def s c_iff split: if_splits)
    from len(1,2) obtain u t where u: "scalar u" "s = utf8_enc u @ t" "len = length (utf8_enc u)"
      by (rule utf8_validE)
    moreover have "c \<noteq> 0" using assms by (auto simp: parse_char_def s split: if_splits)
    moreover have "u \<noteq> 0" using u(2) s \<open>c \<noteq> 0\<close> by (auto simp: utf8_enc_def utf8_seq_def)
    ultimately show ?thesis using len(3) by (simp add: enc_of_charI)
  qed
qed

section \<open>The buffer of a string\<close>

definition target_ok :: "SB option \<Rightarrow> bool" where
  "target_ok b \<longleftrightarrow> (case b of None \<Rightarrow> True
     | Some sb \<Rightarrow> sb_inv sb \<and> 4 \<le> sb_room sb \<and> utf8_text (sb_data sb))"

lemma put_char_ok:
  assumes "target_ok b" and "enc_of_char bs"
  obtains b' where "put_char b bs = Inr b'" and "target_ok b'"
    and "map_option sb_data b' = map_option (\<lambda>sb. sb_data sb @ bs) b"
proof -
  obtain u where u: "scalar u" "u \<noteq> 0" "bs = utf8_enc u"
    using assms(2) by (auto simp: enc_of_char_def)
  then have len: "length bs \<le> 4" using utf8_enc_length [of u] by simp
  show ?thesis
  proof (cases b)
    case None
    then show ?thesis using that [of None] len by (simp add: put_char_def target_ok_def)
  next
    case (Some sb)
    with assms(1) have sb: "sb_inv sb" "4 \<le> sb_room sb" "utf8_text (sb_data sb)"
      by (simp_all add: target_ok_def)
    have "length bs \<le> sb_room sb" using len sb(2) by simp
    with sb(1) obtain sb1 where sb1: "sb_write sb bs = Inr sb1" "sb_inv sb1"
      "sb_data sb1 = sb_data sb @ bs" by (rule sb_writeE)
    from sb1(2) obtain sb2 where sb2: "sb_need sb1 4 = Inr sb2" "sb_inv sb2"
      "sb_data sb2 = sb_data sb1" "4 \<le> sb_room sb2" by (rule sb_needE)
    have "utf8_text (sb_data sb2)"
      using sb(3) sb1(3) sb2(3) u by (simp add: utf8_text_append utf8_text_enc)
    then show ?thesis
      using that [of "Some sb2"] sb1 sb2 by (simp add: put_char_def target_ok_def Some)
  qed
qed

lemma parse_hex16_returns: "nulterm s \<Longrightarrow> returns (parse_hex16 s)"
proof -
  have "nulterm s \<Longrightarrow> returns (hex16_loop i ret s)" for i ret
  proof (induction i arbitrary: ret s)
    case (Suc i)
    then show ?case
      by (auto intro!: returns_intros split: option.split simp: hex_value_def)
  qed simp
  then show "nulterm s \<Longrightarrow> returns (parse_hex16 s)" by (simp add: parse_hex16_def)
qed

lemma utf8_write_char_returns: "scalar u \<Longrightarrow> returns (utf8_write_char u)"
  by (simp add: utf8_write_char_eq)

lemma parse_unicode_escape_returns: "nulterm s \<Longrightarrow> returns (parse_unicode_escape s)"
  unfolding parse_unicode_escape_def
  by (auto intro!: returns_intros parse_hex16_returns utf8_write_char_returns scalar_of_u16
      dest: parse_hex16_reads reads_nulterm from_surrogate_pair_range split: option.splits)

lemma parse_char_returns: "nulterm s \<Longrightarrow> returns (parse_char s)"
  unfolding parse_char_def parse_escape_def
  by (auto intro!: returns_intros parse_unicode_escape_returns utf8_validate_cz_returns)

lemma skip_space_returns: "nulterm s \<Longrightarrow> returns (skip_space s)"
  by (induction s) (auto simp: is_space_def)

lemma expect_literal_returns: "no_nul str \<Longrightarrow> nulterm s \<Longrightarrow> returns (expect_literal str s)"
  by (induction str arbitrary: s) (auto intro!: returns_intros)

lemma skip_digits_returns: "nulterm s \<Longrightarrow> returns (skip_digits s)"
  by (induction s) (auto simp: is_digit_def)

lemma need_digits_returns: "nulterm s \<Longrightarrow> returns (need_digits s)"
  unfolding need_digits_def
  by (auto intro!: returns_intros skip_digits_returns dest: is_digit_nonzero)

lemma number_parts_return:
  "nulterm s \<Longrightarrow> returns (parse_sign s)"
  "nulterm s \<Longrightarrow> returns (parse_int_part s)"
  "nulterm s \<Longrightarrow> returns (parse_frac_part s)"
  "nulterm s \<Longrightarrow> returns (parse_exp_part s)"
  unfolding parse_sign_def parse_int_part_def parse_frac_part_def parse_exp_part_def
  by (auto intro!: returns_intros need_digits_returns)

lemma parse_number_returns: "nulterm s \<Longrightarrow> returns (parse_number out s)"
  unfolding parse_number_def
  by (intro returns_intros number_parts_return returns_simps)
    (blast intro: reads_nulterm number_parts_read)+

text \<open>The loop over the characters of a string.\<close>

lemma parse_string_loop_ok:
  assumes "nulterm s" and "target_ok b"
  shows "returns (parse_string_loop b s)"
    and "parse_string_loop b s = Accept b' r \<Longrightarrow> target_ok b' \<and> (b' = None \<longleftrightarrow> b = None)"
proof -
  have "returns (parse_string_loop b s) \<and>
      (\<forall>b' r. parse_string_loop b s = Accept b' r \<longrightarrow> target_ok b' \<and> (b' = None \<longleftrightarrow> b = None))"
    using assms
  proof (induction b s rule: parse_string_loop.induct)
    case (1 b s)
    then obtain c s' where s: "s = c # s'" by (cases s) auto
    show ?case
    proof (cases "c = 0x22")
      case True
      then show ?thesis using 1 by (simp add: parse_string_loop.simps s)
    next
      case c: False
      have eq: "parse_string_loop b s =
          p_bind (parse_char s) (\<lambda>bs r. c_bind (put_char b bs) (\<lambda>b. parse_string_loop b r))"
        using c by (subst parse_string_loop.simps) (simp add: s)
      show ?thesis
      proof (cases "parse_char s" rule: parse_cases)
        case (Fault e)
        then show ?thesis using parse_char_returns [OF 1(2)] by simp
      next
        case Reject
        then show ?thesis by (simp add: eq)
      next
        case (Accept bs t)
        obtain b1 where b1: "put_char b bs = Inr b1" "target_ok b1"
          "map_option sb_data b1 = map_option (\<lambda>sb. sb_data sb @ bs) b"
          using 1(3) parse_char_enc [OF Accept] by (rule put_char_ok)
        have "nulterm t" using Accept 1(2) parse_char_reads reads_nulterm by blast
        from "1.IH" [OF s c Accept b1(1) this b1(2)] show ?thesis
          using b1(3) by (simp add: eq Accept b1(1)) (metis option.map_disc_iff)
      qed
    qed
  qed
  then show "returns (parse_string_loop b s)"
    and "parse_string_loop b s = Accept b' r \<Longrightarrow> target_ok b' \<and> (b' = None \<longleftrightarrow> b = None)"
    by auto
qed

lemma parse_string_init:
  obtains sb where "sb_need sb_init 4 = Inr sb" and "target_ok (Some sb)" and "sb_data sb = []"
proof -
  obtain sb where "sb_need sb_init 4 = Inr sb" "sb_inv sb" "sb_data sb = sb_data sb_init"
    "4 \<le> sb_room sb" by (rule sb_needE [OF sb_init_inv])
  then show ?thesis by (intro that [of sb]) (simp_all add: target_ok_def utf8_text.Nil)
qed

lemma sb_finish_target: "target_ok (Some sb) \<Longrightarrow> sb_finish sb = Inr (sb_data sb)"
  by (intro sb_finish_ok) (auto simp: target_ok_def utf8_text_no_nul)

lemma parse_string_ok:
  assumes "nulterm s"
  shows "returns (parse_string out s)"
    and "parse_string out s = Accept str r \<Longrightarrow>
      (out \<longleftrightarrow> str \<noteq> None) \<and> (\<forall>bs. str = Some bs \<longrightarrow> utf8_text bs)"
proof -
  obtain c s' where s: "s = c # s'" using assms by (cases s) auto
  obtain sb where sb: "sb_need sb_init 4 = Inr sb" "target_ok (Some sb)" "sb_data sb = []"
    by (rule parse_string_init)
  have none: "target_ok None" by (simp add: target_ok_def)
  show "returns (parse_string out s)"
  proof (cases "c = 0x22")
    case True
    then have "nulterm s'" using assms s by simp
    note l = parse_string_loop_ok [OF this]
    show ?thesis
      using l(1) [OF none] l(1) [OF sb(2)] l(2) [OF sb(2)]
      by (auto simp: parse_string_def s True sb(1) sb_finish_target intro!: returns_p_bind split: option.split)
  qed (simp add: parse_string_def s)
  assume acc: "parse_string out s = Accept str r"
  then have c: "c = 0x22" by (auto simp: parse_string_def s split: if_splits)
  then have s': "nulterm s'" using assms s by simp
  show "(out \<longleftrightarrow> str \<noteq> None) \<and> (\<forall>bs. str = Some bs \<longrightarrow> utf8_text bs)"
  proof (cases out)
    case True
    with acc c obtain b' bs where l: "parse_string_loop (Some sb) s' = Accept (Some b') r"
      and f: "sb_finish b' = Inr bs" and str: "str = Some bs"
      by (auto simp: parse_string_def s sb(1) c_iff split: option.splits)
    from parse_string_loop_ok(2) [OF s' sb(2) l] have "target_ok (Some b')" by simp
    with f sb_finish_target have "bs = sb_data b'" and "utf8_text (sb_data b')" by (auto simp: target_ok_def)
    with True str show ?thesis by simp
  next
    case False
    with acc c show ?thesis by (auto simp: parse_string_def s c_iff)
  qed
qed

section \<open>The whole parser\<close>

text \<open>The values the parser builds: every string is valid UTF-8 without zero bytes.\<close>

fun json_texts :: "json \<Rightarrow> bool" where
  "json_texts (JString s) = utf8_text s"
| "json_texts (JArray es) = (\<forall>e \<in> set es. json_texts e)"
| "json_texts (JObject ms) = (\<forall>m \<in> set ms. utf8_text (fst m) \<and> json_texts (snd m))"
| "json_texts v = True"

definition result_ok :: "bool \<Rightarrow> json option parse \<Rightarrow> bool" where
  "result_ok out p \<longleftrightarrow> returns p \<and>
     (\<forall>v r. p = Accept v r \<longrightarrow> (out \<longleftrightarrow> v \<noteq> None) \<and> (\<forall>j. v = Some j \<longrightarrow> json_texts j))"

lemma result_ok_Reject [simp]: "result_ok out Reject"
  by (simp add: result_ok_def)

lemma result_ok_node: "json_texts j \<Longrightarrow> result_ok out (Accept (node out j) s)"
  by (simp add: result_ok_def node_def)

lemma result_ok_p_bind:
  "returns p \<Longrightarrow> (\<And>v s. p = Accept v s \<Longrightarrow> result_ok out (f v s)) \<Longrightarrow> result_ok out (p_bind p f)"
  by (cases p rule: parse_cases) auto

lemma result_ok_c_bind:
  "returns x \<Longrightarrow> (\<And>v. x = Inr v \<Longrightarrow> result_ok out (f v)) \<Longrightarrow> result_ok out (c_bind x f)"
  by (cases x) auto

lemma result_ok_read1:
  "nulterm s \<Longrightarrow> (\<And>c s'. s = c # s' \<Longrightarrow> (c \<noteq> 0 \<Longrightarrow> nulterm s') \<Longrightarrow> result_ok out (k c s')) \<Longrightarrow>
   result_ok out (read1 s k)"
  by (cases s) auto

lemma result_ok_if:
  "(b \<Longrightarrow> result_ok out x) \<Longrightarrow> (\<not> b \<Longrightarrow> result_ok out y) \<Longrightarrow> result_ok out (if b then x else y)"
  by simp

lemmas result_ok_intros = result_ok_p_bind result_ok_c_bind result_ok_read1 result_ok_if

lemma skip_space_nulterm: "skip_space s = Inr r \<Longrightarrow> nulterm s \<Longrightarrow> nulterm r"
  by (blast intro: reads_nulterm skip_space_reads)

lemma parse_value_nulterm: "parse_value out s = Accept v r \<Longrightarrow> nulterm s \<Longrightarrow> nulterm r"
  by (rule reads_nulterm [OF parsers_read(1)])

lemma literals_return:
  "nulterm s \<Longrightarrow> returns (expect_literal (ascii ''null'') s)"
  "nulterm s \<Longrightarrow> returns (expect_literal (ascii ''false'') s)"
  "nulterm s \<Longrightarrow> returns (expect_literal (ascii ''true'') s)"
proof -
  have "no_nul (ascii ''null'')" "no_nul (ascii ''false'')" "no_nul (ascii ''true'')"
    by code_simp+
  then show "nulterm s \<Longrightarrow> returns (expect_literal (ascii ''null'') s)"
    "nulterm s \<Longrightarrow> returns (expect_literal (ascii ''false'') s)"
    "nulterm s \<Longrightarrow> returns (expect_literal (ascii ''true'') s)"
    by (blast intro: expect_literal_returns)+
qed

lemma add_element_texts:
  "\<forall>e \<in> set ret. json_texts e \<Longrightarrow> (\<forall>j. v = Some j \<longrightarrow> json_texts j) \<Longrightarrow>
   \<forall>e \<in> set (add_element ret v). json_texts e"
  by (auto simp: add_element_def split: option.split)

lemma add_member_texts:
  "\<forall>m \<in> set ret. utf8_text (fst m) \<and> json_texts (snd m) \<Longrightarrow> (\<forall>bs. k = Some bs \<longrightarrow> utf8_text bs) \<Longrightarrow>
   (\<forall>j. v = Some j \<longrightarrow> json_texts j) \<Longrightarrow>
   \<forall>m \<in> set (add_member ret k v). utf8_text (fst m) \<and> json_texts (snd m)"
  by (auto simp: add_member_def split: option.split)

lemma result_ok_parsed:
  assumes "returns p"
    and "\<And>x r. p = Accept x r \<Longrightarrow> (out \<longleftrightarrow> x \<noteq> None) \<and> (\<forall>y. x = Some y \<longrightarrow> json_texts (g y))"
  shows "result_ok out (p_bind p (\<lambda>x s. Accept (map_option g x) s))"
  using assms(1)
proof (rule result_ok_p_bind)
  fix x r
  assume "p = Accept x r"
  from assms(2) [OF this] show "result_ok out (Accept (map_option g x) r)"
    by (auto simp: result_ok_def)
qed

lemma result_ok_string:
  "nulterm s \<Longrightarrow> result_ok out (p_bind (parse_string out s) (\<lambda>str s. Accept (map_option JString str) s))"
  by (rule result_ok_parsed [OF parse_string_ok(1)]) (auto dest: parse_string_ok(2))

lemma result_ok_number:
  "nulterm s \<Longrightarrow> result_ok out (p_bind (parse_number out s) (\<lambda>num s. Accept (map_option JNumber num) s))"
  by (rule result_ok_parsed [OF parse_number_returns]) (auto simp: parse_number_def c_iff split: if_splits)

lemma result_okD: "result_ok out p \<Longrightarrow> returns p"
  "result_ok out p \<Longrightarrow> p = Accept v r \<Longrightarrow> \<forall>j. v = Some j \<longrightarrow> json_texts j"
  by (auto simp: result_ok_def)

text \<open>The end of an element or member: the closing bracket, or a comma and the rest.\<close>

lemma result_ok_tail:
  assumes t: "nulterm t" and j: "json_texts j"
    and k: "\<And>c s' w. skip_space t = Inr (c # s') \<Longrightarrow> c \<noteq> cl \<Longrightarrow> c = 0x2C \<Longrightarrow>
      skip_space s' = Inr w \<Longrightarrow> nulterm w \<Longrightarrow> result_ok out (k w)"
  shows "result_ok out (c_bind (skip_space t) (\<lambda>s. read1 s (\<lambda>c s'.
    if c = cl then Accept (node out j) s'
    else if c \<noteq> 0x2C then Reject else c_bind (skip_space s') k)))"
proof (intro result_ok_intros result_ok_node j result_ok_Reject)
  show "returns (skip_space t)" using t by (rule skip_space_returns)
  fix s c s'
  assume s: "skip_space t = Inr s"
  with t show "nulterm s" by (blast intro: skip_space_nulterm)
  then show "returns (skip_space s')" if "s = c # s'" "\<not> c \<noteq> 0x2C"
    using that by (intro skip_space_returns) simp
  fix w
  assume "s = c # s'" "c \<noteq> cl" "\<not> c \<noteq> 0x2C" "skip_space s' = Inr w"
  with s \<open>nulterm s\<close> show "result_ok out (k w)"
    by (intro k [of c s' w]) (auto intro: skip_space_nulterm)
qed

lemma parsers_ok:
  "nulterm s \<longrightarrow> result_ok out (parse_value out s)"
  "nulterm s \<longrightarrow> result_ok out (parse_array out s)"
  "nulterm s \<and> (\<forall>e \<in> set ret. json_texts e) \<longrightarrow> result_ok out (array_loop out ret s)"
  "nulterm s \<longrightarrow> result_ok out (parse_object out s)"
  "nulterm s \<and> (\<forall>m \<in> set ret'. utf8_text (fst m) \<and> json_texts (snd m)) \<longrightarrow>
     result_ok out (object_loop out ret' s)"
proof (induction out s and out s and out ret s and out s and out ret' s rule: parser_induct)
  case (1 out s)
  show ?case
  proof (cases s)
    case (Cons c t)
    note IH = 1 [OF Cons]
    show ?thesis
    proof
      assume s: "nulterm s"
      have lit: "nulterm (c # t)" using s Cons by simp
      have "result_ok out (p_bind (expect_literal (ascii ''null'') s) (\<lambda>_ s. Accept (node out JNull) s))"
        "result_ok out (p_bind (expect_literal (ascii ''false'') s) (\<lambda>_ s. Accept (node out (JBool False)) s))"
        "result_ok out (p_bind (expect_literal (ascii ''true'') s) (\<lambda>_ s. Accept (node out (JBool True)) s))"
        using s by (auto intro!: result_ok_p_bind literals_return result_ok_node)
      then show "result_ok out (parse_value out s)"
        using s IH result_ok_string [OF s] result_ok_number [OF s]
        by (auto simp: parse_value.simps Cons)
    qed
  qed simp
next
  case (2 out s)
  show ?case
    unfolding parse_array.simps [of out s]
    by (intro impI result_ok_intros result_ok_node skip_space_returns)
      (use 2 skip_space_nulterm in \<open>auto\<close>)
next
  case (3 out ret s)
  show ?case
  proof
    assume a: "nulterm s \<and> (\<forall>e \<in> set ret. json_texts e)"
    with 3(1) have v: "result_ok out (parse_value out s)" by blast
    show "result_ok out (array_loop out ret s)"
      unfolding array_loop.simps [of out ret s]
    proof (rule result_ok_p_bind [OF result_okD(1) [OF v]])
      fix el t
      assume el: "parse_value out s = Accept el t"
      then have t: "nulterm t" by (rule parse_value_nulterm) (use a in simp)
      have ret: "\<forall>e \<in> set (add_element ret el). json_texts e"
        using a result_okD(2) [OF v el] by (intro add_element_texts) simp_all
      show "result_ok out (c_bind (skip_space t) (\<lambda>s. read1 s (\<lambda>c s'.
         if c = 0x5D then Accept (node out (JArray (add_element ret el))) s'
         else if c \<noteq> 0x2C then Reject
         else c_bind (skip_space s') (\<lambda>s. array_loop out (add_element ret el) s))))"
      proof (rule result_ok_tail [OF t])
        show "json_texts (JArray (add_element ret el))" using ret by simp
        fix c s5 s6
        assume "skip_space t = Inr (c # s5)" "c \<noteq> 0x5D" "c = 0x2C" "skip_space s5 = Inr s6"
          "nulterm s6"
        with 3(2) [OF el] ret show "result_ok out (array_loop out (add_element ret el) s6)" by blast
      qed
    qed
  qed
next
  case (4 out s)
  show ?case
    unfolding parse_object.simps [of out s]
    by (intro impI result_ok_intros result_ok_node skip_space_returns)
      (use 4 skip_space_nulterm in \<open>auto\<close>)
next
  case (5 out ret s)
  show ?case
  proof
    assume a: "nulterm s \<and> (\<forall>m \<in> set ret. utf8_text (fst m) \<and> json_texts (snd m))"
    note k = parse_string_ok [OF conjunct1 [OF a], of out]
    show "result_ok out (object_loop out ret s)"
      unfolding object_loop.simps [of out ret s]
    proof (rule result_ok_p_bind [OF k(1)], intro result_ok_c_bind result_ok_read1 result_ok_if
        result_ok_Reject)
      fix key s1 s2 c s3 s4
      assume key: "parse_string out s = Accept key s1"
      then have s1: "nulterm s1" using a parse_string_reads reads_nulterm by blast
      then show "returns (skip_space s1)" by (rule skip_space_returns)
      assume s2: "skip_space s1 = Inr s2"
      with s1 show n2: "nulterm s2" by (blast intro: skip_space_nulterm)
      assume s3: "s2 = c # s3" and c: "\<not> c \<noteq> 0x3A"
      with n2 have n3: "nulterm s3" by simp
      then show "returns (skip_space s3)" by (rule skip_space_returns)
      assume s4: "skip_space s3 = Inr s4"
      with n3 have n4: "nulterm s4" by (blast intro: skip_space_nulterm)
      have v: "result_ok out (parse_value out s4)" using 5(1) key s2 s3 c s4 n4 by blast
      show "result_ok out (p_bind (parse_value out s4) (\<lambda>value s.
         c_bind (skip_space s) (\<lambda>s. read1 s (\<lambda>c s'.
           if c = 0x7D then Accept (node out (JObject (add_member ret key value))) s'
           else if c \<noteq> 0x2C then Reject
           else c_bind (skip_space s') (\<lambda>s. object_loop out (add_member ret key value) s)))))"
      proof (rule result_ok_p_bind [OF result_okD(1) [OF v]])
        fix el t
        assume el: "parse_value out s4 = Accept el t"
        then have t: "nulterm t" by (rule parse_value_nulterm) (rule n4)
        have ret: "\<forall>m \<in> set (add_member ret key el). utf8_text (fst m) \<and> json_texts (snd m)"
          using a k(2) [OF key] result_okD(2) [OF v el] by (intro add_member_texts) simp_all
        show "result_ok out (c_bind (skip_space t) (\<lambda>s. read1 s (\<lambda>c s'.
           if c = 0x7D then Accept (node out (JObject (add_member ret key el))) s'
           else if c \<noteq> 0x2C then Reject
           else c_bind (skip_space s') (\<lambda>s. object_loop out (add_member ret key el) s))))"
        proof (rule result_ok_tail [OF t])
          show "json_texts (JObject (add_member ret key el))" using ret by simp
          fix c' s5 s6
          assume "skip_space t = Inr (c' # s5)" "c' \<noteq> 0x7D" "c' = 0x2C" "skip_space s5 = Inr s6"
            "nulterm s6"
          with 5(2) [OF key s2 s3 c s4 el] ret
          show "result_ok out (object_loop out (add_member ret key el) s6)" by blast
        qed
      qed
    qed
  qed
qed

section \<open>Validation and decoding accept the same texts\<close>

definition forget :: "'a option parse \<Rightarrow> 'b option parse" where
  "forget p = p_bind p (\<lambda>_ s. Accept None s)"

lemma forget_simps [simp]:
  "forget (Inl e) = Inl e" "forget Reject = Reject" "forget (Accept v s) = Accept None s"
  by (simp_all add: forget_def)

lemma p_bind_assoc: "p_bind (p_bind p f) g = p_bind p (\<lambda>v s. p_bind (f v s) g)"
  by (cases p rule: parse_cases) simp_all

lemma forget_p_bind: "forget (p_bind p f) = p_bind p (\<lambda>v s. forget (f v s))"
  by (simp add: forget_def p_bind_assoc)

lemma forget_c_bind: "forget (c_bind x f) = c_bind x (\<lambda>v. forget (f v))"
  by (cases x) simp_all

lemma forget_read1: "forget (read1 s k) = read1 s (\<lambda>c s. forget (k c s))"
  by (cases s) simp_all

lemma p_bind_forget: "p_bind (forget p) f = p_bind p (\<lambda>_ s. f None s)"
  by (cases p rule: parse_cases) simp_all

lemmas forget_push = forget_p_bind forget_c_bind forget_read1 p_bind_forget

lemma forget_if: "forget (if b then x else y) = (if b then forget x else forget y)"
  by simp

lemma parse_string_loop_forget:
  assumes "nulterm s" and "target_ok b"
  shows "parse_string_loop None s = forget (parse_string_loop b s)"
  using assms
proof (induction b s rule: parse_string_loop.induct)
  case (1 b s)
  then obtain c s' where s: "s = c # s'" by (cases s) auto
  show ?case
  proof (cases "c \<noteq> 0x22 \<and> returns (parse_char s) \<and> parse_char s \<noteq> Reject")
    case False
    then show ?thesis
      by (cases "parse_char s" rule: parse_cases)
        (auto simp: s parse_string_loop.simps [of _ "c # s'"] parse_string_loop.simps [of _ "0x22 # s'"]
          forget_push)
  next
    case True
    then obtain bs t where c: "parse_char s = Accept bs t"
      by (cases "parse_char s" rule: parse_cases) auto
    obtain b1 where b1: "put_char b bs = Inr b1" "target_ok b1"
      using 1(3) parse_char_enc [OF c] by (rule put_char_ok)
    have n: "put_char None bs = Inr None"
      using put_char_ok [OF _ parse_char_enc [OF c], of None] by (auto simp: target_ok_def)
    have "nulterm t" using c 1(2) parse_char_reads reads_nulterm by blast
    with "1.IH" [OF s _ c b1(1) _ b1(2)] True
    have "parse_string_loop None t = forget (parse_string_loop b1 t)" by simp
    with True c n b1(1) show ?thesis
      by (simp add: parse_string_loop.simps [of _ s]) (simp add: s forget_push)
  qed
qed

lemma parse_string_forget:
  assumes "nulterm s"
  shows "parse_string False s = forget (parse_string True s)"
proof -
  obtain c s' where s: "s = c # s'" using assms by (cases s) auto
  obtain sb where sb: "sb_need sb_init 4 = Inr sb" "target_ok (Some sb)" "sb_data sb = []"
    by (rule parse_string_init)
  show ?thesis
  proof (cases "c = 0x22")
    case True
    then have "nulterm s'" using assms s by simp
    note eq = parse_string_loop_forget [OF this sb(2)]
    show ?thesis
    proof (cases "parse_string_loop (Some sb) s'" rule: parse_cases)
      case (Accept b t)
      have "returns (parse_string True s)" by (rule parse_string_ok(1) [OF assms])
      then obtain str where "parse_string True s = Accept str t"
        using True Accept by (auto simp: parse_string_def s sb(1) returns_def c_iff split: option.splits)
      then show ?thesis using True eq Accept by (simp add: parse_string_def [of False] s)
    qed (use True eq in \<open>simp_all add: parse_string_def s sb(1)\<close>)
  qed (simp add: parse_string_def s)
qed

lemma parse_number_forget: "parse_number False s = forget (parse_number True s)"
  by (simp add: parse_number_def forget_push)

lemma node_False [simp]: "node False j = None"
  by (simp add: node_def)

lemma parsers_forget:
  "out \<and> nulterm s \<longrightarrow> parse_value False s = forget (parse_value out s)"
  "out \<and> nulterm s \<longrightarrow> parse_array False s = forget (parse_array out s)"
  "out \<and> nulterm s \<longrightarrow> (\<forall>es. array_loop False es s = forget (array_loop out ret s))"
  "out \<and> nulterm s \<longrightarrow> parse_object False s = forget (parse_object out s)"
  "out \<and> nulterm s \<longrightarrow> (\<forall>ms. object_loop False ms s = forget (object_loop out ret' s))"
proof (induction out s and out s and out ret s and out s and out ret' s rule: parser_induct)
  case (1 out s)
  show ?case
  proof (cases s)
    case (Cons c t)
    show ?thesis
      using 1 [OF Cons] parse_string_forget [of s]
      unfolding parse_value.simps [of _ s] forget_push forget_if
      by (auto intro!: read1_cong simp: forget_push parse_number_forget Cons)
  qed simp
next
  case (2 out s)
  show ?case
    unfolding parse_array.simps [of _ s] forget_push forget_if
  proof (intro impI read1_cong if_cong c_bind_cong refl, goal_cases)
    case (3 c u v d w)
    have "nulterm v" by (rule skip_space_nulterm [OF 3(4)]) (use 3 in auto)
    then show ?case using 3 2 [OF 3(2-6)] by simp
  qed simp_all
next
  case (3 out ret s)
  show ?case
  proof (intro impI allI)
    fix es
    assume a: "out \<and> nulterm s"
    with 3(1) have v: "parse_value False s = forget (parse_value out s)" by blast
    show "array_loop False es s = forget (array_loop out ret s)"
      unfolding array_loop.simps [of _ _ s] v forget_push forget_if
    proof (intro p_bind_cong c_bind_cong read1_cong refl, goal_cases)
      case (1 el t s2 c s3)
      have "nulterm s2" by (rule skip_space_nulterm [OF 1(2) parse_value_nulterm [OF 1(1)]]) (use a in simp)
      then show ?case
        using 1 a 3(2) [OF 1(1) 1(2) 1(3)]
        by (auto intro!: c_bind_cong simp: skip_space_nulterm add_element_def)
    qed
  qed
next
  case (4 out s)
  show ?case
    unfolding parse_object.simps [of _ s] forget_push forget_if
  proof (intro impI read1_cong if_cong c_bind_cong refl, goal_cases)
    case (3 c u v d w)
    have "nulterm v" by (rule skip_space_nulterm [OF 3(4)]) (use 3 in auto)
    then show ?case using 3 4 [OF 3(2-6)] by simp
  qed simp_all
next
  case (5 out ret s)
  show ?case
  proof (intro impI allI)
    fix ms
    assume a: "out \<and> nulterm s"
    then have k: "parse_string False s = forget (parse_string out s)"
      by (simp add: parse_string_forget)
    show "object_loop False ms s = forget (object_loop out ret s)"
      unfolding object_loop.simps [of _ _ s] k forget_push forget_if
    proof (rule p_bind_cong [OF refl], rule c_bind_cong [OF refl], rule read1_cong [OF refl],
        rule if_cong [OF refl], simp, rule c_bind_cong [OF refl], goal_cases)
      case (1 key s1 s2 c s3 s4)
      have n1: "nulterm s1" using 1(1) a parse_string_reads reads_nulterm by blast
      then have n4: "nulterm s4" using 1 by (auto dest!: skip_space_nulterm)
      note key_steps = 1(1-5)
      with 5(1) [OF 1(1-5)] a n4 have v: "parse_value False s4 = forget (parse_value out s4)" by blast
      show ?case
        unfolding v forget_push forget_if
      proof (intro p_bind_cong c_bind_cong read1_cong refl, goal_cases)
        case (1 el t s5 c s6)
        have "nulterm s5" by (rule skip_space_nulterm [OF 1(2) parse_value_nulterm [OF 1(1) n4]])
        then show ?case
          using 1 a key_steps 5(2) [OF key_steps 1(1) 1(2) 1(3)]
          by (auto intro!: c_bind_cong simp: skip_space_nulterm add_member_def split: option.split)
      qed
    qed
  qed
qed

section \<open>What the callers rely on\<close>

lemma decode_tail_returns:
  assumes "nulterm s"
  shows "returns (c_bind (skip_space s) (\<lambda>s. read1 s (\<lambda>c _. if c \<noteq> 0 then Inr a else Inr b)))"
  using assms by (intro returns_intros skip_space_returns) (auto intro: skip_space_nulterm)

lemma json_decode_cases:
  assumes "nulterm s"
  obtains s1 where "skip_space s = Inr s1" and "nulterm s1" and "result_ok True (parse_value True s1)"
proof -
  obtain s1 where "skip_space s = Inr s1" using skip_space_returns [OF assms] by (rule returnsE)
  then show ?thesis using that parsers_ok(1) skip_space_nulterm [OF _ assms] by blast
qed

lemma decode_safe:
  assumes "nulterm s"
  shows "\<exists>r. json_decode s = Inr r \<and> (\<forall>v. r = Some v \<longrightarrow> json_texts v)"
proof -
  obtain s1 where s1: "skip_space s = Inr s1" "nulterm s1" and ok: "result_ok True (parse_value True s1)"
    by (rule json_decode_cases [OF assms])
  show ?thesis
  proof (cases "parse_value True s1" rule: parse_cases)
    case (Accept v t)
    have t: "nulterm t" using Accept s1(2) by (rule parse_value_nulterm)
    from decode_tail_returns [OF t, of None v]
    obtain r where "c_bind (skip_space t) (\<lambda>s. read1 s (\<lambda>c _. if c \<noteq> 0 then Inr None else Inr v)) = Inr r"
      by (rule returnsE)
    with Accept show ?thesis
      using result_okD(2) [OF ok Accept] by (auto simp: json_decode_def s1(1) c_iff split: if_splits)
  qed (use ok in \<open>auto simp: json_decode_def s1(1) result_ok_def\<close>)
qed

text \<open>C2: \<open>json_decode\<close> returns on every zero-terminated memory: no read behind the zero, no
  write outside the string buffer, no failed assertion; and when it accepts, every string of the
  decoded value is valid UTF-8 without zero bytes.\<close>

theorem json_decode_safe:
  assumes "nulterm s"
  shows "\<exists>r. json_decode s = Inr r \<and> (\<forall>v. r = Some v \<longrightarrow> json_texts v)"
  using assms by (rule decode_safe)

theorem json_decode_safe_witness:
  "\<exists>r. json_decode (ascii ''{[null'' @ [0, 0x7D]) = Inr r \<and> (\<forall>v. r = Some v \<longrightarrow> json_texts v)"
  by (rule json_decode_safe) code_simp

lemma validate_decode_eq:
  assumes "nulterm s"
  shows "json_validate s = c_bind (json_decode s) (\<lambda>r. Inr (r \<noteq> None))"
proof -
  obtain s1 where s1: "skip_space s = Inr s1" "nulterm s1" and ok: "result_ok True (parse_value True s1)"
    by (rule json_decode_cases [OF assms])
  have eq: "parse_value False s1 = forget (parse_value True s1)" using parsers_forget(1) s1(2) by blast
  show ?thesis
  proof (cases "parse_value True s1" rule: parse_cases)
    case (Accept v t)
    then have "v \<noteq> None" using ok by (simp add: result_ok_def)
    then show ?thesis
      by (cases "skip_space t"; simp add: json_decode_def json_validate_def s1(1) eq Accept)
        (auto simp: read1_def split: list.split)
  qed (simp_all add: json_decode_def json_validate_def s1(1) eq)
qed

text \<open>C33: \<open>json_validate\<close>, which builds nothing, says of every C string exactly whether
  \<open>json_decode\<close> accepts it.\<close>

theorem json_validate_decode:
  assumes "nulterm s"
  shows "json_validate s = c_bind (json_decode s) (\<lambda>r. Inr (r \<noteq> None))"
  using assms by (rule validate_decode_eq)

theorem json_validate_decode_witness:
  "json_validate (ascii ''[true,{}]'' @ [0]) = c_bind (json_decode (ascii ''[true,{}]'' @ [0])) (\<lambda>r. Inr (r \<noteq> None))
   \<and> json_validate (ascii ''[true,{}]'' @ [0]) = Inr True"
proof
  show "json_validate (ascii ''[true,{}]'' @ [0]) = c_bind (json_decode (ascii ''[true,{}]'' @ [0])) (\<lambda>r. Inr (r \<noteq> None))"
    by (rule json_validate_decode) code_simp
  show "json_validate (ascii ''[true,{}]'' @ [0]) = Inr True"
    by code_simp
qed

end
