(* ===== verification/Json_Number.thy ===== *)
theory Json_Number
  imports Json_Safety
begin

text \<open>
  The numbers of json.c. The grammar of the comment over \<open>parse_number\<close> is the predicate
  \<open>json_number\<close>; the parser accepts exactly its longest match. What \<open>%.16g\<close> prints for a finite
  double is such a number, short enough for the buffer of \<open>emit_number\<close>; and \<open>strtod\<close>, which is
  called on the whole rest of the text, reads exactly the number the parser has checked.
\<close>

section \<open>The grammar\<close>

definition digits :: "byte list \<Rightarrow> bool" where
  "digits ds \<longleftrightarrow> ds \<noteq> [] \<and> (\<forall>c \<in> set ds. is_digit c)"

definition json_sign :: "byte list \<Rightarrow> bool" where
  "json_sign s \<longleftrightarrow> s = [] \<or> s = [0x2D]"

definition json_int :: "byte list \<Rightarrow> bool" where
  "json_int i \<longleftrightarrow> i = [0x30] \<or> digits i \<and> hd i \<noteq> 0x30"

definition json_frac :: "byte list \<Rightarrow> bool" where
  "json_frac f \<longleftrightarrow> f = [] \<or> (\<exists>ds. f = 0x2E # ds \<and> digits ds)"

definition json_exp :: "byte list \<Rightarrow> bool" where
  "json_exp e \<longleftrightarrow> e = [] \<or>
     (\<exists>l sgn ds. e = l # sgn @ ds \<and> (l = 0x45 \<or> l = 0x65)
        \<and> (sgn = [] \<or> sgn = [0x2B] \<or> sgn = [0x2D]) \<and> digits ds)"

definition json_number :: "byte list \<Rightarrow> bool" where
  "json_number n \<longleftrightarrow> (\<exists>s i f e. n = s @ i @ f @ e \<and> json_sign s \<and> json_int i \<and> json_frac f \<and> json_exp e)"

text \<open>A byte that cannot continue a number.\<close>

definition number_end :: "byte list \<Rightarrow> bool" where
  "number_end r \<longleftrightarrow> (\<exists>c t. r = c # t \<and> \<not> is_digit c \<and> c \<noteq> 0x2E \<and> c \<noteq> 0x45 \<and> c \<noteq> 0x65)"

definition no_digit :: "byte list \<Rightarrow> bool" where
  "no_digit r \<longleftrightarrow> (\<exists>c t. r = c # t \<and> \<not> is_digit c)"

lemma skip_digits_append: "\<forall>c \<in> set ds. is_digit c \<Longrightarrow> no_digit r \<Longrightarrow> skip_digits (ds @ r) = Accept () r"
  by (induction ds) (auto simp: no_digit_def)

lemma need_digits_append: "digits ds \<Longrightarrow> no_digit r \<Longrightarrow> need_digits (ds @ r) = Accept () r"
  by (cases ds) (auto simp: digits_def need_digits_def skip_digits_append)

lemma skip_digits_sound:
  "skip_digits s = Accept v r \<Longrightarrow> \<exists>ds. s = ds @ r \<and> (\<forall>c \<in> set ds. is_digit c)"
proof (induction s)
  case (Cons c s)
  then show ?case
    by (cases "is_digit c") (auto intro: exI [of _ "c # ds" for ds])
qed simp

lemma need_digits_sound: "need_digits s = Accept v r \<Longrightarrow> \<exists>ds. s = ds @ r \<and> digits ds"
  by (cases s) (fastforce simp: need_digits_def digits_def split: if_splits dest!: skip_digits_sound
      intro: exI [of _ "c # ds" for c ds])+

lemma number_end_no_digit: "number_end r \<Longrightarrow> no_digit r"
  by (auto simp: number_end_def no_digit_def)

lemma json_exp_no_digit: "json_exp e \<Longrightarrow> number_end r \<Longrightarrow> no_digit (e @ r)"
  by (auto simp: json_exp_def no_digit_def number_end_def is_digit_def)

lemma json_frac_no_digit: "json_frac f \<Longrightarrow> json_exp e \<Longrightarrow> number_end r \<Longrightarrow> no_digit (f @ e @ r)"
  by (auto simp: json_frac_def no_digit_def is_digit_def dest: json_exp_no_digit)

lemma digits_Cons: "digits (c # ds) \<Longrightarrow> is_digit c"
  by (simp add: digits_def)

lemma parse_sign_ok: "json_sign s \<Longrightarrow> json_int i \<Longrightarrow> parse_sign (s @ i @ t) = Accept () (i @ t)"
  by (cases i) (auto simp: json_sign_def json_int_def parse_sign_def digits_def is_digit_def)

lemma parse_int_ok: "json_int i \<Longrightarrow> no_digit t \<Longrightarrow> parse_int_part (i @ t) = Accept () t"
  by (cases i) (auto simp: json_int_def parse_int_part_def digits_def
      dest: need_digits_append [of i] intro: need_digits_append [of "c # is" for c "is", simplified])

lemma parse_frac_ok:
  assumes "json_frac f" and "json_exp e" and "number_end r"
  shows "parse_frac_part (f @ e @ r) = Accept () (e @ r)"
proof -
  have nd: "no_digit (e @ r)" using assms(2,3) by (rule json_exp_no_digit)
  have "\<exists>c t. e @ r = c # t \<and> c \<noteq> 0x2E"
    using assms(2,3) by (auto simp: json_exp_def number_end_def)
  with nd show ?thesis
    using assms(1) by (auto simp: json_frac_def parse_frac_part_def need_digits_append)
qed

lemma parse_exp_ok:
  assumes "json_exp e" and "number_end r"
  shows "parse_exp_part (e @ r) = Accept () r"
proof (cases "e = []")
  case False
  then obtain l sgn ds where e: "e = l # sgn @ ds" "l = 0x45 \<or> l = 0x65"
    "sgn = [] \<or> sgn = [0x2B] \<or> sgn = [0x2D]" "digits ds"
    using assms(1) by (auto simp: json_exp_def)
  obtain d ds' where ds: "ds = d # ds'" "is_digit d" using e(4) by (cases ds) (auto simp: digits_def)
  have "d \<noteq> 0x2B" "d \<noteq> 0x2D" using ds(2) by (auto simp: is_digit_def)
  then show ?thesis
    using e(2,3) need_digits_append [OF e(4) number_end_no_digit [OF assms(2)]]
    by (auto simp: parse_exp_part_def e(1) ds(1))
qed (use assms(2) in \<open>auto simp: parse_exp_part_def number_end_def\<close>)

lemma parse_number_complete:
  assumes "json_number n" and "number_end r"
  shows "parse_number out (n @ r) = Accept (if out then Some (strtod (n @ r)) else None) r"
proof -
  obtain s i f e where n: "n = s @ i @ f @ e" "json_sign s" "json_int i" "json_frac f" "json_exp e"
    using assms(1) by (auto simp: json_number_def)
  have nd: "no_digit (f @ e @ r)" using n assms(2) by (intro json_frac_no_digit)
  show ?thesis
    using parse_sign_ok [OF n(2,3), of "f @ e @ r"] parse_int_ok [OF n(3) nd]
      parse_frac_ok [OF n(4,5) assms(2)] parse_exp_ok [OF n(5) assms(2)]
    by (simp add: parse_number_def n(1))
qed

lemma parse_number_sound:
  assumes "parse_number out s = Accept v r"
  shows "\<exists>n. s = n @ r \<and> json_number n \<and> v = (if out then Some (strtod s) else None)"
proof -
  obtain s1 s2 s3 where p: "parse_sign s = Accept () s1" "parse_int_part s1 = Accept () s2"
    "parse_frac_part s2 = Accept () s3" "parse_exp_part s3 = Accept () r"
    and v: "v = (if out then Some (strtod s) else None)"
    using assms by (auto simp: parse_number_def c_iff)
  obtain sg where sg: "s = sg @ s1" "json_sign sg"
    using p(1) by (cases s) (auto simp: parse_sign_def json_sign_def split: if_splits)
  obtain i where i: "s1 = i @ s2" "json_int i"
  proof (cases "\<exists>t. s1 = 0x30 # t")
    case True
    then show ?thesis using p(2) that [of "[0x30]"] by (auto simp: parse_int_part_def json_int_def)
  next
    case False
    then have "need_digits s1 = Accept () s2"
      using p(2) by (cases s1) (auto simp: parse_int_part_def)
    then obtain ds where "s1 = ds @ s2" "digits ds" using need_digits_sound by blast
    with False show ?thesis by (intro that [of ds]) (auto simp: json_int_def digits_def neq_Nil_conv)
  qed
  obtain f where f: "s2 = f @ s3" "json_frac f"
  proof (cases "\<exists>t. s2 = 0x2E # t")
    case True
    then obtain t where t: "s2 = 0x2E # t" "need_digits t = Accept () s3"
      using p(3) by (auto simp: parse_frac_part_def)
    then obtain ds where "t = ds @ s3" "digits ds" using need_digits_sound by blast
    with t show ?thesis by (intro that [of "0x2E # ds"]) (auto simp: json_frac_def)
  next
    case False
    then show ?thesis using p(3) that [of "[]"] by (cases s2) (auto simp: parse_frac_part_def json_frac_def)
  qed
  obtain e where e: "s3 = e @ r" "json_exp e"
  proof (cases "\<exists>l t. s3 = l # t \<and> (l = 0x45 \<or> l = 0x65)")
    case True
    then obtain l t where t: "s3 = l # t" "l = 0x45 \<or> l = 0x65" by blast
    then obtain sgn t' where sgn: "t = sgn @ t'" "sgn = [] \<or> sgn = [0x2B] \<or> sgn = [0x2D]"
      "need_digits t' = Accept () r"
    proof (cases t)
      case (Cons d t2)
      then show ?thesis
        using p(4) t that [of "[d]" t2] that [of "[]" t] by (auto simp: parse_exp_part_def split: if_splits)
    qed (use p(4) t in \<open>simp add: parse_exp_part_def\<close>)
    then obtain ds where "t' = ds @ r" "digits ds" using need_digits_sound by blast
    with t sgn show ?thesis by (intro that [of "l # sgn @ ds"]) (auto simp: json_exp_def)
  next
    case False
    then show ?thesis using p(4) that [of "[]"] by (cases s3) (auto simp: parse_exp_part_def json_exp_def)
  qed
  have "json_number (sg @ i @ f @ e)" using sg i f e by (auto simp: json_number_def)
  then show ?thesis using sg i f e v by (intro exI [of _ "sg @ i @ f @ e"]) simp
qed

section \<open>What \<open>%.16g\<close> prints\<close>

lemma json_numberI:
  "json_int i \<Longrightarrow> \<forall>c \<in> set f. is_digit c \<Longrightarrow> json_exp e \<Longrightarrow> json_number (fmt_sign neg @ with_point i f @ e)"
  unfolding json_number_def
  by (intro exI [of _ "fmt_sign neg"] exI [of _ i] exI [of _ "if f = [] then [] else 0x2E # f"] exI [of _ e])
    (auto simp: json_sign_def json_frac_def fmt_sign_def with_point_def digits_def)

lemma json_int_dec_digits [simp]: "json_int (dec_digits n)"
  by (cases "n = 0") (auto simp: json_int_def digits_def dec_digits_hd dec_digits_digits)

lemma json_int_zero [simp]: "json_int [0x30]"
  by (simp add: json_int_def)

lemma json_exp_Nil [simp]: "json_exp []"
  by (simp add: json_exp_def)

lemma digit_zero [simp]: "is_digit 0x30"
  by (simp add: is_digit_def)

lemma json_exp_fmt [simp]: "json_exp (fmt_exponent e)"
proof -
  let ?ds = "(if \<bar>e\<bar> < 10 then [0x30] else []) @ dec_digits (nat \<bar>e\<bar>)"
  have "digits ?ds" using dec_digits_digits by (auto simp: digits_def)
  then show ?thesis
    unfolding json_exp_def fmt_exponent_def
    by (intro disjI2 exI [of _ "0x65"] exI [of _ "[if e < 0 then 0x2D else 0x2B]"] exI [of _ ?ds]) auto
qed

lemma strip_zeros_digits: "\<forall>c \<in> set ds. is_digit c \<Longrightarrow> \<forall>c \<in> set (strip_zeros ds). is_digit c"
  using strip_zeros_subset by blast

lemma fmt_g16_pos_number: "json_number (fmt_sign neg @ fmt_g16_pos x)"
proof -
  obtain m e where me: "significant16 x = (m, e)" by (cases "significant16 x")
  note digits = strip_zeros_digits [OF dec_pad_digits]
  show ?thesis
    using json_numberI [of "dec_digits (m div 10 ^ nat (15 - e))"
        "strip_zeros (dec_pad (nat (15 - e)) (m mod 10 ^ nat (15 - e)))" "[]" neg]
      json_numberI [of "[0x30]" "replicate (nat (- e - 1)) 0x30 @ strip_zeros (dec_pad 16 m)" "[]" neg]
      json_numberI [of "dec_digits (m div 10 ^ 15)" "strip_zeros (dec_pad 15 (m mod 10 ^ 15))"
        "fmt_exponent e" neg]
    by (auto simp: fmt_g16_pos_def me Let_def digits set_replicate_conv_if simp del: dec_pad.simps)
qed

lemma json_number_zero: "json_number [0x30]" "json_number [0x2D, 0x30]"
  using json_numberI [of "[0x30]" "[]" "[]" False] json_numberI [of "[0x30]" "[]" "[]" True]
  by (simp_all add: fmt_sign_def with_point_def)

lemma ascii_zero: "ascii ''0'' = [0x30]" "ascii ''-0'' = [0x2D, 0x30]"
  by (simp_all add: ascii_def of_char_def)

lemma fmt_g16_number: "finite_value d \<noteq> None \<Longrightarrow> json_number (fmt_g16 d)"
  by (cases d) (auto simp: fmt_g16_def json_number_zero fmt_g16_pos_number ascii_zero)

lemma fmt_g16_pos_length:
  assumes "0 < x" and "\<bar>ilog 10 x\<bar> < 9999"
  shows "length (fmt_g16_pos x) \<le> 40"
proof -
  obtain m e where me: "significant16 x = (m, e)" by (cases "significant16 x")
  have r: "m < 10 ^ 16" "\<bar>e\<bar> < 10 ^ 4"
    using significant16_range [OF assms(1) me] assms(2) by auto
  have len: "length (with_point i (strip_zeros f)) \<le> length i + 1 + length f" for i f
    using strip_zeros_length [of f] by (simp add: with_point_def)
  have int: "length (dec_digits (m div 10 ^ k)) \<le> 16" for k
    by (rule dec_digits_length [OF le_less_trans [OF div_le_dividend r(1)]]) simp
  have "nat \<bar>e\<bar> < 10 ^ 4" using r(2) by simp
  then have "length (dec_digits (nat \<bar>e\<bar>)) \<le> 4" by (rule dec_digits_length) simp
  then have ex: "length (fmt_exponent e) \<le> 7" by (simp add: fmt_exponent_def)
  consider "0 \<le> e" "e < 16" | "- 4 \<le> e" "e < 0" | "\<not> (0 \<le> e \<and> e < 16)" "\<not> (- 4 \<le> e \<and> e < 0)"
    by linarith
  then show ?thesis
  proof cases
    case 1
    then show ?thesis
      using int [of "nat (15 - e)"]
        len [of "dec_digits (m div 10 ^ nat (15 - e))" "dec_pad (nat (15 - e)) (m mod 10 ^ nat (15 - e))"]
      by (simp add: fmt_g16_pos_def me Let_def)
  next
    case 2
    then have "nat (- e - 1) \<le> 3" by simp
    with 2 show ?thesis
      using strip_zeros_length [of "dec_pad 16 m"]
      by (simp add: fmt_g16_pos_def me with_point_def del: dec_pad.simps)
  next
    case 3
    then show ?thesis
      using int [of 15] ex len [of "dec_digits (m div 10 ^ 15)" "dec_pad 15 (m mod 10 ^ 15)"]
      by (auto simp: fmt_g16_pos_def me simp del: dec_pad.simps)
  qed
qed

lemma representable_ilog10:
  assumes "representable x" and "0 < x"
  shows "\<bar>ilog 10 x\<bar> < 9999"
proof -
  note b = representable_bounds [OF assms]
  have i: "pow_int 10 (ilog 10 x) \<le> x" "x < pow_int 10 (ilog 10 x + 1)"
    using ilog_bounds [of 10 x] assms(2) by simp_all
  have "pow_int 2 1024 \<le> pow_int 10 1024"
    using power_mono [of "2 :: rat" 10 1024] by (simp add: pow_int_def del: power_numeral)
  then have "pow_int 10 (ilog 10 x) < pow_int 10 1024" using i(1) b(2) by (simp only:)
  then have "ilog 10 x < 1024" by (simp only: pow_int_less_iff)
  moreover have "pow_int 10 (- 1074) \<le> pow_int 2 (- 1074)"
    using power_mono [of "2 :: rat" 10 1074] by (simp add: pow_int_def frac_le del: power_numeral)
  then have "pow_int 10 (- 1074) < pow_int 10 (ilog 10 x + 1)" using i(2) b(1) by (simp only:)
  then have "- 1074 < ilog 10 x + 1" by (simp only: pow_int_less_iff)
  ultimately show ?thesis by simp
qed

lemma fmt_g16_length: "valid_double d \<Longrightarrow> length (fmt_g16 d) \<le> 41"
proof (cases d)
  case (DFin r)
  assume "valid_double d"
  then have "representable \<bar>r\<bar>" by (cases "0 \<le> r") (simp_all add: DFin representable_minus)
  then have "length (fmt_g16_pos \<bar>r\<bar>) \<le> 40" if "r \<noteq> 0"
    using that representable_ilog10 [of "\<bar>r\<bar>"] fmt_g16_pos_length [of "\<bar>r\<bar>"] by simp
  then show ?thesis by (cases "r < 0") (auto simp: fmt_g16_def DFin fmt_sign_def ascii_def)
qed (simp_all add: fmt_g16_def fmt_sign_def ascii_def)

section \<open>What \<open>strtod\<close> reads\<close>

text \<open>
  The parser hands \<open>strtod\<close> the memory from the first byte of the number to the end of the text.
  Behind a number of an accepted text comes one of these bytes (an \<open>x\<close>, for example, does not).
\<close>

definition value_end :: "byte list \<Rightarrow> bool" where
  "value_end r \<longleftrightarrow> (\<exists>c t. r = c # t \<and> c \<in> {0x00, 0x09, 0x0A, 0x0D, 0x20, 0x2C, 0x5D, 0x7D})"

definition tail_ok :: "byte list \<Rightarrow> bool" where
  "tail_ok r \<longleftrightarrow> r = [] \<or> value_end r"

lemma value_end_number_end: "value_end r \<Longrightarrow> number_end r"
  by (auto simp: value_end_def number_end_def is_digit_def)

lemma tail_ok_hd: "tail_ok (c # t) \<Longrightarrow> \<not> is_digit c \<and> c \<noteq> 0x2E \<and> tolower c \<noteq> 0x65 \<and> tolower c \<noteq> 0x78"
  by (auto simp: tail_ok_def value_end_def is_digit_def tolower_def)

lemma takeWhile_digits:
  "\<forall>c \<in> set ds. is_digit c \<Longrightarrow> r = [] \<or> no_digit r \<Longrightarrow>
   takeWhile is_digit (ds @ r) = ds \<and> dropWhile is_digit (ds @ r) = r"
  by (induction ds) (auto simp: no_digit_def)

lemma tail_no_digit: "tail_ok r \<Longrightarrow> r = [] \<or> no_digit r"
  by (cases r) (auto simp: no_digit_def dest: tail_ok_hd)

lemma read_exponent_append:
  assumes "json_exp e" and "tail_ok r"
  shows "read_exponent 0x65 (e @ r) = read_exponent 0x65 e"
proof (cases "e = []")
  case True
  then show ?thesis using assms(2) by (cases r) (auto simp: read_exponent_def dest: tail_ok_hd)
next
  case False
  then obtain l sgn ds where e: "e = l # sgn @ ds" "l = 0x45 \<or> l = 0x65"
    "sgn = [] \<or> sgn = [0x2B] \<or> sgn = [0x2D]" "digits ds"
    using assms(1) by (auto simp: json_exp_def)
  obtain d ds' where ds: "ds = d # ds'" "is_digit d" using e(4) by (cases ds) (auto simp: digits_def)
  have d: "d \<noteq> 0x2B" "d \<noteq> 0x2D" using ds(2) by (auto simp: is_digit_def)
  have l: "tolower l = 0x65" using e(2) by (auto simp: tolower_def)
  have "takeWhile is_digit (ds @ r) = ds" "takeWhile is_digit (ds @ []) = ds"
    using e(4) takeWhile_digits [OF _ tail_no_digit [OF assms(2)], of ds] takeWhile_digits [of ds "[]"]
    by (simp_all add: digits_def)
  with d show ?thesis
    using e(3) by (auto simp: read_exponent_def e(1) l read_sign_def ds(1))
qed

definition number_value :: "byte list \<Rightarrow> byte list \<Rightarrow> byte list \<Rightarrow> byte list \<Rightarrow> double" where
  "number_value s i f e = signed_round (s \<noteq> [])
     (of_nat (nat_of_digits (i @ tl f)) * pow_int 10 (read_exponent 0x65 e - int (length (tl f))))"

lemma exp_tail_no_digit:
  assumes "json_exp e" and "tail_ok r"
  shows "e @ r = [] \<or> no_digit (e @ r)" and "e @ r = c # t \<Longrightarrow> c \<noteq> 0x2E"
    and "e @ r = c # t \<Longrightarrow> tolower c \<noteq> 0x78"
  using assms tail_no_digit [OF assms(2)]
  by (auto simp: json_exp_def no_digit_def is_digit_def tolower_def dest: tail_ok_hd)

lemma frac_tail_no_digit:
  assumes "json_frac f" and "json_exp e" and "tail_ok r"
  shows "f @ e @ r = [] \<or> no_digit (f @ e @ r)" and "f @ e @ r = c # t \<Longrightarrow> tolower c \<noteq> 0x78"
  using assms(1) exp_tail_no_digit [OF assms(2,3)]
  by (auto simp: json_frac_def no_digit_def is_digit_def tolower_def)

lemma read_mantissa_number:
  assumes "json_int i" and "json_frac f" and "json_exp e" and "tail_ok r"
  shows "read_mantissa is_digit (i @ f @ e @ r) = (i, tl f, e @ r)"
proof -
  have i: "\<forall>c \<in> set i. is_digit c" using assms(1) by (auto simp: json_int_def digits_def)
  note tw = takeWhile_digits [OF i frac_tail_no_digit(1) [OF assms(2-4)]]
  show ?thesis
  proof (cases "f = []")
    case True
    then show ?thesis
      using tw exp_tail_no_digit(2) [OF assms(3,4)]
      by (auto simp: read_mantissa_def Let_def split: list.split)
  next
    case False
    then obtain ds where f: "f = 0x2E # ds" "digits ds" using assms(2) by (auto simp: json_frac_def)
    then show ?thesis
      using tw takeWhile_digits [OF _ exp_tail_no_digit(1) [OF assms(3,4)], of ds]
      by (simp add: read_mantissa_def Let_def digits_def)
  qed
qed

lemma strtod_number:
  assumes "json_sign s" and "json_int i" and "json_frac f" and "json_exp e" and "tail_ok r"
  shows "strtod (s @ i @ f @ e @ r) = number_value s i f e"
proof -
  obtain d i' where i: "i = d # i'" "is_digit d" and i': "d = 0x30 \<longrightarrow> i' = []"
    using assms(2) by (cases i) (auto simp: json_int_def digits_def)
  have d: "d \<noteq> 0x2D" "d \<noteq> 0x2B" "\<not> isspace d" "tolower d = d" "d \<noteq> 0x69" "d \<noteq> 0x6E"
    using i(2) by (auto simp: is_digit_def isspace_def tolower_def word_le_nat_alt)
  have sign: "read_sign (dropWhile isspace (s @ i @ f @ e @ r)) = (s \<noteq> [], i @ f @ e @ r)"
    using assms(1) d(1-3) by (auto simp: json_sign_def read_sign_def i(1) isspace_def)
  have word: "\<not> has_prefix ''inf'' (i @ f @ e @ r)" "\<not> has_prefix ''nan'' (i @ f @ e @ r)"
    using d by (simp_all add: has_prefix_def i(1) ascii_def of_char_def)
  have hex: "\<not> has_prefix ''0x'' (i @ f @ e @ r)"
  proof (cases "d = 0x30")
    case True
    then show ?thesis
      using i' frac_tail_no_digit(2) [OF assms(3-5)]
      by (cases "f @ e @ r") (auto simp: has_prefix_def i(1) ascii_def of_char_def)
  next
    case False
    then show ?thesis using d by (simp add: has_prefix_def i(1) ascii_def of_char_def)
  qed
  have "i \<noteq> []" by (simp add: i(1))
  then show ?thesis
    using read_exponent_append [OF assms(4,5)]
    by (simp add: strtod_def sign word hex strtod_dec_def read_mantissa_number [OF assms(2-5)]
        number_value_def)
qed

lemma strtod_append: "json_number n \<Longrightarrow> tail_ok r \<Longrightarrow> strtod (n @ r) = strtod n"
proof -
  assume n: "json_number n" and r: "tail_ok r"
  obtain s i f e where p: "n = s @ i @ f @ e" "json_sign s" "json_int i" "json_frac f" "json_exp e"
    using n by (auto simp: json_number_def)
  have "tail_ok []" by (simp add: tail_ok_def)
  with p r show ?thesis
    using strtod_number [OF p(2-5) r] strtod_number [OF p(2-5), of "[]"] by simp
qed

section \<open>Numbers that survive printing and reading\<close>

definition num_ok :: "double \<Rightarrow> bool" where
  "num_ok d \<longleftrightarrow> finite_value d \<noteq> None \<and> strtod (fmt_g16 d) = d"

lemma dec_pad_zero: "dec_pad k 0 = replicate k 0x30"
  by (induction k) (simp_all add: digit_def replicate_append_same)

lemma fmt_g16_pos_nat:
  assumes "0 < n" and "n < 10 ^ 15"
  shows "fmt_g16_pos (of_nat n) = dec_digits n"
proof -
  let ?e = "ilog 10 (of_nat n)"
  have x: "0 < (of_nat n :: rat)" using assms(1) by simp
  have b: "pow_int 10 ?e \<le> of_nat n" "of_nat n < pow_int 10 (?e + 1)"
    using ilog_bounds [OF _ x, of 10] by simp_all
  have "(1 :: rat) \<le> of_nat n" using assms(1) by simp
  then have "pow_int 10 0 < pow_int 10 (?e + 1)" using b(2) by simp
  then have e0: "0 \<le> ?e" by (simp only: pow_int_less_iff)
  have "(of_nat n :: rat) < of_nat (10 ^ 15)" using assms(2) by (simp only: of_nat_less_iff)
  then have "pow_int 10 ?e < pow_int 10 15" using b(1) pow_int_nat [of 10 15] by simp
  then have e15: "?e < 15" by (simp only: pow_int_less_iff)
  let ?k = "nat (15 - ?e)"
  have "pow_int 10 (?e - 15) * 10 ^ ?k = pow_int 10 0"
    using pow_int_add [of 10 "?e - 15" "15 - ?e"] e15 by (simp add: pow_int_def)
  then have "of_nat n / pow_int 10 (?e - 15) = of_nat n * 10 ^ ?k"
    by (simp add: divide_inverse inverse_unique)
  also have "\<dots> = of_int (int (n * 10 ^ ?k))" by simp
  finally have m: "round_even (of_nat n / pow_int 10 (?e - 15)) = int (n * 10 ^ ?k)"
    by (simp only: round_even_int)
  have "of_nat n * 10 ^ ?k < pow_int 10 (?e + 1) * 10 ^ ?k" using b(2) by simp
  also have "\<dots> = pow_int 10 16"
    using pow_int_add [of 10 "?e + 1" "15 - ?e"] e15 by (simp add: pow_int_def)
  finally have "of_nat (n * 10 ^ ?k) < (10 ^ 16 :: rat)" using pow_int_nat [of 10 16] by simp
  then have "n * 10 ^ ?k \<noteq> 10 ^ 16" by (metis less_irrefl of_nat_numeral of_nat_power)
  then have "significant16 (of_nat n) = (n * 10 ^ ?k, ?e)"
    by (simp only: significant16_def Let_def m nat_int if_False)
  moreover have "strip_zeros (dec_pad ?k 0) = []" by (auto simp: dec_pad_zero strip_zeros_Nil)
  ultimately show ?thesis using e0 e15 by (simp add: fmt_g16_pos_def Let_def with_point_def)
qed

lemma strtod_dec_digits: "tail_ok r \<Longrightarrow> strtod (fmt_sign neg @ dec_digits n @ r) = signed_round neg (of_nat n)"
  using strtod_number [of "fmt_sign neg" "dec_digits n" "[]" "[]" r]
  by (simp add: json_sign_def json_frac_def fmt_sign_def number_value_def read_exponent_def)

lemma fmt_g16_int:
  assumes "\<bar>i\<bar> < 10 ^ 15"
  shows "fmt_g16 (DFin (of_int i)) = fmt_d i"
proof (cases "i = 0")
  case False
  then have "fmt_g16_pos (of_nat (nat \<bar>i\<bar>)) = dec_digits (nat \<bar>i\<bar>)"
    using assms by (intro fmt_g16_pos_nat) (simp_all add: nat_less_iff)
  then show ?thesis using False by (simp add: fmt_g16_def fmt_d_def)
qed (simp add: fmt_g16_def fmt_d_def fmt_sign_def ascii_zero)

lemma num_ok_int:
  assumes "\<bar>i\<bar> < 10 ^ 15"
  shows "num_ok (DFin (of_int i))"
proof -
  have "representable (of_int i)" using assms by (intro representable_int) simp
  then have "signed_round (i < 0) (of_nat (nat \<bar>i\<bar>)) = DFin (of_int i)"
    by (cases "i < 0") (auto simp: signed_round_def d_zero_def round_double_exact)
  then show ?thesis
    using strtod_dec_digits [of "[]" "i < 0" "nat \<bar>i\<bar>"]
    by (simp add: num_ok_def fmt_g16_int [OF assms] fmt_d_def tail_ok_def)
qed

end
