(* ===== verification/Json_Emit.thy ===== *)
theory Json_Emit
  imports Json_Number
begin

text \<open>
  The printer of json.c: \<open>emit_string\<close>, \<open>emit_number\<close>, the compact and the indented printing
  of a value, and \<open>json_stringify\<close>. The definitions write to the buffer \<open>SB\<close> as the code does;
  \<open>render\<close> and \<open>render_indented\<close> say, without buffer, what is written. A string argument is the
  memory behind the pointer, so a stored string is followed by its zero byte.
\<close>

section \<open>Strings\<close>

definition escape_unicode :: bool where "escape_unicode = False"

text \<open>
  One round of the loop: what is written to \<open>b\<close>, and the moved \<open>s\<close>. The code behind the failed
  assertion (the replacement character) is not reached, because assertions are enabled.
\<close>

definition emit_char :: "byte list \<Rightarrow> (byte list \<times> byte list) cres" where
  "emit_char s = read1 s (\<lambda>c s'.
     if c = 0x22 then Inr ([0x5C, 0x22], s')
     else if c = 0x5C then Inr ([0x5C, 0x5C], s')
     else if c = 0x08 then Inr ([0x5C, 0x62], s')
     else if c = 0x0C then Inr ([0x5C, 0x66], s')
     else if c = 0x0A then Inr ([0x5C, 0x6E], s')
     else if c = 0x0D then Inr ([0x5C, 0x72], s')
     else if c = 0x09 then Inr ([0x5C, 0x74], s')
     else c_bind (utf8_validate_cz s) (\<lambda>len.
       if len = 0 then Inl AssertFail
       else if c < 0x1F \<or> (c \<ge> 0x80 \<and> escape_unicode) then
         c_bind (utf8_read_char s) (\<lambda>(n, unicode).
           if unicode \<le> 0xFFFF then Inr (0x5C # 0x75 # write_hex16 (ucast unicode), drop n s)
           else c_assert (unicode \<le> 0x10FFFF)
             (c_bind (to_surrogate_pair unicode) (\<lambda>(uc, lc).
               Inr (0x5C # 0x75 # write_hex16 uc @ 0x5C # 0x75 # write_hex16 lc, drop n s))))
       else Inr (take len s, drop len s)))"

lemma utf8_read_char_pos: "utf8_read_char s = Inr (n, u) \<Longrightarrow> 0 < n"
  by (auto simp: utf8_read_char_def c_iff split: if_splits)

lemma emit_char_shorter:
  assumes "emit_char s = Inr (bs, r)" shows "length r < length s"
proof -
  obtain c s' where s: "s = c # s'" using assms by (cases s) (auto simp: emit_char_def)
  from assms show ?thesis
    by (auto simp: emit_char_def s c_iff split: if_splits prod.splits dest!: utf8_read_char_pos)
qed

function emit_string_loop :: "SB \<Rightarrow> byte list \<Rightarrow> SB cres" where
  "emit_string_loop out s = read1 s (\<lambda>c _.
     if c = 0 then sb_write out [0x22]
     else c_bind (emit_char s) (\<lambda>(bs, r). c_bind (sb_write out bs) (\<lambda>out.
       c_bind (sb_need out 14) (\<lambda>out. emit_string_loop out r))))"
  by pat_completeness auto
termination
  by (relation "measure (\<lambda>(out, s). length s)") (auto dest: emit_char_shorter)

declare emit_string_loop.simps [simp del]

definition emit_string :: "SB \<Rightarrow> byte list \<Rightarrow> SB cres" where
  "emit_string out str = c_bind (utf8_validate str) (\<lambda>valid. c_assert valid
     (c_bind (sb_need out 14) (\<lambda>out. c_bind (sb_write out [0x22]) (\<lambda>out.
       emit_string_loop out str))))"

text \<open>
  The abstract view: because no byte of a longer UTF-8 sequence is below \<open>0x80\<close>, the loop
  over characters is a map over bytes.
\<close>

definition escape_byte :: "byte \<Rightarrow> byte list" where
  "escape_byte c =
     (if c = 0x22 then [0x5C, 0x22]
      else if c = 0x5C then [0x5C, 0x5C]
      else if c = 0x08 then [0x5C, 0x62]
      else if c = 0x0C then [0x5C, 0x66]
      else if c = 0x0A then [0x5C, 0x6E]
      else if c = 0x0D then [0x5C, 0x72]
      else if c = 0x09 then [0x5C, 0x74]
      else if c < 0x1F then 0x5C # 0x75 # write_hex16 (ucast c)
      else [c])"

definition render_string :: "byte list \<Rightarrow> byte list" where
  "render_string s = [0x22] @ concat (map escape_byte s) @ [0x22]"

lemma escape_high: "128 \<le> unat c \<Longrightarrow> escape_byte c = [c]"
  by (auto simp: escape_byte_def word_less_nat_alt)

lemma concat_escape_high: "\<forall>c \<in> set bs. 128 \<le> unat c \<Longrightarrow> concat (map escape_byte bs) = bs"
  by (induction bs) (simp_all add: escape_high)

lemma emit_char_ascii:
  assumes c: "c \<noteq> 0" "unat c < 128"
  shows "emit_char (c # t) = Inr (escape_byte c, t)"
proof -
  have u: "scalar (ucast c)" "utf8_enc (ucast c) = [c]"
    using c(2) by (simp_all add: scalar_iff scalar_value_def word_arith utf8_enc_ascii)
  have "utf8_validate_cz (c # t) = Inr 1" and "utf8_read_char (c # t) = Inr (1, ucast c)"
    using utf8_enc_valid [OF u(1), of t] utf8_enc_read [OF u(1), of t] by (simp_all add: u(2))
  moreover have "(ucast c :: uchar) \<le> 0xFFFF" "(ucast (ucast c :: uchar) :: u16) = ucast c"
    using c(2) by (simp_all add: word_le_nat_alt word_unat_eq_iff word_arith)
  ultimately show ?thesis
    by (simp add: emit_char_def escape_byte_def escape_unicode_def)
qed

lemma emit_char_enc:
  assumes "scalar u" and "u \<noteq> 0"
  shows "emit_char (utf8_enc u @ t) = Inr (concat (map escape_byte (utf8_enc u)), t)"
  using assms
proof (cases rule: utf8_enc_cases)
  case (ascii c)
  then show ?thesis by (simp add: emit_char_ascii)
next
  case (long c cs)
  have "128 \<le> unat c" using long by simp
  then have "c \<notin> {0x22, 0x5C, 0x08, 0x0C, 0x0A, 0x0D, 0x09}" "\<not> c < 0x1F"
    by (auto simp: word_less_nat_alt)
  then have "emit_char (utf8_enc u @ t) = Inr (utf8_enc u, t)"
    using utf8_enc_valid [OF assms(1), of t] utf8_enc_length [of u]
    by (auto simp: emit_char_def escape_unicode_def long(1))
  then show ?thesis by (simp only: concat_escape_high [OF long(2)])
qed

lemma escape_byte_length: "length (escape_byte c) \<le> 6"
  by (simp add: escape_byte_def write_hex16_def)

lemma escape_enc_length:
  assumes "scalar u" and "u \<noteq> 0"
  shows "length (concat (map escape_byte (utf8_enc u))) \<le> 12"
  using assms
proof (cases rule: utf8_enc_cases)
  case (ascii c)
  then show ?thesis using escape_byte_length [of c] by simp
next
  case (long c cs)
  then show ?thesis using concat_escape_high [OF long(2)] utf8_enc_length [of u] by simp
qed

lemma emit_string_loop_ok:
  assumes "utf8_text s" and "sb_inv out" and "13 \<le> sb_room out"
  shows "\<exists>out'. emit_string_loop out (s @ 0 # t) = Inr out' \<and> sb_inv out'
    \<and> sb_data out' = sb_data out @ concat (map escape_byte s) @ [0x22]"
  using assms
proof (induction s arbitrary: out rule: utf8_text.induct)
  case Nil
  have "length [0x22] \<le> sb_room out" using Nil(2) by simp
  with Nil(1) obtain out' where "sb_write out [0x22] = Inr out'" "sb_inv out'"
    "sb_data out' = sb_data out @ [0x22]" by (rule sb_writeE)
  then show ?case by (simp add: emit_string_loop.simps)
next
  case (Char u s)
  let ?bs = "concat (map escape_byte (utf8_enc u))"
  have "length ?bs \<le> sb_room out" using escape_enc_length [OF Char(1,2)] Char(6) by simp
  with Char(5) obtain out1 where out1: "sb_write out ?bs = Inr out1" "sb_inv out1"
    "sb_data out1 = sb_data out @ ?bs" by (rule sb_writeE)
  from out1(2) obtain out2 where out2: "sb_need out1 14 = Inr out2" "sb_inv out2"
    "sb_data out2 = sb_data out1" "14 \<le> sb_room out2" by (rule sb_needE)
  obtain c cs where c: "utf8_enc u = c # cs" "c \<noteq> 0"
    using utf8_enc_length [of u] utf8_enc_nul [OF Char(1,2)] by (cases "utf8_enc u") auto
  have "emit_string_loop out ((utf8_enc u @ s) @ 0 # t) = emit_string_loop out2 (s @ 0 # t)"
    using emit_char_enc [OF Char(1,2), of "s @ 0 # t"] out1(1) out2(1) c
    by (subst emit_string_loop.simps) (simp add: c)
  then show ?case using Char.IH [OF out2(2)] out2(3,4) out1(3) by simp
qed

lemma emit_string_ok:
  assumes "utf8_text s" and "sb_inv out"
  shows "\<exists>out'. emit_string out (s @ 0 # t) = Inr out' \<and> sb_inv out'
    \<and> sb_data out' = sb_data out @ render_string s"
proof -
  from assms(2) obtain out1 where out1: "sb_need out 14 = Inr out1" "sb_inv out1"
    "sb_data out1 = sb_data out" "14 \<le> sb_room out1" by (rule sb_needE)
  have "length [0x22] \<le> sb_room out1" using out1(4) by simp
  with out1(2) obtain out2 where out2: "sb_write out1 [0x22] = Inr out2" "sb_inv out2"
    "sb_data out2 = sb_data out1 @ [0x22]" "sb_room out2 = sb_room out1 - length [0x22 :: byte]"
    by (rule sb_writeE)
  have "13 \<le> sb_room out2" using out1(4) out2(4) by simp
  from emit_string_loop_ok [OF assms(1) out2(2) this, of t] show ?thesis
    using out1 out2(1,3) utf8_validate_text [OF assms(1), of t]
    by (auto simp: emit_string_def render_string_def)
qed

section \<open>Numbers\<close>

definition number_is_valid :: "byte list \<Rightarrow> bool cres" where
  "number_is_valid num = c_bind (parse_number False num) (\<lambda>p.
     case p of None \<Rightarrow> Inr False | Some (_, s) \<Rightarrow> read1 s (\<lambda>c _. Inr (c = 0)))"

text \<open>\<open>sprintf\<close> writes the number and a zero into 64 bytes of the stack.\<close>

definition emit_number :: "SB \<Rightarrow> double \<Rightarrow> SB cres" where
  "emit_number out num =
     (let buf = fmt_g16 num
      in if length buf + 1 > 64 then Inl OutOfBounds
         else c_bind (number_is_valid (buf @ [0])) (\<lambda>valid.
                if valid then sb_puts out buf else sb_puts out (ascii ''null'')))"

definition render_number :: "double \<Rightarrow> byte list" where
  "render_number d = (if finite_value d = None then ascii ''null'' else fmt_g16 d)"

section \<open>Values\<close>

text \<open>The loops of \<open>emit_array\<close> and \<open>emit_object\<close> are the second and the third function.\<close>

fun emit_value :: "SB \<Rightarrow> json \<Rightarrow> SB cres"
  and emit_elements :: "SB \<Rightarrow> json list \<Rightarrow> SB cres"
  and emit_members :: "SB \<Rightarrow> (byte list \<times> json) list \<Rightarrow> SB cres"
where
  "emit_value out JNull = sb_puts out (ascii ''null'')"
| "emit_value out (JBool b) = sb_puts out (if b then ascii ''true'' else ascii ''false'')"
| "emit_value out (JString s) = emit_string out (s @ [0])"
| "emit_value out (JNumber n) = emit_number out n"
| "emit_value out (JArray es) = c_bind (sb_putc out 0x5B) (\<lambda>out.
     c_bind (emit_elements out es) (\<lambda>out. sb_putc out 0x5D))"
| "emit_value out (JObject ms) = c_bind (sb_putc out 0x7B) (\<lambda>out.
     c_bind (emit_members out ms) (\<lambda>out. sb_putc out 0x7D))"
| "emit_elements out [] = Inr out"
| "emit_elements out (element # rest) = c_bind (emit_value out element) (\<lambda>out.
     c_bind (if rest \<noteq> [] then sb_putc out 0x2C else Inr out) (\<lambda>out. emit_elements out rest))"
| "emit_members out [] = Inr out"
| "emit_members out ((key, member) # rest) = c_bind (emit_string out (key @ [0])) (\<lambda>out.
     c_bind (sb_putc out 0x3A) (\<lambda>out. c_bind (emit_value out member) (\<lambda>out.
     c_bind (if rest \<noteq> [] then sb_putc out 0x2C else Inr out) (\<lambda>out. emit_members out rest))))"

text \<open>The indentation: \<open>space\<close> written \<open>k\<close> times.\<close>

definition emit_spaces :: "SB \<Rightarrow> byte list \<Rightarrow> nat \<Rightarrow> SB cres" where
  "emit_spaces out space k = append_each sb_puts out (replicate k space)"

fun emit_value_indented :: "SB \<Rightarrow> json \<Rightarrow> byte list \<Rightarrow> nat \<Rightarrow> SB cres"
  and emit_elements_indented :: "SB \<Rightarrow> json list \<Rightarrow> byte list \<Rightarrow> nat \<Rightarrow> SB cres"
  and emit_members_indented :: "SB \<Rightarrow> (byte list \<times> json) list \<Rightarrow> byte list \<Rightarrow> nat \<Rightarrow> SB cres"
where
  "emit_value_indented out JNull space level = sb_puts out (ascii ''null'')"
| "emit_value_indented out (JBool b) space level =
     sb_puts out (if b then ascii ''true'' else ascii ''false'')"
| "emit_value_indented out (JString s) space level = emit_string out (s @ [0])"
| "emit_value_indented out (JNumber n) space level = emit_number out n"
| "emit_value_indented out (JArray es) space level =
     (if es = [] then sb_puts out (ascii ''[]'')
      else c_bind (sb_puts out [0x5B, 0x0A]) (\<lambda>out.
        c_bind (emit_elements_indented out es space level) (\<lambda>out.
        c_bind (emit_spaces out space level) (\<lambda>out. sb_putc out 0x5D))))"
| "emit_value_indented out (JObject ms) space level =
     (if ms = [] then sb_puts out (ascii ''{}'')
      else c_bind (sb_puts out [0x7B, 0x0A]) (\<lambda>out.
        c_bind (emit_members_indented out ms space level) (\<lambda>out.
        c_bind (emit_spaces out space level) (\<lambda>out. sb_putc out 0x7D))))"
| "emit_elements_indented out [] space level = Inr out"
| "emit_elements_indented out (element # rest) space level =
     c_bind (emit_spaces out space (level + 1)) (\<lambda>out.
     c_bind (emit_value_indented out element space (level + 1)) (\<lambda>out.
     c_bind (sb_puts out (if rest \<noteq> [] then [0x2C, 0x0A] else [0x0A])) (\<lambda>out.
     emit_elements_indented out rest space level)))"
| "emit_members_indented out [] space level = Inr out"
| "emit_members_indented out ((key, member) # rest) space level =
     c_bind (emit_spaces out space (level + 1)) (\<lambda>out.
     c_bind (emit_string out (key @ [0])) (\<lambda>out.
     c_bind (sb_puts out [0x3A, 0x20]) (\<lambda>out.
     c_bind (emit_value_indented out member space (level + 1)) (\<lambda>out.
     c_bind (sb_puts out (if rest \<noteq> [] then [0x2C, 0x0A] else [0x0A])) (\<lambda>out.
     emit_members_indented out rest space level)))))"

definition json_stringify :: "json \<Rightarrow> byte list option \<Rightarrow> byte list cres" where
  "json_stringify value space =
     c_bind (case space of Some sp \<Rightarrow> emit_value_indented sb_init value sp 0
             | None \<Rightarrow> emit_value sb_init value) sb_finish"

definition json_encode :: "json \<Rightarrow> byte list cres" where
  "json_encode value = json_stringify value None"

definition json_encode_string :: "byte list \<Rightarrow> byte list cres" where
  "json_encode_string str = c_bind (emit_string sb_init str) sb_finish"

text \<open>What is written.\<close>

fun render :: "json \<Rightarrow> byte list"
  and render_elements :: "json list \<Rightarrow> byte list"
  and render_members :: "(byte list \<times> json) list \<Rightarrow> byte list"
where
  "render JNull = ascii ''null''"
| "render (JBool b) = (if b then ascii ''true'' else ascii ''false'')"
| "render (JString s) = render_string s"
| "render (JNumber n) = render_number n"
| "render (JArray es) = [0x5B] @ render_elements es @ [0x5D]"
| "render (JObject ms) = [0x7B] @ render_members ms @ [0x7D]"
| "render_elements [] = []"
| "render_elements (e # rest) =
     render e @ (if rest \<noteq> [] then [0x2C] else []) @ render_elements rest"
| "render_members [] = []"
| "render_members ((k, e) # rest) =
     render_string k @ [0x3A] @ render e @ (if rest \<noteq> [] then [0x2C] else []) @ render_members rest"

definition spaces :: "byte list \<Rightarrow> nat \<Rightarrow> byte list" where
  "spaces sp k = concat (replicate k sp)"

fun render_indented :: "byte list \<Rightarrow> nat \<Rightarrow> json \<Rightarrow> byte list"
  and render_elements_indented :: "byte list \<Rightarrow> nat \<Rightarrow> json list \<Rightarrow> byte list"
  and render_members_indented :: "byte list \<Rightarrow> nat \<Rightarrow> (byte list \<times> json) list \<Rightarrow> byte list"
where
  "render_indented sp n JNull = ascii ''null''"
| "render_indented sp n (JBool b) = (if b then ascii ''true'' else ascii ''false'')"
| "render_indented sp n (JString s) = render_string s"
| "render_indented sp n (JNumber d) = render_number d"
| "render_indented sp n (JArray es) = (if es = [] then ascii ''[]''
     else [0x5B, 0x0A] @ render_elements_indented sp n es @ spaces sp n @ [0x5D])"
| "render_indented sp n (JObject ms) = (if ms = [] then ascii ''{}''
     else [0x7B, 0x0A] @ render_members_indented sp n ms @ spaces sp n @ [0x7D])"
| "render_elements_indented sp n [] = []"
| "render_elements_indented sp n (e # rest) =
     spaces sp (n + 1) @ render_indented sp (n + 1) e
       @ (if rest \<noteq> [] then [0x2C, 0x0A] else [0x0A]) @ render_elements_indented sp n rest"
| "render_members_indented sp n [] = []"
| "render_members_indented sp n ((k, e) # rest) =
     spaces sp (n + 1) @ render_string k @ [0x3A, 0x20] @ render_indented sp (n + 1) e
       @ (if rest \<noteq> [] then [0x2C, 0x0A] else [0x0A]) @ render_members_indented sp n rest"

section \<open>The printer implements its description\<close>

text \<open>The values that can be printed: valid UTF-8 strings, and doubles that exist.\<close>

fun printable :: "json \<Rightarrow> bool" where
  "printable (JString s) = utf8_text s"
| "printable (JNumber d) = valid_double d"
| "printable (JArray es) = (\<forall>e \<in> set es. printable e)"
| "printable (JObject ms) = (\<forall>m \<in> set ms. utf8_text (fst m) \<and> printable (snd m))"
| "printable v = True"

text \<open>\<open>appends x out bs\<close>: the call \<open>x\<close> returns and has appended \<open>bs\<close> to \<open>out\<close>.\<close>

definition appends :: "SB cres \<Rightarrow> SB \<Rightarrow> byte list \<Rightarrow> bool" where
  "appends x out bs \<longleftrightarrow> (\<exists>out'. x = Inr out' \<and> sb_inv out' \<and> sb_data out' = sb_data out @ bs)"

lemma appends_Inr: "sb_inv out \<Longrightarrow> bs = [] \<Longrightarrow> appends (Inr out) out bs"
  by (simp add: appends_def)

lemma appends_bind:
  "appends x out as \<Longrightarrow> (\<And>out'. sb_inv out' \<Longrightarrow> appends (f out') out' bs) \<Longrightarrow>
   appends (c_bind x f) out (as @ bs)"
  by (fastforce simp: appends_def)

lemma appends_puts: "sb_inv out \<Longrightarrow> appends (sb_puts out bs) out bs"
  using sb.append_ok by (simp add: appends_def sb_puts_def)

lemma appends_putc: "sb_inv out \<Longrightarrow> appends (sb_putc out c) out [c]"
  by (rule sb_putcE [of out c]) (auto simp: appends_def)

lemma appends_spaces: "sb_inv out \<Longrightarrow> appends (emit_spaces out sp k) out (spaces sp k)"
  using sb.append_each_replicate [of out k sp]
  by (simp add: appends_def emit_spaces_def spaces_def sb_puts_def [abs_def])

lemma appends_string: "utf8_text s \<Longrightarrow> sb_inv out \<Longrightarrow> appends (emit_string out (s @ [0])) out (render_string s)"
  using emit_string_ok [of s out "[]"] by (simp add: appends_def)

lemma appends_comma: "sb_inv out \<Longrightarrow>
    appends (if b then sb_putc out 0x2C else Inr out) out (if b then [0x2C] else [])"
  by (simp add: appends_putc appends_Inr)

lemma number_is_valid_fmt: "number_is_valid (fmt_g16 d @ [0]) = Inr (finite_value d \<noteq> None)"
proof (cases "finite_value d = None")
  case True
  have "number_is_valid (ascii ''nan'' @ [0]) = Inr False"
    "number_is_valid (fmt_sign n @ ascii ''inf'' @ [0]) = Inr False" for n
    by (simp_all add: number_is_valid_def parse_number_def parse_sign_def parse_int_part_def
        need_digits_def is_digit_def ascii_def of_char_def fmt_sign_def)
  with True show ?thesis by (cases d) (simp_all add: fmt_g16_def)
next
  case False
  have "number_end [0]" by (simp add: number_end_def is_digit_def)
  with fmt_g16_number [OF False] False show ?thesis
    by (simp add: number_is_valid_def parse_number_complete)
qed

lemma appends_number:
  assumes "valid_double d" and "sb_inv out"
  shows "appends (emit_number out d) out (render_number d)"
  using fmt_g16_length [OF assms(1)] appends_puts [OF assms(2)]
  by (simp add: emit_number_def Let_def number_is_valid_fmt render_number_def)

lemmas appends_intros = appends_puts appends_putc appends_string appends_number appends_spaces
  appends_comma appends_bind appends_Inr

lemma appends_if: "(b \<Longrightarrow> appends x out xs) \<Longrightarrow> (\<not> b \<Longrightarrow> appends y out ys) \<Longrightarrow>
    appends (if b then x else y) out (if b then xs else ys)"
  by simp

lemma emit_appends:
  "printable v \<longrightarrow> (\<forall>out. sb_inv out \<longrightarrow> appends (emit_value out v) out (render v))"
  "(\<forall>e \<in> set es. printable e) \<longrightarrow>
     (\<forall>out. sb_inv out \<longrightarrow> appends (emit_elements out es) out (render_elements es))"
  "(\<forall>m \<in> set ms. utf8_text (fst m) \<and> printable (snd m)) \<longrightarrow>
     (\<forall>out. sb_inv out \<longrightarrow> appends (emit_members out ms) out (render_members ms))"
proof (induction v and es and ms rule: render_render_elements_render_members.induct)
qed (simp only: emit_value.simps emit_elements.simps emit_members.simps render.simps
        render_elements.simps render_members.simps;
      intro impI allI appends_intros; simp)+

lemma emit_indented_appends:
  "printable v \<longrightarrow> (\<forall>out. sb_inv out \<longrightarrow>
     appends (emit_value_indented out v sp n) out (render_indented sp n v))"
  "(\<forall>e \<in> set es. printable e) \<longrightarrow> (\<forall>out. sb_inv out \<longrightarrow>
     appends (emit_elements_indented out es sp n) out (render_elements_indented sp n es))"
  "(\<forall>m \<in> set ms. utf8_text (fst m) \<and> printable (snd m)) \<longrightarrow> (\<forall>out. sb_inv out \<longrightarrow>
     appends (emit_members_indented out ms sp n) out (render_members_indented sp n ms))"
proof (induction sp n v and sp n es and sp n ms
      rule: render_indented_render_elements_indented_render_members_indented.induct)
qed (simp only: emit_value_indented.simps emit_elements_indented.simps emit_members_indented.simps
        render_indented.simps render_elements_indented.simps render_members_indented.simps;
      intro impI allI appends_if appends_intros; simp)+

text \<open>The text printed, and that it holds no zero byte.\<close>

definition json_text :: "json \<Rightarrow> byte list option \<Rightarrow> byte list" where
  "json_text v space = (case space of None \<Rightarrow> render v | Some sp \<Rightarrow> render_indented sp 0 v)"

lemma hex_digits_nonzero: "i < 16 \<Longrightarrow> hex_digits ! i \<noteq> 0"
  using hex_value_digit [of i] by (auto simp: hex_value_def)

lemma escape_byte_no_nul: "c \<noteq> 0 \<Longrightarrow> no_nul (escape_byte c)"
  by (auto simp: escape_byte_def write_hex16_def hex_digits_nonzero word_arith)

lemma render_string_no_nul: "no_nul s \<Longrightarrow> no_nul (render_string s)"
  unfolding render_string_def by (induction s) (auto simp: escape_byte_no_nul)

lemma digits_no_nul: "\<forall>c \<in> set ds. is_digit c \<Longrightarrow> no_nul ds"
  by (auto simp: no_nul_def is_digit_def)

lemma json_number_no_nul: "json_number n \<Longrightarrow> no_nul n"
  by (auto simp: json_number_def json_sign_def json_int_def json_frac_def json_exp_def digits_def
      digits_no_nul)

lemma constants_no_nul [simp]:
  "no_nul (ascii ''null'')" "no_nul (ascii ''true'')" "no_nul (ascii ''false'')"
  "no_nul (ascii ''[]'')" "no_nul (ascii ''{}'')"
  by code_simp+

lemma render_number_no_nul [simp]: "no_nul (render_number d)"
  using json_number_no_nul fmt_g16_number [of d] by (auto simp: render_number_def)

lemma render_no_nul:
  "printable v \<longrightarrow> no_nul (render v)"
  "(\<forall>e \<in> set es. printable e) \<longrightarrow> no_nul (render_elements es)"
  "(\<forall>m \<in> set ms. utf8_text (fst m) \<and> printable (snd m)) \<longrightarrow> no_nul (render_members ms)"
  by (induction v and es and ms rule: render_render_elements_render_members.induct)
    (auto intro: render_string_no_nul utf8_text_no_nul)

lemma spaces_no_nul: "no_nul sp \<Longrightarrow> no_nul (spaces sp k)"
  by (induction k) (simp_all add: spaces_def)

lemma render_indented_no_nul:
  assumes "no_nul sp"
  shows "printable v \<longrightarrow> no_nul (render_indented sp n v)"
    "(\<forall>e \<in> set es. printable e) \<longrightarrow> no_nul (render_elements_indented sp n es)"
    "(\<forall>m \<in> set ms. utf8_text (fst m) \<and> printable (snd m)) \<longrightarrow> no_nul (render_members_indented sp n ms)"
  using assms
  by (induction sp n v and sp n es and sp n ms
      rule: render_indented_render_elements_indented_render_members_indented.induct)
    (auto intro: render_string_no_nul utf8_text_no_nul spaces_no_nul)

section \<open>What the callers rely on\<close>

lemma json_stringify_text_eq:
  assumes "printable v" and "\<forall>sp. space = Some sp \<longrightarrow> no_nul sp"
  shows "json_stringify v space = Inr (json_text v space)"
proof (cases space)
  case None
  have "appends (emit_value sb_init v) sb_init (render v)" using emit_appends(1) assms(1) by simp
  then show ?thesis
    using render_no_nul(1) assms(1)
    by (auto simp: json_stringify_def json_text_def None appends_def sb_finish_ok)
next
  case (Some sp)
  have "appends (emit_value_indented sb_init v sp 0) sb_init (render_indented sp 0 v)"
    using emit_indented_appends(1) assms(1) by simp
  then show ?thesis
    using render_indented_no_nul(1) [of sp v 0] assms
    by (auto simp: json_stringify_def json_text_def Some appends_def sb_finish_ok)
qed

text \<open>The values whose strings are valid UTF-8 up to their zero: nothing else is printed.\<close>

fun strings_valid :: "json \<Rightarrow> bool" where
  "strings_valid (JString s) = utf8_text (cstring (s @ [0]))"
| "strings_valid (JArray es) = (\<forall>e \<in> set es. strings_valid e)"
| "strings_valid (JObject ms) = (\<forall>m \<in> set ms. utf8_text (cstring (fst m @ [0])) \<and> strings_valid (snd m))"
| "strings_valid v = True"

lemma emit_string_valid: "emit_string out s = Inr out' \<Longrightarrow> utf8_text (cstring s)"
  by (auto simp: emit_string_def c_iff intro: utf8_validate_sound)

lemma emit_elements_valid:
  "(\<And>e out out'. e \<in> set es \<Longrightarrow> emit_value out e = Inr out' \<Longrightarrow> strings_valid e) \<Longrightarrow>
     emit_elements out es = Inr out' \<Longrightarrow> \<forall>e \<in> set es. strings_valid e"
proof (induction es arbitrary: out)
  case (Cons e es)
  from Cons.prems(2) obtain o1 o2 o3 where "emit_value o1 e = Inr o2" "emit_elements o3 es = Inr out'"
    by (auto simp: c_iff)
  then show ?case using Cons.prems(1) Cons.IH by auto
qed simp

lemma emit_members_valid:
  "(\<And>m out out'. m \<in> set ms \<Longrightarrow> emit_value out (snd m) = Inr out' \<Longrightarrow> strings_valid (snd m)) \<Longrightarrow>
     emit_members out ms = Inr out' \<Longrightarrow>
     \<forall>m \<in> set ms. utf8_text (cstring (fst m @ [0])) \<and> strings_valid (snd m)"
proof (induction ms arbitrary: out)
  case (Cons m ms)
  from Cons.prems(2) obtain o0 o1 o2 o3 o4 where "emit_string o0 (fst m @ [0]) = Inr o1"
    "emit_value o2 (snd m) = Inr o3" "emit_members o4 ms = Inr out'"
    by (cases m) (auto simp: c_iff)
  then show ?case using Cons.prems(1) Cons.IH emit_string_valid [of o0 "fst m @ [0]" o1] by auto
qed simp

lemma emit_value_valid: "emit_value out v = Inr out' \<Longrightarrow> strings_valid v"
proof (induction v arbitrary: out out' rule: strings_valid.induct)
  case (2 es)
  from "2.prems" show ?case
  proof (cases "es = []")
    case False
    with "2.prems" obtain o1 o2 where "emit_elements o1 es = Inr o2" by (auto simp: c_iff)
    then have "\<forall>e \<in> set es. strings_valid e" by (rule emit_elements_valid [rotated]) (rule "2.IH")
    then show ?thesis by simp
  qed simp
next
  case (3 ms)
  from "3.prems" show ?case
  proof (cases "ms = []")
    case False
    with "3.prems" obtain o1 o2 where "emit_members o1 ms = Inr o2" by (auto simp: c_iff)
    then have "\<forall>m \<in> set ms. utf8_text (cstring (fst m @ [0])) \<and> strings_valid (snd m)"
      by (rule emit_members_valid [rotated]) (rule "3.IH")
    then show ?thesis by simp
  qed simp
qed (auto dest: emit_string_valid)

lemma emit_elements_indented_valid:
  "(\<And>e out out' n. e \<in> set es \<Longrightarrow> emit_value_indented out e sp n = Inr out' \<Longrightarrow> strings_valid e) \<Longrightarrow>
     emit_elements_indented out es sp n = Inr out' \<Longrightarrow> \<forall>e \<in> set es. strings_valid e"
proof (induction es arbitrary: out)
  case (Cons e es)
  from Cons.prems(2) obtain o1 o2 o3 where "emit_value_indented o1 e sp (n + 1) = Inr o2" "emit_elements_indented o3 es sp n = Inr out'"
    by (auto simp: c_iff)
  then show ?case using Cons.prems(1) Cons.IH by auto
qed simp

lemma emit_members_indented_valid:
  "(\<And>m out out' n. m \<in> set ms \<Longrightarrow> emit_value_indented out (snd m) sp n = Inr out' \<Longrightarrow> strings_valid (snd m)) \<Longrightarrow>
     emit_members_indented out ms sp n = Inr out' \<Longrightarrow>
     \<forall>m \<in> set ms. utf8_text (cstring (fst m @ [0])) \<and> strings_valid (snd m)"
proof (induction ms arbitrary: out)
  case (Cons m ms)
  from Cons.prems(2) obtain o0 o1 o2 o3 o4 where "emit_string o0 (fst m @ [0]) = Inr o1"
    "emit_value_indented o2 (snd m) sp (n + 1) = Inr o3" "emit_members_indented o4 ms sp n = Inr out'"
    by (cases m) (auto simp: c_iff)
  then show ?case using Cons.prems(1) Cons.IH emit_string_valid [of o0 "fst m @ [0]" o1] by auto
qed simp

lemma emit_value_indented_valid: "emit_value_indented out v sp n = Inr out' \<Longrightarrow> strings_valid v"
proof (induction v arbitrary: out out' n rule: strings_valid.induct)
  case (2 es)
  from "2.prems" show ?case
  proof (cases "es = []")
    case False
    with "2.prems" obtain o1 o2 where "emit_elements_indented o1 es sp n = Inr o2" by (auto simp: c_iff)
    then have "\<forall>e \<in> set es. strings_valid e" by (rule emit_elements_indented_valid [rotated]) (rule "2.IH")
    then show ?thesis by simp
  qed simp
next
  case (3 ms)
  from "3.prems" show ?case
  proof (cases "ms = []")
    case False
    with "3.prems" obtain o1 o2 where "emit_members_indented o1 ms sp n = Inr o2" by (auto simp: c_iff)
    then have "\<forall>m \<in> set ms. utf8_text (cstring (fst m @ [0])) \<and> strings_valid (snd m)"
      by (rule emit_members_indented_valid [rotated]) (rule "3.IH")
    then show ?thesis by simp
  qed simp
qed (auto dest: emit_string_valid)

lemma stringify_valid: "json_stringify v space = Inr s \<Longrightarrow> strings_valid v"
  by (auto simp: json_stringify_def c_iff split: option.splits dest: emit_value_valid emit_value_indented_valid)

text \<open>C11: printing a value whose strings are valid UTF-8 always returns: no assertion fails, no
  write leaves the buffer however it grows, the 64 bytes for a number suffice; and the text is the
  one the buffer-free description gives, compact or indented.\<close>

theorem json_stringify_text:
  assumes "printable v" and "\<forall>sp. space = Some sp \<longrightarrow> no_nul sp"
  shows "json_stringify v space = Inr (json_text v space)"
  using assms by (rule json_stringify_text_eq)

theorem json_stringify_text_witness:
  "json_stringify (JArray [JNull, JObject [(ascii ''a'', JBool True)]]) None
     = Inr (json_text (JArray [JNull, JObject [(ascii ''a'', JBool True)]]) None)
   \<and> json_text (JArray [JNull, JObject [(ascii ''a'', JBool True)]]) None = ascii ''[null,{\"a\":true}]''"
proof
  have "utf8_text (utf8_enc 0x61 @ [])"
    by (intro utf8_text.intros) (simp_all add: scalar_def)
  moreover have "utf8_enc 0x61 = ascii ''a''" by code_simp
  ultimately have "utf8_text (ascii ''a'')" by simp
  then show "json_stringify (JArray [JNull, JObject [(ascii ''a'', JBool True)]]) None
     = Inr (json_text (JArray [JNull, JObject [(ascii ''a'', JBool True)]]) None)"
    by (intro json_stringify_text) auto
  show "json_text (JArray [JNull, JObject [(ascii ''a'', JBool True)]]) None
     = ascii ''[null,{\"a\":true}]''"
    by code_simp
qed

text \<open>A value with a string or a key that is not valid UTF-8 makes the printer fail its assertion;
  nothing is printed.\<close>

theorem json_stringify_invalid:
  assumes "\<not> strings_valid v"
  shows "\<exists>f. json_stringify v space = Inl f"
  using assms stringify_valid [of v space] by (cases "json_stringify v space") auto

theorem json_stringify_invalid_witness:
  "\<exists>f. json_stringify (JObject [(ascii ''app'', JString [0xFF])]) None = Inl f"
proof (rule json_stringify_invalid)
  have "utf8_validate [0xFF, 0] = Inr False" by code_simp
  then have "\<not> utf8_text [0xFF]" using utf8_validate_text [of "[0xFF]" "[]"] by auto
  then show "\<not> strings_valid (JObject [(ascii ''app'', JString [0xFF])])" by (simp add: cstring_def)
qed

end
