(* ===== verification/Json_Grammar.thy ===== *)
theory Json_Grammar
  imports Json_Number
begin

text \<open>
  The JSON language as an inductive relation between values and texts, written after RFC 8259
  and not after the code, and the proof that \<open>json_decode\<close> decides it: the parser accepts a text
  with the value \<open>v\<close> exactly when the grammar derives the text from \<open>v\<close>. The relation shows
  where json.c departs from the standard: \<open>\u0000\<close> is not a character, and a lone surrogate
  is none.
\<close>

section \<open>Characters\<close>

definition ws :: "byte list \<Rightarrow> bool" where
  "ws w \<longleftrightarrow> set w \<subseteq> {0x20, 0x09, 0x0A, 0x0D}"

lemma ws_is_space: "ws w \<longleftrightarrow> (\<forall>c \<in> set w. is_space c)"
  by (auto simp: ws_def is_space_def)

definition hex4 :: "byte list \<Rightarrow> u16 \<Rightarrow> bool" where
  "hex4 t v \<longleftrightarrow> (\<exists>a b c d da db dc dd. t = [a, b, c, d] \<and> hex_value a = Some da \<and> hex_value b = Some db
     \<and> hex_value c = Some dc \<and> hex_value d = Some dd
     \<and> v = 16 * (16 * (16 * da + db) + dc) + dd)"

definition surrogate :: "u16 \<Rightarrow> bool" where
  "surrogate v \<longleftrightarrow> v \<ge> 0xD800 \<and> v \<le> 0xDFFF"

text \<open>The letters of the two-character escapes and what they stand for.\<close>

definition simple_escapes :: "(byte \<times> byte) list" where
  "simple_escapes = [(0x22, 0x22), (0x5C, 0x5C), (0x2F, 0x2F), (0x62, 0x08), (0x66, 0x0C),
     (0x6E, 0x0A), (0x72, 0x0D), (0x74, 0x09)]"

inductive char_text :: "byte list \<Rightarrow> byte list \<Rightarrow> bool" where
  Plain: "scalar u \<Longrightarrow> 0x20 \<le> u \<Longrightarrow> u \<noteq> 0x22 \<Longrightarrow> u \<noteq> 0x5C \<Longrightarrow> char_text (utf8_enc u) (utf8_enc u)"
| Escape: "(l, c) \<in> set simple_escapes \<Longrightarrow> char_text [c] [0x5C, l]"
| Unicode: "hex4 t v \<Longrightarrow> \<not> surrogate v \<Longrightarrow> v \<noteq> 0 \<Longrightarrow> char_text (utf8_enc (ucast v)) (0x5C # 0x75 # t)"
| Pair: "hex4 t v \<Longrightarrow> hex4 t' v' \<Longrightarrow> from_surrogate_pair v v' = Some u \<Longrightarrow>
    char_text (utf8_enc u) (0x5C # 0x75 # t @ 0x5C # 0x75 # t')"

inductive chars_text :: "byte list \<Rightarrow> byte list \<Rightarrow> bool" where
  Nil: "chars_text [] []"
| Cons: "char_text d t \<Longrightarrow> chars_text ds ts \<Longrightarrow> chars_text (d @ ds) (t @ ts)"

section \<open>Values\<close>

inductive value_text :: "json \<Rightarrow> byte list \<Rightarrow> bool"
  and elements_text :: "json list \<Rightarrow> byte list \<Rightarrow> bool"
  and members_text :: "(byte list \<times> json) list \<Rightarrow> byte list \<Rightarrow> bool"
where
  Null: "value_text JNull (ascii ''null'')"
| False: "value_text (JBool False) (ascii ''false'')"
| True: "value_text (JBool True) (ascii ''true'')"
| String: "chars_text d t \<Longrightarrow> value_text (JString d) (0x22 # t @ [0x22])"
| Number: "json_number n \<Longrightarrow> value_text (JNumber (strtod n)) n"
| Array_Empty: "ws w \<Longrightarrow> value_text (JArray []) (0x5B # w @ [0x5D])"
| Array: "ws w \<Longrightarrow> elements_text es t \<Longrightarrow> value_text (JArray es) (0x5B # w @ t)"
| Object_Empty: "ws w \<Longrightarrow> value_text (JObject []) (0x7B # w @ [0x7D])"
| Object: "ws w \<Longrightarrow> members_text ms t \<Longrightarrow> value_text (JObject ms) (0x7B # w @ t)"
| Element_Last: "value_text v t \<Longrightarrow> ws w \<Longrightarrow> elements_text [v] (t @ w @ [0x5D])"
| Element_More: "value_text v t \<Longrightarrow> ws w \<Longrightarrow> ws w' \<Longrightarrow> elements_text es t' \<Longrightarrow>
    elements_text (v # es) (t @ w @ 0x2C # w' @ t')"
| Member_Last: "chars_text d k \<Longrightarrow> ws w1 \<Longrightarrow> ws w2 \<Longrightarrow> value_text v t \<Longrightarrow> ws w3 \<Longrightarrow>
    members_text [(d, v)] (0x22 # k @ 0x22 # w1 @ 0x3A # w2 @ t @ w3 @ [0x7D])"
| Member_More: "chars_text d k \<Longrightarrow> ws w1 \<Longrightarrow> ws w2 \<Longrightarrow> value_text v t \<Longrightarrow> ws w3 \<Longrightarrow> ws w4 \<Longrightarrow>
    members_text ms t' \<Longrightarrow>
    members_text ((d, v) # ms) (0x22 # k @ 0x22 # w1 @ 0x3A # w2 @ t @ w3 @ 0x2C # w4 @ t')"

text \<open>A whole text: a value between white space.\<close>

definition json_text_of :: "json \<Rightarrow> byte list \<Rightarrow> bool" where
  "json_text_of v bs \<longleftrightarrow> (\<exists>w t w'. bs = w @ t @ w' \<and> ws w \<and> ws w' \<and> value_text v t)"

section \<open>White space\<close>

definition not_space :: "byte list \<Rightarrow> bool" where
  "not_space r \<longleftrightarrow> (\<exists>c t. r = c # t \<and> \<not> is_space c)"

lemma skip_space_append: "ws w \<Longrightarrow> not_space r \<Longrightarrow> skip_space (w @ r) = Inr r"
  by (induction w) (auto simp: ws_is_space not_space_def)

lemma skip_space_sound: "skip_space s = Inr r \<Longrightarrow> \<exists>w. s = w @ r \<and> ws w \<and> not_space r"
proof (induction s)
  case (Cons c s)
  show ?case
  proof (cases "is_space c")
    case True
    with Cons obtain w where "s = w @ r" "ws w" "not_space r" by auto
    with True show ?thesis by (intro exI [of _ "c # w"]) (auto simp: ws_is_space)
  qed (use Cons in \<open>auto simp: ws_is_space not_space_def\<close>)
qed simp

lemma not_space_Cons [simp]: "not_space (c # t) \<longleftrightarrow> \<not> is_space c"
  by (simp add: not_space_def)

section \<open>The characters of a string\<close>

lemma push_bit_4: "push_bit 4 v = 16 * (v :: u16)"
  by (simp add: push_bit_eq_mult)

lemma hex16_unfold: "hex16_loop 4 0 s = hex16_loop (Suc (Suc (Suc (Suc 0)))) 0 s"
proof -
  have "(4 :: nat) = Suc (Suc (Suc (Suc 0)))" by simp
  then show ?thesis by (simp only:)
qed

lemma hex16_complete: "hex4 t v \<Longrightarrow> parse_hex16 (t @ r) = Accept v r"
  unfolding parse_hex16_def hex16_unfold hex4_def by (auto simp: push_bit_4)

lemma hex16_sound:
  assumes "parse_hex16 s = Accept v r" shows "\<exists>t. s = t @ r \<and> hex4 t v"
proof -
  obtain a b c d da db dc dd where "s = [a, b, c, d] @ r" "hex_value a = Some da"
    "hex_value b = Some db" "hex_value c = Some dc" "hex_value d = Some dd"
    "v = 16 * (16 * (16 * da + db) + dc) + dd"
    using assms unfolding parse_hex16_def hex16_unfold
    by (auto simp: c_iff push_bit_4 split: option.splits)
  then show ?thesis by (auto simp: hex4_def)
qed

lemma from_surrogate_pair_scalar: "from_surrogate_pair v v' = Some u \<Longrightarrow> scalar u"
  by (rule from_surrogate_pair_range)

lemma parse_char_complete:
  assumes "char_text d t"
  shows "parse_char (t @ r) = Accept d r"
  using assms
proof cases
  case (Plain u)
  then have u: "u \<noteq> 0" by (auto simp: word_le_nat_alt)
  obtain c cs where c: "utf8_enc u = c # cs" "c \<noteq> 0x5C" "\<not> c \<le> 0x1F"
    using Plain(3) u
  proof (cases rule: utf8_enc_cases)
    case (ascii c)
    then have "unat u = unat c" by (simp add: word_arith)
    then show ?thesis
      using ascii(1) Plain(4-6) by (intro that) (auto simp: word_le_nat_alt word_unat_eq_iff)
  next
    case (long c cs)
    then have "128 \<le> unat c" by simp
    then show ?thesis using long(1) by (intro that) (auto simp: word_le_nat_alt)
  qed
  then show ?thesis
    using utf8_enc_valid [OF Plain(3), of r] utf8_enc_length [of u]
    by (auto simp: parse_char_def Plain(1,2))
next
  case (Escape l c)
  then show ?thesis by (auto simp: simple_escapes_def parse_char_def parse_escape_def)
next
  case (Unicode t v)
  then show ?thesis
    using hex16_complete [OF Unicode(3), of r] scalar_of_u16 [of v]
    by (auto simp: parse_char_def parse_escape_def parse_unicode_escape_def surrogate_def
        utf8_write_char_eq)
next
  case (Pair t v t' v' u)
  have "v \<ge> 0xD800 \<and> v \<le> 0xDFFF"
    using Pair(5) by (auto simp: from_surrogate_pair_def word_le_nat_alt split: if_splits)
  then show ?thesis
    using hex16_complete [OF Pair(3)] hex16_complete [OF Pair(4)]
      from_surrogate_pair_scalar [OF Pair(5)] Pair(1,2,5)
    by (simp add: parse_char_def parse_escape_def parse_unicode_escape_def utf8_write_char_eq)
qed

lemma char_text_hd:
  assumes "char_text d t"
  obtains c t' where "t = c # t'" and "c \<noteq> 0x22"
  using assms
proof cases
  case (Plain u)
  then have u: "u \<noteq> 0" by (auto simp: word_le_nat_alt)
  show ?thesis
    using Plain(3) u
  proof (cases rule: utf8_enc_cases)
    case (ascii c)
    then show ?thesis using Plain(2,5) by (intro that [of c "[]"]) auto
  next
    case (long c cs)
    then have "128 \<le> unat c" by simp
    then show ?thesis using long(1) Plain(2) by (intro that [of c cs]) auto
  qed
qed (auto intro: that)

lemma parse_unicode_escape_sound:
  assumes "parse_unicode_escape s = Accept d r"
  shows "\<exists>t. 0x5C # 0x75 # s = t @ r \<and> char_text d t"
proof -
  obtain v s1 where "parse_hex16 s = Accept v s1"
    using assms by (auto simp: parse_unicode_escape_def c_iff)
  then obtain t where t: "parse_hex16 s = Accept v s1" "s = t @ s1" "hex4 t v"
    using hex16_sound by blast
  show ?thesis
  proof (cases "surrogate v")
    case False
    with assms t(1) have "v \<noteq> 0" "d = utf8_enc (ucast v)" "r = s1"
      by (auto simp: parse_unicode_escape_def surrogate_def utf8_write_char_eq c_iff split: if_splits)
    with t False show ?thesis
      by (intro exI [of _ "0x5C # 0x75 # t"]) (auto intro: char_text.Unicode)
  next
    case True
    with assms t(1) obtain s2 v' u where s2: "s1 = 0x5C # 0x75 # s2" "parse_hex16 s2 = Accept v' r"
      "from_surrogate_pair v v' = Some u" "d = utf8_enc u"
      by (auto simp: parse_unicode_escape_def surrogate_def utf8_write_char_eq c_iff
          split: if_splits option.splits)
    then obtain t' where "s2 = t' @ r" "hex4 t' v'" using hex16_sound by blast
    with t s2 show ?thesis
      by (intro exI [of _ "0x5C # 0x75 # t @ 0x5C # 0x75 # t'"]) (auto intro: char_text.Pair)
  qed
qed

lemma parse_char_sound:
  assumes "parse_char s = Accept d r" and "hd s \<noteq> 0x22"
  shows "\<exists>t. s = t @ r \<and> char_text d t"
proof -
  obtain c s' where s: "s = c # s'" using assms by (cases s) (auto simp: parse_char_def)
  show ?thesis
  proof (cases "c = 0x5C")
    case True
    with assms have esc: "parse_escape s' = Accept d r" by (simp add: parse_char_def s)
    then obtain l s2 where s': "s' = l # s2" by (cases s') (auto simp: parse_escape_def)
    show ?thesis
    proof (cases "l = 0x75")
      case False
      with esc have "r = s2" "\<exists>c. d = [c] \<and> (l, c) \<in> set simple_escapes"
        by (auto simp: parse_escape_def s' simple_escapes_def split: if_splits)
      then show ?thesis using True by (auto simp: s s' intro!: exI [of _ "[0x5C, l]"] char_text.Escape)
    next
      case l: True
      with esc have "parse_unicode_escape s2 = Accept d r" by (simp add: parse_escape_def s')
      then show ?thesis
        using True l parse_unicode_escape_sound [of s2 d r] by (simp add: s s')
    qed
  next
    case False
    with assms obtain len where len: "utf8_validate_cz s = Inr len" "len \<noteq> 0" "d = take len s"
      "r = drop len s" and c: "\<not> c \<le> 0x1F"
      by (auto simp: parse_char_def s c_iff split: if_splits)
    from len(1,2) obtain u t where u: "scalar u" "s = utf8_enc u @ t" "len = length (utf8_enc u)"
      by (rule utf8_validE)
    have "u \<noteq> 0" using u(2) s c by (auto simp: utf8_enc_def utf8_seq_def)
    with u(1) have "0x20 \<le> u \<and> u \<noteq> 0x22 \<and> u \<noteq> 0x5C"
    proof (cases rule: utf8_enc_cases)
      case (ascii c')
      then have "c' = c" "unat u = unat c" using u(2) s by (auto simp: word_arith)
      then show ?thesis
        using c False assms(2) s by (auto simp: word_le_nat_alt word_unat_eq_iff)
    next
      case (long c' cs)
      then show ?thesis by (auto simp: word_le_nat_alt)
    qed
    with u len show ?thesis by (auto intro: char_text.Plain)
  qed
qed

lemma parse_string_loop_complete:
  assumes "chars_text d t" and "target_ok (Some sb)"
  shows "\<exists>sb'. parse_string_loop (Some sb) (t @ 0x22 # r) = Accept (Some sb') r
    \<and> target_ok (Some sb') \<and> sb_data sb' = sb_data sb @ d"
  using assms
proof (induction arbitrary: sb rule: chars_text.induct)
  case Nil
  then show ?case by (simp add: parse_string_loop.simps)
next
  case (Cons d t ds ts)
  note c = parse_char_complete [OF Cons(1), of "ts @ 0x22 # r"]
  obtain b where b: "put_char (Some sb) d = Inr b" "target_ok b"
    "map_option sb_data b = map_option (\<lambda>sb. sb_data sb @ d) (Some sb)"
    using Cons.prems parse_char_enc [OF c] by (rule put_char_ok)
  then obtain sb1 where sb1: "b = Some sb1" "sb_data sb1 = sb_data sb @ d" by auto
  obtain c0 t' where t: "t = c0 # t'" "c0 \<noteq> 0x22" using Cons(1) by (rule char_text_hd)
  then have "parse_string_loop (Some sb) ((t @ ts) @ 0x22 # r) = parse_string_loop b (ts @ 0x22 # r)"
    using c b(1) by (subst parse_string_loop.simps) simp
  with Cons.IH [of sb1] b(2) sb1 show ?case by simp
qed

lemma parse_string_complete:
  assumes "chars_text d t"
  shows "parse_string True (0x22 # t @ 0x22 # r) = Accept (Some d) r"
proof -
  obtain sb where sb: "sb_need sb_init 4 = Inr sb" "target_ok (Some sb)" "sb_data sb = []"
    by (rule parse_string_init)
  from parse_string_loop_complete [OF assms sb(2), of r] show ?thesis
    using sb(1,3) by (auto simp: parse_string_def sb_finish_target)
qed

lemma sb_need_data: "sb_need sb n = Inr sb' \<Longrightarrow> sb_data sb' = sb_data sb"
  by (auto simp: sb_need_def sb_grow_def split: if_splits option.splits)

lemma put_char_data:
  "put_char (Some sb) bs = Inr b \<Longrightarrow> \<exists>sb'. b = Some sb' \<and> sb_data sb' = sb_data sb @ bs"
  by (auto simp: put_char_def sb_write_def c_iff split: if_splits dest!: sb_need_data)

lemma parse_string_loop_sound:
  "parse_string_loop b s = Accept b' r \<Longrightarrow> b = Some sb \<Longrightarrow>
   \<exists>sb' d t. b' = Some sb' \<and> s = t @ 0x22 # r \<and> chars_text d t \<and> sb_data sb' = sb_data sb @ d"
proof (induction b s arbitrary: sb rule: parse_string_loop.induct)
  case (1 b s)
  then obtain c s' where s: "s = c # s'" by (cases s) (auto simp: parse_string_loop.simps)
  show ?case
  proof (cases "c = 0x22")
    case True
    with 1(2,3) s show ?thesis
      by (auto simp: parse_string_loop.simps intro: chars_text.Nil)
  next
    case False
    with 1(2) s obtain d s1 b1 where p: "parse_char s = Accept d s1" "put_char b d = Inr b1"
      "parse_string_loop b1 s1 = Accept b' r"
      by (subst (asm) parse_string_loop.simps) (auto simp: c_iff)
    obtain sb1 where sb1: "b1 = Some sb1" "sb_data sb1 = sb_data sb @ d"
      using put_char_data p(2) 1(3) by blast
    obtain t where t: "s = t @ s1" "char_text d t"
      using parse_char_sound [OF p(1)] s False by auto
    from "1.IH" [OF s False p sb1(1)] obtain sb' ds ts where "b' = Some sb'" "s1 = ts @ 0x22 # r"
      "chars_text ds ts" "sb_data sb' = sb_data sb1 @ ds" by blast
    with t sb1(2) show ?thesis
      by (intro exI [of _ sb'] exI [of _ "d @ ds"] exI [of _ "t @ ts"]) (simp add: chars_text.Cons)
  qed
qed

lemma parse_string_sound:
  assumes "parse_string True s = Accept str r"
  shows "\<exists>d t. str = Some d \<and> s = 0x22 # t @ 0x22 # r \<and> chars_text d t"
proof -
  obtain sb where sb: "sb_need sb_init 4 = Inr sb" "target_ok (Some sb)" "sb_data sb = []"
    by (rule parse_string_init)
  with assms obtain s' sb' bs where s: "s = 0x22 # s'"
    "parse_string_loop (Some sb) s' = Accept (Some sb') r" "sb_finish sb' = Inr bs" "str = Some bs"
    by (auto simp: parse_string_def c_iff split: if_splits option.splits)
  have "bs = sb_data sb'" using s(3) by (auto simp: sb_finish_def c_iff split: if_splits)
  with parse_string_loop_sound [OF s(2) refl] s sb(3) show ?thesis by auto
qed

section \<open>Values\<close>

lemma ascii_literals:
  "ascii ''null'' = [0x6E, 0x75, 0x6C, 0x6C]"
  "ascii ''true'' = [0x74, 0x72, 0x75, 0x65]"
  "ascii ''false'' = [0x66, 0x61, 0x6C, 0x73, 0x65]"
  by (simp_all add: ascii_def of_char_def)

lemma expect_literal_append: "expect_literal l (l @ r) = Accept () r"
  by (induction l) simp_all

lemma expect_literal_sound: "expect_literal l s = Accept v r \<Longrightarrow> s = l @ r"
  by (induction l arbitrary: s) (auto simp: c_iff split: if_splits)

text \<open>The first byte of a value decides which parser is called.\<close>

lemma json_number_hd: "json_number n \<Longrightarrow> \<exists>c t. n = c # t \<and> (c = 0x2D \<or> is_digit c)"
  by (fastforce simp: json_number_def json_sign_def json_int_def digits_def neq_Nil_conv)

definition value_start :: "byte \<Rightarrow> bool" where
  "value_start c \<longleftrightarrow> c \<in> {0x6E, 0x66, 0x74, 0x22, 0x5B, 0x7B, 0x2D} \<or> is_digit c"

lemma value_start_other: "value_start c \<Longrightarrow> \<not> is_space c \<and> c \<noteq> 0x5D \<and> c \<noteq> 0x7D"
  by (auto simp: value_start_def is_space_def is_digit_def)

lemma value_text_hd: "value_text v t \<Longrightarrow> \<exists>c t'. t = c # t' \<and> value_start c"
  by (erule value_text.cases) (auto simp: ascii_literals value_start_def dest!: json_number_hd)

lemma elements_text_hd: "elements_text es t \<Longrightarrow> \<exists>c t'. t = c # t' \<and> value_start c"
  by (erule elements_text.cases) (auto dest!: value_text_hd)

lemma members_text_hd: "members_text ms t \<Longrightarrow> \<exists>t'. t = 0x22 # t'"
  by (erule members_text.cases) auto

lemma value_end_ws: "ws w \<Longrightarrow> value_end r \<Longrightarrow> value_end (w @ r)"
  by (cases w) (auto simp: value_end_def ws_is_space is_space_def)

lemma value_end_Cons: "value_end (0x5D # r)" "value_end (0x7D # r)" "value_end (0x2C # r)" "value_end (0 # r)"
  by (auto simp: value_end_def)

lemma delimiters_not_space:
  "\<not> is_space 0x5D" "\<not> is_space 0x7D" "\<not> is_space 0x2C" "\<not> is_space 0x3A" "\<not> is_space 0x22" "\<not> is_space 0"
  by (simp_all add: is_space_def)

lemma parse_value_number:
  "json_number n \<Longrightarrow> value_end r \<Longrightarrow> parse_value True (n @ r) = Accept (Some (JNumber (strtod n))) r"
proof -
  assume n: "json_number n" "value_end r"
  obtain c t where c: "n = c # t" "c = 0x2D \<or> is_digit c" using json_number_hd [OF n(1)] by blast
  then have "c \<notin> {0x6E, 0x66, 0x74, 0x22, 0x5B, 0x7B}" by (auto simp: is_digit_def)
  then show ?thesis
    using parse_number_complete [OF n(1) value_end_number_end [OF n(2)], of True] n
      strtod_append [of n r]
    by (auto simp: parse_value.simps c(1) tail_ok_def)
qed

lemma texts_complete:
  "value_text v t \<Longrightarrow> value_end r \<Longrightarrow> parse_value True (t @ r) = Accept (Some v) r"
  "elements_text es t \<Longrightarrow> array_loop True ret (t @ r) = Accept (Some (JArray (ret @ es))) r"
  "members_text ms t \<Longrightarrow> object_loop True ret' (t @ r) = Accept (Some (JObject (ret' @ ms))) r"
proof (induction arbitrary: r and ret r and ret' r rule: value_text_elements_text_members_text.inducts)
  case (String d t)
  then show ?case using parse_string_complete [of d t r] by (simp add: parse_value.simps)
next
  case (Number n)
  then show ?case by (rule parse_value_number)
next
  case (Array_Empty w)
  then show ?case
    using skip_space_append [of w "0x5D # r"]
    by (simp add: parse_value.simps parse_array.simps node_def delimiters_not_space)
next
  case (Array w es t)
  obtain c t' where c: "t = c # t'" "\<not> is_space c" "c \<noteq> 0x5D"
    using elements_text_hd [OF \<open>elements_text es t\<close>] value_start_other by blast
  then show ?case
    using Array skip_space_append [of w "t @ r"]
    by (simp add: parse_value.simps parse_array.simps)
next
  case (Object_Empty w)
  then show ?case
    using skip_space_append [of w "0x7D # r"]
    by (simp add: parse_value.simps parse_object.simps node_def delimiters_not_space)
next
  case (Object w ms t)
  obtain t' where c: "t = 0x22 # t'" using members_text_hd [OF \<open>members_text ms t\<close>] by blast
  then show ?case
    using Object skip_space_append [of w "t @ r"]
    by (simp add: parse_value.simps parse_object.simps delimiters_not_space)
next
  case (Element_Last v t w)
  have "value_end (w @ 0x5D # r)" using \<open>ws w\<close> by (intro value_end_ws value_end_Cons)
  then show ?case
    using Element_Last skip_space_append [of w "0x5D # r"]
    by (simp add: array_loop.simps node_def add_element_def delimiters_not_space)
next
  case (Element_More v t w w' es t')
  have "value_end (w @ 0x2C # w' @ t' @ r)" using \<open>ws w\<close> by (intro value_end_ws value_end_Cons)
  moreover have "not_space (t' @ r)"
    using elements_text_hd [OF \<open>elements_text es t'\<close>] value_start_other by (auto simp: not_space_def)
  ultimately show ?case
    using Element_More skip_space_append [of w "0x2C # w' @ t' @ r"] skip_space_append [of w' "t' @ r"]
    by (simp add: array_loop.simps [of _ ret] add_element_def delimiters_not_space)
next
  case (Member_Last d k w1 w2 v t w3)
  have "value_end (w3 @ 0x7D # r)" using \<open>ws w3\<close> by (intro value_end_ws value_end_Cons)
  moreover have "not_space (t @ w3 @ 0x7D # r)"
    using value_text_hd [OF \<open>value_text v t\<close>] value_start_other by (auto simp: not_space_def)
  ultimately show ?case
    using Member_Last skip_space_append [of w3 "0x7D # r"]
      skip_space_append [of w1 "0x3A # w2 @ t @ w3 @ 0x7D # r"] skip_space_append [of w2 "t @ w3 @ 0x7D # r"]
      parse_string_complete [OF \<open>chars_text d k\<close>, of "w1 @ 0x3A # w2 @ t @ w3 @ 0x7D # r"]
    by (simp add: object_loop.simps node_def add_member_def delimiters_not_space)
next
  case (Member_More d k w1 w2 v t w3 w4 ms t')
  let ?r3 = "w3 @ 0x2C # w4 @ t' @ r"
  have "value_end ?r3" using \<open>ws w3\<close> by (intro value_end_ws value_end_Cons)
  moreover have "not_space (t @ ?r3)"
    using value_text_hd [OF \<open>value_text v t\<close>] value_start_other by (auto simp: not_space_def)
  moreover have "not_space (t' @ r)"
    using members_text_hd [OF \<open>members_text ms t'\<close>] by (auto simp: not_space_def delimiters_not_space)
  ultimately show ?case
    using Member_More skip_space_append [of w3 "0x2C # w4 @ t' @ r"] skip_space_append [of w4 "t' @ r"]
      skip_space_append [of w1 "0x3A # w2 @ t @ ?r3"] skip_space_append [of w2 "t @ ?r3"]
      parse_string_complete [OF \<open>chars_text d k\<close>, of "w1 @ 0x3A # w2 @ t @ ?r3"]
    by (simp add: object_loop.simps [of _ ret'] add_member_def delimiters_not_space)
qed (simp_all add: parse_value.simps ascii_literals node_def)

text \<open>
  Soundness. A number needs the byte behind it: where \<open>parse_number\<close> stops before an \<open>x\<close>, \<open>strtod\<close>
  may have read a hexadecimal number.
\<close>

definition value_sound :: "json option parse \<Rightarrow> byte list \<Rightarrow> bool" where
  "value_sound p s \<longleftrightarrow> (\<forall>x r. p = Accept x r \<longrightarrow>
     (\<exists>v. x = Some v \<and> (value_end r \<longrightarrow> (\<exists>t. s = t @ r \<and> value_text v t))))"

definition bracket_sound :: "json option parse \<Rightarrow> byte list \<Rightarrow> bool" where
  "bracket_sound p s \<longleftrightarrow> (\<forall>x r. p = Accept x r \<longrightarrow> (\<exists>v t. x = Some v \<and> s = t @ r \<and> value_text v t))"

lemma bracket_value_sound: "bracket_sound p s \<Longrightarrow> value_sound p s"
  by (fastforce simp: bracket_sound_def value_sound_def)

lemma value_soundD:
  assumes "value_sound p s" and "p = Accept x t" and "skip_space t = Inr (c # u)" and "value_end (c # u)"
  obtains v t1 w where "x = Some v" and "s = t1 @ w @ c # u" and "value_text v t1" and "ws w"
proof -
  obtain w where w: "t = w @ c # u" "ws w" using skip_space_sound [OF assms(3)] by blast
  with assms(4) have "value_end t" by (simp add: value_end_ws)
  with assms(1,2) obtain v t1 where "x = Some v" "s = t1 @ t" "value_text v t1"
    by (auto simp: value_sound_def)
  with w show ?thesis by (intro that) auto
qed

lemma parse_value_step_sound:
  assumes acc: "parse_value True s = Accept x r" and s: "s = c # t"
    and array: "c = 0x5B \<Longrightarrow> bracket_sound (parse_array True s) s"
    and object: "c = 0x7B \<Longrightarrow> bracket_sound (parse_object True s) s"
  shows "\<exists>v. x = Some v \<and> (value_end r \<longrightarrow> (\<exists>t. s = t @ r \<and> value_text v t))"
proof -
  consider (literal) l v where "expect_literal l s = Accept () r" "x = Some v" "value_text v l"
    | (string) str where "parse_string True s = Accept str r" "x = map_option JString str"
    | (array) "parse_array True s = Accept x r" "c = 0x5B"
    | (object) "parse_object True s = Accept x r" "c = 0x7B"
    | (number) d where "parse_number True s = Accept d r" "x = map_option JNumber d"
    using acc unfolding parse_value.simps [of True s]
    by (auto simp: s node_def c_iff split: if_splits intro: value_text_elements_text_members_text.intros)
  then show ?thesis
  proof cases
    case literal
    then show ?thesis by (auto dest!: expect_literal_sound)
  next
    case string
    from parse_string_sound [OF string(1)] string(2) show ?thesis
      by (auto intro!: exI [of _ "0x22 # t @ [0x22]" for t] value_text_elements_text_members_text.String)
  next
    case array
    with assms(3) show ?thesis by (auto simp: bracket_sound_def)
  next
    case object
    with assms(4) show ?thesis by (auto simp: bracket_sound_def)
  next
    case number
    from parse_number_sound [OF number(1)] obtain n where n: "s = n @ r" "json_number n" "d = Some (strtod s)"
      by auto
    have "value_text (JNumber (strtod s)) n" if "value_end r"
      using that n strtod_append [of n r] value_text_elements_text_members_text.Number [OF n(2)]
      by (simp add: tail_ok_def)
    with n(1,3) number(2) show ?thesis by auto
  qed
qed

lemma texts_sound:
  "out \<longrightarrow> value_sound (parse_value out s) s"
  "out \<longrightarrow> bracket_sound (parse_array out s) s"
  "out \<longrightarrow> (\<forall>x r. array_loop out ret s = Accept x r \<longrightarrow>
     (\<exists>t es. x = Some (JArray (ret @ es)) \<and> s = t @ r \<and> elements_text es t))"
  "out \<longrightarrow> bracket_sound (parse_object out s) s"
  "out \<longrightarrow> (\<forall>x r. object_loop out ret' s = Accept x r \<longrightarrow>
     (\<exists>t ms. x = Some (JObject (ret' @ ms)) \<and> s = t @ r \<and> members_text ms t))"
proof (induction out s and out s and out ret s and out s and out ret' s rule: parser_induct)
  case (1 out s)
  show ?case
    unfolding value_sound_def
  proof (intro impI allI)
    fix x r
    assume out: out and acc: "parse_value out s = Accept x r"
    then obtain c t where s: "s = c # t" by (cases s) (auto simp: parse_value.simps)
    show "\<exists>v. x = Some v \<and> (value_end r \<longrightarrow> (\<exists>t. s = t @ r \<and> value_text v t))"
      by (rule parse_value_step_sound [OF _ s]) (use acc out 1 [OF s] in auto)
  qed
next
  case (2 out s)
  show ?case
    unfolding bracket_sound_def
  proof (intro impI allI)
    fix x r
    assume out: out and acc: "parse_array out s = Accept x r"
    then obtain t c u where *: "s = 0x5B # t" "skip_space t = Inr (c # u)"
      "c = 0x5D \<and> r = u \<and> x = Some (JArray []) \<or> c \<noteq> 0x5D \<and> array_loop out [] (c # u) = Accept x r"
      by (auto simp: parse_array.simps node_def c_iff split: if_splits)
    obtain w where w: "t = w @ c # u" "ws w" using skip_space_sound [OF *(2)] by blast
    show "\<exists>v t. x = Some v \<and> s = t @ r \<and> value_text v t"
    proof (cases "c = 0x5D")
      case True
      with * w show ?thesis
        by (intro exI [of _ "JArray []"] exI [of _ "0x5B # w @ [0x5D]"])
          (auto intro: value_text_elements_text_members_text.intros)
    next
      case False
      with * 2 out obtain t' es where "x = Some (JArray es)" "c # u = t' @ r" "elements_text es t'"
        by fastforce
      with *(1) w show ?thesis
        by (intro exI [of _ "JArray es"] exI [of _ "0x5B # w @ t'"])
          (auto intro: value_text_elements_text_members_text.intros)
    qed
  qed
next
  case (3 out ret s)
  show ?case
  proof (intro impI allI)
    fix x r
    assume out: out and acc: "array_loop out ret s = Accept x r"
    then obtain el t c u where *: "parse_value out s = Accept el t" "skip_space t = Inr (c # u)"
      "c = 0x5D \<and> r = u \<and> x = Some (JArray (add_element ret el)) \<or>
       c = 0x2C \<and> (\<exists>s2. skip_space u = Inr s2 \<and> array_loop out (add_element ret el) s2 = Accept x r)"
      by (auto simp: array_loop.simps [of _ ret] node_def c_iff split: if_splits)
    have "value_sound (parse_value out s) s" using 3(1) out by blast
    moreover have "value_end (c # u)" using *(3) by (auto simp: value_end_def)
    ultimately obtain v t1 w where v: "el = Some v" "s = t1 @ w @ c # u" "value_text v t1" "ws w"
      using value_soundD *(1,2) by metis
    show "\<exists>t es. x = Some (JArray (ret @ es)) \<and> s = t @ r \<and> elements_text es t"
    proof (cases "c = 0x5D")
      case True
      with * v show ?thesis
        by (intro exI [of _ "t1 @ w @ [0x5D]"] exI [of _ "[v]"])
          (auto simp: add_element_def intro: value_text_elements_text_members_text.intros)
    next
      case False
      with *(3) obtain s2 where s2: "c = 0x2C" "skip_space u = Inr s2"
        "array_loop out (add_element ret el) s2 = Accept x r" by blast
      obtain w' where w': "u = w' @ s2" "ws w'" using skip_space_sound [OF s2(2)] by blast
      have "\<exists>t es. x = Some (JArray ((ret @ [v]) @ es)) \<and> s2 = t @ r \<and> elements_text es t"
        using 3(2) [OF *(1,2) refl _ _ s2(2)] s2(1,3) out v(1) by (simp add: add_element_def)
      then obtain t' es where "x = Some (JArray ((ret @ [v]) @ es))" "s2 = t' @ r" "elements_text es t'"
        by blast
      with v w' s2(1) show ?thesis
        by (intro exI [of _ "t1 @ w @ 0x2C # w' @ t'"] exI [of _ "v # es"])
          (auto intro: value_text_elements_text_members_text.intros)
    qed
  qed
next
  case (4 out s)
  show ?case
    unfolding bracket_sound_def
  proof (intro impI allI)
    fix x r
    assume out: out and acc: "parse_object out s = Accept x r"
    then obtain t c u where *: "s = 0x7B # t" "skip_space t = Inr (c # u)"
      "c = 0x7D \<and> r = u \<and> x = Some (JObject []) \<or> c \<noteq> 0x7D \<and> object_loop out [] (c # u) = Accept x r"
      by (auto simp: parse_object.simps node_def c_iff split: if_splits)
    obtain w where w: "t = w @ c # u" "ws w" using skip_space_sound [OF *(2)] by blast
    show "\<exists>v t. x = Some v \<and> s = t @ r \<and> value_text v t"
    proof (cases "c = 0x7D")
      case True
      with * w show ?thesis
        by (intro exI [of _ "JObject []"] exI [of _ "0x7B # w @ [0x7D]"])
          (auto intro: value_text_elements_text_members_text.intros)
    next
      case False
      with * 4 out obtain t' ms where "x = Some (JObject ms)" "c # u = t' @ r" "members_text ms t'"
        by fastforce
      with *(1) w show ?thesis
        by (intro exI [of _ "JObject ms"] exI [of _ "0x7B # w @ t'"])
          (auto intro: value_text_elements_text_members_text.intros)
    qed
  qed
next
  case (5 out ret s)
  show ?case
  proof (intro impI allI)
    fix x r
    assume out: out and acc: "object_loop out ret s = Accept x r"
    then obtain key s1 s2 s3 el t c u where *: "parse_string True s = Accept key s1"
      "skip_space s1 = Inr (0x3A # s2)" "skip_space s2 = Inr s3"
      "parse_value out s3 = Accept el t" "skip_space t = Inr (c # u)"
      "c = 0x7D \<and> r = u \<and> x = Some (JObject (add_member ret key el)) \<or>
       c = 0x2C \<and> (\<exists>s4. skip_space u = Inr s4 \<and> object_loop out (add_member ret key el) s4 = Accept x r)"
      by (auto simp: object_loop.simps [of _ ret] node_def c_iff split: if_splits)
    from parse_string_sound [OF *(1)] obtain d k where k: "key = Some d" "s = 0x22 # k @ 0x22 # s1"
      "chars_text d k" by blast
    obtain w1 where w1: "s1 = w1 @ 0x3A # s2" "ws w1" using skip_space_sound [OF *(2)] by blast
    obtain w2 where w2: "s2 = w2 @ s3" "ws w2" using skip_space_sound [OF *(3)] by blast
    have "value_sound (parse_value out s3) s3" using 5(1) [of key s1 "0x3A # s2" "0x3A" s2 s3] *(1-3) out by simp
    moreover have "value_end (c # u)" using *(6) by (auto simp: value_end_def)
    ultimately obtain v t1 w where v: "el = Some v" "s3 = t1 @ w @ c # u" "value_text v t1" "ws w"
      using value_soundD *(4,5) by metis
    show "\<exists>t ms. x = Some (JObject (ret @ ms)) \<and> s = t @ r \<and> members_text ms t"
    proof (cases "c = 0x7D")
      case True
      with * v k w1 w2 show ?thesis
        by (intro exI [of _ "0x22 # k @ 0x22 # w1 @ 0x3A # w2 @ t1 @ w @ [0x7D]"] exI [of _ "[(d, v)]"])
          (auto simp: add_member_def intro: value_text_elements_text_members_text.intros)
    next
      case False
      with *(6) obtain s4 where s4: "c = 0x2C" "skip_space u = Inr s4"
        "object_loop out (add_member ret key el) s4 = Accept x r" by blast
      obtain w' where w': "u = w' @ s4" "ws w'" using skip_space_sound [OF s4(2)] by blast
      have "\<exists>t ms. x = Some (JObject ((ret @ [(d, v)]) @ ms)) \<and> s4 = t @ r \<and> members_text ms t"
        using 5(2) [of key s1 "0x3A # s2" "0x3A" s2 s3 el t "c # u" c u s4] * s4 out v(1) k(1)
        by (simp add: add_member_def)
      then obtain t' ms where "x = Some (JObject ((ret @ [(d, v)]) @ ms))" "s4 = t' @ r"
        "members_text ms t'" by blast
      with v k w1 w2 w' s4(1) show ?thesis
        by (intro exI [of _ "0x22 # k @ 0x22 # w1 @ 0x3A # w2 @ t1 @ w @ 0x2C # w' @ t'"]
            exI [of _ "(d, v) # ms"])
          (auto intro: value_text_elements_text_members_text.intros)
    qed
  qed
qed

section \<open>The parser decides the grammar\<close>

lemma skip_to_nul: "skip_space s = Inr (0 # t) \<longleftrightarrow> (\<exists>w. s = w @ 0 # t \<and> ws w)"
  using skip_space_sound [of s "0 # t"] skip_space_append [of _ "0 # t"]
  by (auto simp: delimiters_not_space)

lemma ws_no_nul: "ws w \<Longrightarrow> no_nul w"
  by (auto simp: ws_is_space no_nul_def delimiters_not_space)

lemma value_text_no_nul:
  assumes "value_text v t" shows "no_nul t"
proof -
  have "parse_value True (t @ [0]) = Accept (Some v) [0]"
    using assms by (rule texts_complete) (rule value_end_Cons)
  then have "reads (t @ [0]) [0]" by (rule parsers_read)
  then show ?thesis by (auto simp: reads_def)
qed

lemma json_decode_Some:
  "json_decode s = Inr (Some v) \<longleftrightarrow>
   (\<exists>s1 s2 t. skip_space s = Inr s1 \<and> parse_value True s1 = Accept (Some v) s2 \<and> skip_space s2 = Inr (0 # t))"
  by (auto simp: json_decode_def c_iff split: option.splits if_splits prod.splits)

lemma decode_iff_text:
  assumes "nulterm s"
  shows "json_decode s = Inr (Some v) \<longleftrightarrow> json_text_of v (cstring s)"
proof
  assume "json_decode s = Inr (Some v)"
  then obtain s1 s2 t where p: "skip_space s = Inr s1" "parse_value True s1 = Accept (Some v) s2"
    "skip_space s2 = Inr (0 # t)"
    by (auto simp: json_decode_Some)
  obtain w where w: "s = w @ s1" "ws w" using skip_space_sound [OF p(1)] by blast
  have "value_sound (parse_value True s1) s1" using texts_sound(1) [of True s1] by simp
  then obtain v' t1 w' where "Some v = Some v'" "s1 = t1 @ w' @ 0 # t" "value_text v' t1" "ws w'"
    using p(2,3) value_end_Cons(4) by (rule value_soundD)
  then have v: "s1 = t1 @ w' @ 0 # t" "value_text v t1" "ws w'" by simp_all
  then have "s = (w @ t1 @ w') @ 0 # t" using w by simp
  then have "cstring s = w @ t1 @ w'"
    using w(2) v value_text_no_nul by (metis cstring_append_nul no_nul_simps(3) ws_no_nul)
  then show "json_text_of v (cstring s)" using w(2) v(2,3) by (auto simp: json_text_of_def)
next
  assume "json_text_of v (cstring s)"
  then obtain w t w' where t: "cstring s = w @ t @ w'" "ws w" "ws w'" "value_text v t"
    by (auto simp: json_text_of_def)
  obtain r where s: "s = w @ t @ w' @ 0 # r" using nulterm_split [OF assms] t(1) by auto
  have "not_space (t @ w' @ 0 # r)"
    using value_text_hd [OF t(4)] value_start_other by (auto simp: not_space_def)
  then have "skip_space s = Inr (t @ w' @ 0 # r)" unfolding s using t(2) by (intro skip_space_append)
  moreover have "value_end (w' @ 0 # r)" using t(3) by (intro value_end_ws value_end_Cons)
  then have "parse_value True (t @ w' @ 0 # r) = Accept (Some v) (w' @ 0 # r)"
    using t(4) by (intro texts_complete)
  moreover have "skip_space (w' @ 0 # r) = Inr (0 # r)" using t(3) by (auto simp: skip_to_nul)
  ultimately show "json_decode s = Inr (Some v)" by (auto simp: json_decode_Some)
qed

text \<open>C1: \<open>json_decode\<close> is correct and complete for the JSON grammar: on a C string it yields the
  value \<open>v\<close> exactly when the string, up to its terminating zero, is a text of \<open>v\<close>.\<close>

theorem json_decode_grammar:
  assumes "nulterm s"
  shows "json_decode s = Inr (Some v) \<longleftrightarrow> json_text_of v (cstring s)"
  using assms by (rule decode_iff_text)

theorem json_decode_grammar_witness:
  "json_decode (ascii ''[ null]'' @ [0]) = Inr (Some (JArray [JNull])) \<longleftrightarrow>
     json_text_of (JArray [JNull]) (cstring (ascii ''[ null]'' @ [0]))"
  by (rule json_decode_grammar) code_simp

end
