(* ===== verification/Json_Roundtrip.thy ===== *)
theory Json_Roundtrip
  imports Json_Emit Json_Grammar
begin

text \<open>
  Printing and parsing together: what \<open>json_stringify\<close> prints is a text of the value in the
  sense of the grammar, so \<open>json_decode\<close> gives the value back. Two conditions are needed. A
  number must be one that sixteen digits determine (every integer below \<open>10 ^ 15\<close> is); and
  no string may hold the byte \<open>0x1F\<close>, which \<open>emit_string\<close> forgets to escape (it tests
  \<open>c < 0x1F\<close>) and \<open>parse_string\<close> rejects.
\<close>

lemma hex4_write: "hex4 (write_hex16 v) v"
  using hex16_sound [OF hex_round [of v "[]"]] by simp

lemma char_text_ascii:
  assumes "c \<noteq> 0" and "unat c < 128" and "c \<noteq> 0x1F"
  shows "char_text [c] (escape_byte c)"
proof (cases "c \<in> {0x22, 0x5C, 0x08, 0x0C, 0x0A, 0x0D, 0x09}")
  case True
  then show ?thesis
    by (auto simp: escape_byte_def simple_escapes_def intro: char_text.Escape)
next
  case esc: False
  have enc: "utf8_enc (ucast c) = [c]" using assms(2) by (rule utf8_enc_ascii)
  show ?thesis
  proof (cases "c < 0x1F")
    case True
    have "\<not> surrogate (ucast c)" "(ucast c :: u16) \<noteq> 0" "(ucast (ucast c :: u16) :: uchar) = ucast c"
      using assms(1,2) by (auto simp: surrogate_def word_le_nat_alt word_unat_eq_iff word_arith)
    with char_text.Unicode [OF hex4_write, of "ucast c"] enc have
      "char_text [c] (0x5C # 0x75 # write_hex16 (ucast c))" by simp
    with True esc show ?thesis by (simp add: escape_byte_def)
  next
    case False
    have "scalar (ucast c)" using assms(2) by (simp add: scalar_iff scalar_value_def word_arith)
    moreover have "0x20 \<le> (ucast c :: uchar)" "(ucast c :: uchar) \<noteq> 0x22" "(ucast c :: uchar) \<noteq> 0x5C"
      using assms(3) esc False
      by (auto simp: word_le_nat_alt word_less_nat_alt word_unat_eq_iff word_arith)
    ultimately have "char_text [c] [c]" using char_text.Plain [of "ucast c"] enc by simp
    with False esc show ?thesis by (simp add: escape_byte_def)
  qed
qed

lemma chars_text_escape:
  "utf8_text s \<Longrightarrow> 0x1F \<notin> set s \<Longrightarrow> chars_text s (concat (map escape_byte s))"
proof (induction rule: utf8_text.induct)
  case Nil
  then show ?case by (simp add: chars_text.Nil)
next
  case (Char u bs)
  have "char_text (utf8_enc u) (concat (map escape_byte (utf8_enc u)))"
    using Char(1,2)
  proof (cases rule: utf8_enc_cases)
    case (ascii c)
    then show ?thesis using Char(5) char_text_ascii [of c] by auto
  next
    case (long c cs)
    have "0x20 \<le> u" "u \<noteq> 0x22" "u \<noteq> 0x5C" using long(3) by (auto simp: word_le_nat_alt)
    with Char(1) show ?thesis
      using concat_escape_high [OF long(2)] by (simp add: char_text.Plain)
  qed
  with Char show ?case by (auto intro: chars_text.Cons)
qed

section \<open>Values that survive\<close>

definition plain_text :: "byte list \<Rightarrow> bool" where
  "plain_text s \<longleftrightarrow> utf8_text s \<and> 0x1F \<notin> set s"

fun round_ok :: "json \<Rightarrow> bool" where
  "round_ok (JString s) = plain_text s"
| "round_ok (JNumber d) = (valid_double d \<and> num_ok d)"
| "round_ok (JArray es) = (\<forall>e \<in> set es. round_ok e)"
| "round_ok (JObject ms) = (\<forall>m \<in> set ms. plain_text (fst m) \<and> round_ok (snd m))"
| "round_ok v = True"

lemma round_ok_printable: "round_ok v \<Longrightarrow> printable v"
  by (induction v rule: round_ok.induct) (auto simp: plain_text_def)

lemma string_text: "plain_text s \<Longrightarrow> value_text (JString s) (render_string s)"
  using value_text_elements_text_members_text.String [OF chars_text_escape]
  by (simp add: plain_text_def render_string_def)

lemma number_text: "num_ok d \<Longrightarrow> value_text (JNumber d) (render_number d)"
  using value_text_elements_text_members_text.Number [OF fmt_g16_number [of d]]
  by (auto simp: num_ok_def render_number_def)

lemma ws_simps [simp]: "ws []" "ws (c # w) \<longleftrightarrow> is_space c \<and> ws w" "ws (v @ w) \<longleftrightarrow> ws v \<and> ws w"
  by (auto simp: ws_is_space)

lemma member_text:
  assumes "plain_text k" and "value_text v t" and "ws w1" and "ws w2" and "ws w3"
  shows "members_text [(k, v)] (render_string k @ w1 @ 0x3A # w2 @ t @ w3 @ [0x7D])"
    and "ws w4 \<Longrightarrow> members_text ms t' \<Longrightarrow>
      members_text ((k, v) # ms) (render_string k @ w1 @ 0x3A # w2 @ t @ w3 @ 0x2C # w4 @ t')"
  using assms value_text_elements_text_members_text.Member_Last [OF chars_text_escape, of k w1 w2 v t w3]
    value_text_elements_text_members_text.Member_More [OF chars_text_escape, of k w1 w2 v t w3 w4 ms t']
  by (auto simp: plain_text_def render_string_def)

lemma render_text:
  "round_ok v \<longrightarrow> value_text v (render v)"
  "(\<forall>e \<in> set es. round_ok e) \<longrightarrow> es \<noteq> [] \<longrightarrow> elements_text es (render_elements es @ [0x5D])"
  "(\<forall>m \<in> set ms. plain_text (fst m) \<and> round_ok (snd m)) \<longrightarrow> ms \<noteq> [] \<longrightarrow>
     members_text ms (render_members ms @ [0x7D])"
proof (induction v and es and ms rule: render_render_elements_render_members.induct)
  case (5 es)
  then show ?case
    using value_text_elements_text_members_text.Array_Empty [of "[]"]
      value_text_elements_text_members_text.Array [of "[]" es]
    by (cases "es = []") auto
next
  case (6 ms)
  then show ?case
    using value_text_elements_text_members_text.Object_Empty [of "[]"]
      value_text_elements_text_members_text.Object [of "[]" ms]
    by (cases "ms = []") auto
next
  case (8 e rest)
  then show ?case
    using value_text_elements_text_members_text.Element_Last [of e "render e" "[]"]
      value_text_elements_text_members_text.Element_More [of e "render e" "[]" "[]" rest]
    by (cases "rest = []") auto
next
  case (10 k e rest)
  then show ?case
    using member_text(1) [of k e "render e" "[]" "[]" "[]"] member_text(2) [of k e "render e" "[]" "[]" "[]" "[]" rest]
    by (cases "rest = []") auto
qed (auto intro: value_text_elements_text_members_text.intros string_text number_text)

lemma ws_spaces: "ws sp \<Longrightarrow> ws (spaces sp k)"
  by (induction k) (simp_all add: spaces_def)

lemma newline_space [simp]: "is_space 0x0A" "is_space 0x20"
  by (simp_all add: is_space_def)

lemma ascii_brackets: "ascii ''[]'' = [0x5B, 0x5D]" "ascii ''{}'' = [0x7B, 0x7D]"
  by (simp_all add: ascii_def of_char_def)

lemma render_indented_text:
  assumes "ws sp"
  shows "round_ok v \<longrightarrow> value_text v (render_indented sp n v)"
    "(\<forall>e \<in> set es. round_ok e) \<longrightarrow> es \<noteq> [] \<longrightarrow> (\<exists>t. elements_text es t \<and>
       render_elements_indented sp n es @ spaces sp n @ [0x5D] = spaces sp (n + 1) @ t)"
    "(\<forall>m \<in> set ms. plain_text (fst m) \<and> round_ok (snd m)) \<longrightarrow> ms \<noteq> [] \<longrightarrow> (\<exists>t. members_text ms t \<and>
       render_members_indented sp n ms @ spaces sp n @ [0x7D] = spaces sp (n + 1) @ t)"
  using assms
proof (induction sp n v and sp n es and sp n ms
    rule: render_indented_render_elements_indented_render_members_indented.induct)
  case (5 sp n es)
  show ?case
  proof (cases "es = []")
    case True
    then show ?thesis
      using value_text_elements_text_members_text.Array_Empty [of "[]"] by (simp add: ascii_brackets)
  next
    case False
    show ?thesis
    proof
      assume "round_ok (JArray es)"
      with 5 False obtain t where t: "elements_text es t"
        "render_elements_indented sp n es @ spaces sp n @ [0x5D] = spaces sp (n + 1) @ t" by auto
      have "ws (0x0A # spaces sp (n + 1))" using 5 ws_spaces by simp
      from value_text_elements_text_members_text.Array [OF this t(1)] t(2) False
      show "value_text (JArray es) (render_indented sp n (JArray es))" by simp
    qed
  qed
next
  case (6 sp n ms)
  show ?case
  proof (cases "ms = []")
    case True
    then show ?thesis
      using value_text_elements_text_members_text.Object_Empty [of "[]"] by (simp add: ascii_brackets)
  next
    case False
    show ?thesis
    proof
      assume "round_ok (JObject ms)"
      with 6 False obtain t where t: "members_text ms t"
        "render_members_indented sp n ms @ spaces sp n @ [0x7D] = spaces sp (n + 1) @ t" by auto
      have "ws (0x0A # spaces sp (n + 1))" using 6 ws_spaces by simp
      from value_text_elements_text_members_text.Object [OF this t(1)] t(2) False
      show "value_text (JObject ms) (render_indented sp n (JObject ms))" by simp
    qed
  qed
next
  case (8 sp n e rest)
  let ?t = "render_indented sp (n + 1) e"
  show ?case
  proof (intro impI)
    assume ok: "\<forall>x \<in> set (e # rest). round_ok x"
    then have e: "value_text e ?t" using 8 by simp
    show "\<exists>t. elements_text (e # rest) t \<and>
       render_elements_indented sp n (e # rest) @ spaces sp n @ [0x5D] = spaces sp (n + 1) @ t"
    proof (cases "rest = []")
      case True
      have "elements_text [e] (?t @ (0x0A # spaces sp n) @ [0x5D])"
        by (rule value_text_elements_text_members_text.Element_Last [OF e]) (use 8 ws_spaces in simp)
      with True show ?thesis by (intro exI [of _ "?t @ (0x0A # spaces sp n) @ [0x5D]"]) simp
    next
      case False
      with 8 ok obtain t' where t': "elements_text rest t'"
        "render_elements_indented sp n rest @ spaces sp n @ [0x5D] = spaces sp (n + 1) @ t'" by auto
      have "elements_text (e # rest) (?t @ [] @ 0x2C # (0x0A # spaces sp (n + 1)) @ t')"
        by (rule value_text_elements_text_members_text.Element_More [OF e _ _ t'(1)])
          (use 8 ws_spaces in simp_all)
      with False t'(2) show ?thesis
        by (intro exI [of _ "?t @ 0x2C # 0x0A # spaces sp (n + 1) @ t'"]) simp
    qed
  qed
next
  case (10 sp n k e rest)
  let ?t = "render_indented sp (n + 1) e"
  show ?case
  proof (intro impI)
    assume ok: "\<forall>m \<in> set ((k, e) # rest). plain_text (fst m) \<and> round_ok (snd m)"
    then have e: "value_text e ?t" and k: "plain_text k" using 10 by simp_all
    show "\<exists>t. members_text ((k, e) # rest) t \<and>
       render_members_indented sp n ((k, e) # rest) @ spaces sp n @ [0x7D] = spaces sp (n + 1) @ t"
    proof (cases "rest = []")
      case True
      have "members_text [(k, e)] (render_string k @ [] @ 0x3A # [0x20] @ ?t @ (0x0A # spaces sp n) @ [0x7D])"
        by (rule member_text(1) [OF k e]) (use 10 ws_spaces in simp_all)
      with True show ?thesis
        by (intro exI [of _ "render_string k @ 0x3A # 0x20 # ?t @ 0x0A # spaces sp n @ [0x7D]"]) simp
    next
      case False
      with 10 ok obtain t' where t': "members_text rest t'"
        "render_members_indented sp n rest @ spaces sp n @ [0x7D] = spaces sp (n + 1) @ t'" by auto
      have "members_text ((k, e) # rest)
          (render_string k @ [] @ 0x3A # [0x20] @ ?t @ [] @ 0x2C # (0x0A # spaces sp (n + 1)) @ t')"
        by (rule member_text(2) [OF k e _ _ _ _ t'(1)]) (use 10 ws_spaces in simp_all)
      with False t'(2) show ?thesis
        by (intro exI [of _ "render_string k @ 0x3A # 0x20 # ?t @ 0x2C # 0x0A # spaces sp (n + 1) @ t'"]) simp
    qed
  qed
qed (auto intro: value_text_elements_text_members_text.intros string_text number_text)

section \<open>The round trip\<close>

lemma stringify_decode:
  assumes "round_ok v" and "\<forall>sp. space = Some sp \<longrightarrow> ws sp"
    and "json_stringify v space = Inr text"
  shows "json_decode (text @ 0 # rest) = Inr (Some v)"
proof -
  have sp: "\<forall>sp. space = Some sp \<longrightarrow> no_nul sp" using assms(2) ws_no_nul by blast
  have t: "text = json_text v space"
    using json_stringify_text_eq [OF round_ok_printable [OF assms(1)] sp] assms(3) by simp
  have "value_text v text"
    using assms(1,2) render_text(1) render_indented_text(1) by (auto simp: t json_text_def split: option.split)
  moreover from this have "no_nul text" by (rule value_text_no_nul)
  then have "cstring (text @ 0 # rest) = [] @ text @ []" by simp
  ultimately have "json_text_of v (cstring (text @ 0 # rest))"
    unfolding json_text_of_def using ws_simps(1) by blast
  then show ?thesis using decode_iff_text [of "text @ 0 # rest" v] by simp
qed




section \<open>Decoded values can be printed\<close>

lemma d_zero_valid [simp]: "valid_double (d_zero n)"
  by (simp add: d_zero_def)

lemma signed_round_valid [simp]: "valid_double (signed_round neg x)"
  by (simp add: signed_round_def)

lemma strtod_valid: "valid_double (strtod s)"
  by (simp add: strtod_def strtod_hex_def strtod_dec_def split: prod.split)

lemma value_text_printable:
  "value_text v t \<Longrightarrow> json_texts v \<Longrightarrow> printable v"
  "elements_text es t' \<Longrightarrow> \<forall>e \<in> set es. json_texts e \<Longrightarrow> \<forall>e \<in> set es. printable e"
  "members_text ms t'' \<Longrightarrow> \<forall>m \<in> set ms. utf8_text (fst m) \<and> json_texts (snd m) \<Longrightarrow>
     \<forall>m \<in> set ms. utf8_text (fst m) \<and> printable (snd m)"
  by (induction rule: value_text_elements_text_members_text.inducts) (auto simp: strtod_valid)

lemma decode_printable:
  assumes "nulterm s" and "json_decode s = Inr (Some v)"
  shows "printable v"
proof -
  have "json_text_of v (cstring s)" using assms decode_iff_text by blast
  then obtain t where "value_text v t" unfolding json_text_of_def by blast
  moreover have "json_texts v" using decode_safe [OF assms(1)] assms(2) by auto
  ultimately show ?thesis by (rule value_text_printable(1))
qed

text \<open>Decoding never faults on a C string.\<close>

lemma decodeE:
  assumes "nulterm s"
  obtains "json_decode s = Inr None" | v where "json_decode s = Inr (Some v)" "printable v"
  using decode_safe [OF assms] decode_printable [OF assms] by (metis option.exhaust)

end
