(* ===== verification/Json_Nodes.thy ===== *)
theory Json_Nodes
  imports Json_Tree Utf8
begin

text \<open>
  The nodes of json.c as the linked structures that they are: every node has pointers to its parent
  and its siblings, and an array or an object has pointers to its first and its last child. The other
  theories use JSON values as a datatype (Json_Tree); this theory models the functions that build,
  change, search, check and free nodes in memory. Json_Heap shows what they do to the values.

  Memory is a partial map from addresses to nodes: an access to an address without a node, a freed
  one or the null pointer (\<open>None\<close>) among them, is the fault \<open>BadPointer\<close>. A string that a node owns is
  the list of its bytes before the zero. \<open>calloc\<close> gives a node of zeros at an address that is an
  argument of the model.
\<close>

section \<open>Nodes\<close>

datatype JsonTag = JSON_NULL | JSON_BOOL | JSON_STRING | JSON_NUMBER | JSON_ARRAY | JSON_OBJECT

text \<open>The enumerators are the numbers from 0 on; a variable of the type may hold any number.\<close>

fun tag_no :: "JsonTag \<Rightarrow> 32 word" where
  "tag_no JSON_NULL = 0"
| "tag_no JSON_BOOL = 1"
| "tag_no JSON_STRING = 2"
| "tag_no JSON_NUMBER = 3"
| "tag_no JSON_ARRAY = 4"
| "tag_no JSON_OBJECT = 5"

instantiation JsonTag :: linorder
begin

definition less_eq_JsonTag :: "JsonTag \<Rightarrow> JsonTag \<Rightarrow> bool" where
  "less_eq_JsonTag s t \<longleftrightarrow> tag_no s \<le> tag_no t"

definition less_JsonTag :: "JsonTag \<Rightarrow> JsonTag \<Rightarrow> bool" where
  "less_JsonTag s t \<longleftrightarrow> tag_no s < tag_no t"

instance
proof
  fix s t u :: JsonTag
  show "s < t \<longleftrightarrow> s \<le> t \<and> \<not> t \<le> s" by (auto simp: less_eq_JsonTag_def less_JsonTag_def)
  show "s \<le> s" by (simp add: less_eq_JsonTag_def)
  show "s \<le> t \<or> t \<le> s" unfolding less_eq_JsonTag_def by (rule linear)
  show "s \<le> t \<Longrightarrow> t \<le> u \<Longrightarrow> s \<le> u" unfolding less_eq_JsonTag_def by (rule order_trans)
  assume "s \<le> t" "t \<le> s"
  then have "tag_no s = tag_no t" unfolding less_eq_JsonTag_def by (rule order_antisym)
  then show "s = t" by (cases s; cases t) simp_all
qed

end

type_synonym ptr = "nat option"

text \<open>The union: zeros, or the member that was stored last.\<close>

datatype payload =
    PZero
  | PBool bool
  | PString "byte list option"
  | PNumber double
  | PChildren ptr ptr

record jnode =
  parent :: ptr
  prev :: ptr
  nxt :: ptr
  nkey :: "byte list option"
  tag :: "32 word"
  payload :: payload

type_synonym cells = "nat \<Rightarrow> jnode option"

definition deref :: "cells \<Rightarrow> ptr \<Rightarrow> jnode cres" where
  "deref h p = (case p of None \<Rightarrow> Inl BadPointer
     | Some a \<Rightarrow> (case h a of None \<Rightarrow> Inl BadPointer | Some n \<Rightarrow> Inr n))"

definition modify :: "cells \<Rightarrow> ptr \<Rightarrow> (jnode \<Rightarrow> jnode cres) \<Rightarrow> cells cres" where
  "modify h p f = c_bind (deref h p) (\<lambda>n. c_bind (f n) (\<lambda>n'. Inr (h(the p \<mapsto> n'))))"

text \<open>Reading a member of the union; zeros are null pointers, false and the number zero.\<close>

definition children :: "jnode \<Rightarrow> (ptr \<times> ptr) cres" where
  "children n = (case payload n of PChildren front back \<Rightarrow> Inr (front, back) | PZero \<Rightarrow> Inr (None, None) | _ \<Rightarrow> Inl BadPointer)"

definition bool_of :: "jnode \<Rightarrow> bool cres" where
  "bool_of n = (case payload n of PBool b \<Rightarrow> Inr b | PZero \<Rightarrow> Inr False | _ \<Rightarrow> Inl BadPointer)"

definition string_of :: "jnode \<Rightarrow> byte list option cres" where
  "string_of n = (case payload n of PString s \<Rightarrow> Inr s | PZero \<Rightarrow> Inr None | _ \<Rightarrow> Inl BadPointer)"

definition set_head :: "ptr \<Rightarrow> jnode \<Rightarrow> jnode cres" where
  "set_head p n = c_bind (children n) (\<lambda>(front, back). Inr (n\<lparr>payload := PChildren p back\<rparr>))"

definition set_tail :: "ptr \<Rightarrow> jnode \<Rightarrow> jnode cres" where
  "set_tail p n = c_bind (children n) (\<lambda>(front, back). Inr (n\<lparr>payload := PChildren front p\<rparr>))"

section \<open>Construction\<close>

definition mknode :: "nat \<Rightarrow> JsonTag \<Rightarrow> cells \<Rightarrow> cells" where
  "mknode a t h = h(a \<mapsto> \<lparr>parent = None, prev = None, nxt = None, nkey = None, tag = tag_no t, payload = PZero\<rparr>)"

definition hjson_mknull :: "nat \<Rightarrow> cells \<Rightarrow> cells" where
  "hjson_mknull a h = mknode a JSON_NULL h"

definition hjson_mkbool :: "nat \<Rightarrow> bool \<Rightarrow> cells \<Rightarrow> cells cres" where
  "hjson_mkbool a b h = modify (mknode a JSON_BOOL h) (Some a) (\<lambda>n. Inr (n\<lparr>payload := PBool b\<rparr>))"

definition hmkstring :: "nat \<Rightarrow> byte list option \<Rightarrow> cells \<Rightarrow> cells cres" where
  "hmkstring a s h = modify (mknode a JSON_STRING h) (Some a) (\<lambda>n. Inr (n\<lparr>payload := PString s\<rparr>))"

definition hjson_mkstring :: "nat \<Rightarrow> byte list \<Rightarrow> cells \<Rightarrow> cells cres" where
  "hjson_mkstring a s h = hmkstring a (Some (cstring s)) h"

definition hjson_mknumber :: "nat \<Rightarrow> double \<Rightarrow> cells \<Rightarrow> cells cres" where
  "hjson_mknumber a d h = modify (mknode a JSON_NUMBER h) (Some a) (\<lambda>n. Inr (n\<lparr>payload := PNumber d\<rparr>))"

definition hjson_mkarray :: "nat \<Rightarrow> cells \<Rightarrow> cells" where
  "hjson_mkarray a h = mknode a JSON_ARRAY h"

definition hjson_mkobject :: "nat \<Rightarrow> cells \<Rightarrow> cells" where
  "hjson_mkobject a h = mknode a JSON_OBJECT h"

definition append_node :: "cells \<Rightarrow> ptr \<Rightarrow> ptr \<Rightarrow> cells cres" where
  "append_node h par child =
     c_bind (modify h child (\<lambda>c. Inr (c\<lparr>parent := par\<rparr>))) (\<lambda>h.
     c_bind (c_bind (deref h par) children) (\<lambda>(_, back).
     c_bind (modify h child (\<lambda>c. Inr (c\<lparr>prev := back, nxt := None\<rparr>))) (\<lambda>h.
     c_bind (if back \<noteq> None then modify h back (\<lambda>l. Inr (l\<lparr>nxt := child\<rparr>)) else modify h par (set_head child)) (\<lambda>h.
       modify h par (set_tail child)))))"

definition prepend_node :: "cells \<Rightarrow> ptr \<Rightarrow> ptr \<Rightarrow> cells cres" where
  "prepend_node h par child =
     c_bind (modify h child (\<lambda>c. Inr (c\<lparr>parent := par, prev := None\<rparr>))) (\<lambda>h.
     c_bind (c_bind (deref h par) children) (\<lambda>(front, _).
     c_bind (modify h child (\<lambda>c. Inr (c\<lparr>nxt := front\<rparr>))) (\<lambda>h.
     c_bind (if front \<noteq> None then modify h front (\<lambda>f. Inr (f\<lparr>prev := child\<rparr>)) else modify h par (set_tail child)) (\<lambda>h.
       modify h par (set_head child)))))"

text \<open>The two assertions of the four functions that add a child.\<close>

definition assert_free :: "cells \<Rightarrow> ptr \<Rightarrow> JsonTag \<Rightarrow> ptr \<Rightarrow> cells cres \<Rightarrow> cells cres" where
  "assert_free h par t child k =
     c_bind (deref h par) (\<lambda>p. c_assert (tag p = tag_no t) (
     c_bind (deref h child) (\<lambda>c. c_assert (parent c = None) k)))"

definition set_key :: "byte list \<Rightarrow> jnode \<Rightarrow> jnode cres" where
  "set_key k c = Inr (c\<lparr>nkey := Some k\<rparr>)"

definition append_member :: "cells \<Rightarrow> ptr \<Rightarrow> byte list \<Rightarrow> ptr \<Rightarrow> cells cres" where
  "append_member h object k v = c_bind (modify h v (set_key k)) (\<lambda>h. append_node h object v)"

definition hjson_append_element :: "cells \<Rightarrow> ptr \<Rightarrow> ptr \<Rightarrow> cells cres" where
  "hjson_append_element h array element = assert_free h array JSON_ARRAY element (append_node h array element)"

definition hjson_prepend_element :: "cells \<Rightarrow> ptr \<Rightarrow> ptr \<Rightarrow> cells cres" where
  "hjson_prepend_element h array element = assert_free h array JSON_ARRAY element (prepend_node h array element)"

definition hjson_append_member :: "cells \<Rightarrow> ptr \<Rightarrow> byte list \<Rightarrow> ptr \<Rightarrow> cells cres" where
  "hjson_append_member h object k v = assert_free h object JSON_OBJECT v (append_member h object (cstring k) v)"

definition hjson_prepend_member :: "cells \<Rightarrow> ptr \<Rightarrow> byte list \<Rightarrow> ptr \<Rightarrow> cells cres" where
  "hjson_prepend_member h object k v = assert_free h object JSON_OBJECT v
     (c_bind (modify h v (set_key (cstring k))) (\<lambda>h. prepend_node h object v))"

section \<open>Removal\<close>

definition hjson_remove_from_parent :: "cells \<Rightarrow> ptr \<Rightarrow> cells cres" where
  "hjson_remove_from_parent h p =
     c_bind (deref h p) (\<lambda>n.
       if parent n \<noteq> None then
         c_bind (if prev n \<noteq> None then modify h (prev n) (\<lambda>m. Inr (m\<lparr>nxt := nxt n\<rparr>))
                 else modify h (parent n) (set_head (nxt n))) (\<lambda>h.
         c_bind (if nxt n \<noteq> None then modify h (nxt n) (\<lambda>m. Inr (m\<lparr>prev := prev n\<rparr>))
                 else modify h (parent n) (set_tail (prev n))) (\<lambda>h.
           modify h p (\<lambda>m. Inr (m\<lparr>parent := None, prev := None, nxt := None, nkey := None\<rparr>))))
       else Inr h)"

text \<open>
  The fuel bounds the recursion together with the loop over the children; a structure with a cycle
  would use up any amount.
\<close>

fun hjson_delete :: "nat \<Rightarrow> cells \<Rightarrow> ptr \<Rightarrow> cells cres"
  and delete_children :: "nat \<Rightarrow> cells \<Rightarrow> ptr \<Rightarrow> cells cres" where
  "hjson_delete 0 h p = Inl NoReturn"
| "hjson_delete (Suc fuel) h p =
     (case p of None \<Rightarrow> Inr h
      | Some a \<Rightarrow>
          c_bind (hjson_remove_from_parent h p) (\<lambda>h.
          c_bind (deref h p) (\<lambda>n.
          c_bind (if tag n = tag_no JSON_ARRAY \<or> tag n = tag_no JSON_OBJECT then
                    c_bind (children n) (\<lambda>(front, _). delete_children fuel h front)
                  else Inr h) (\<lambda>h. Inr (h(a := None))))))"
| "delete_children 0 h child = Inl NoReturn"
| "delete_children (Suc fuel) h child =
     (case child of None \<Rightarrow> Inr h
      | Some _ \<Rightarrow>
          c_bind (deref h child) (\<lambda>c.
          c_bind (hjson_delete fuel h child) (\<lambda>h. delete_children fuel h (nxt c))))"

section \<open>Search\<close>

definition hjson_first_child :: "cells \<Rightarrow> ptr \<Rightarrow> ptr cres" where
  "hjson_first_child h p =
     (if p = None then Inr None
      else c_bind (deref h p) (\<lambda>n.
        if tag n = tag_no JSON_ARRAY \<or> tag n = tag_no JSON_OBJECT then c_bind (children n) (\<lambda>(front, _). Inr front)
        else Inr None))"

fun find_nth_child :: "nat \<Rightarrow> cells \<Rightarrow> ptr \<Rightarrow> int \<Rightarrow> int \<Rightarrow> ptr cres" where
  "find_nth_child 0 h element i index = Inl NoReturn"
| "find_nth_child (Suc fuel) h element i index =
     (if element = None then Inr None
      else if i = index then Inr element
      else c_bind (deref h element) (\<lambda>n. find_nth_child fuel h (nxt n) (i + 1) index))"

definition hjson_find_element :: "nat \<Rightarrow> cells \<Rightarrow> ptr \<Rightarrow> int \<Rightarrow> ptr cres" where
  "hjson_find_element fuel h array index =
     (if array = None then Inr None
      else c_bind (deref h array) (\<lambda>n.
        if tag n \<noteq> tag_no JSON_ARRAY then Inr None
        else c_bind (hjson_first_child h array) (\<lambda>p. find_nth_child fuel h p 0 index)))"

fun find_key_child :: "nat \<Rightarrow> cells \<Rightarrow> ptr \<Rightarrow> byte list \<Rightarrow> ptr cres" where
  "find_key_child 0 h member name = Inl NoReturn"
| "find_key_child (Suc fuel) h member name =
     (if member = None then Inr None
      else c_bind (deref h member) (\<lambda>n. case nkey n of
        None \<Rightarrow> Inl BadPointer
      | Some k \<Rightarrow> if k = cstring name then Inr member else find_key_child fuel h (nxt n) name))"

definition hjson_find_member :: "nat \<Rightarrow> cells \<Rightarrow> ptr \<Rightarrow> byte list \<Rightarrow> ptr cres" where
  "hjson_find_member fuel h object name =
     (if object = None then Inr None
      else c_bind (deref h object) (\<lambda>n.
        if tag n \<noteq> tag_no JSON_OBJECT then Inr None
        else c_bind (hjson_first_child h object) (\<lambda>p. find_key_child fuel h p name)))"

section \<open>The check of a structure\<close>

definition tag_is_valid :: "32 word \<Rightarrow> bool" where
  "tag_is_valid t \<longleftrightarrow> t \<le> tag_no JSON_OBJECT"

text \<open>\<open>!utf8_validate(s)\<close> is a problem; the texts of the messages are left out.\<close>

definition text_ok :: "byte list \<Rightarrow> bool cres" where
  "text_ok s = utf8_validate (s @ [0])"

definition problem_or :: "bool \<Rightarrow> bool cres \<Rightarrow> bool cres" where
  "problem_or problem k = (if problem then Inr False else k)"

fun hjson_check :: "nat \<Rightarrow> cells \<Rightarrow> ptr \<Rightarrow> bool cres"
  and check_children :: "nat \<Rightarrow> cells \<Rightarrow> ptr \<Rightarrow> 32 word \<Rightarrow> ptr \<Rightarrow> ptr \<Rightarrow> ptr \<Rightarrow> ptr \<Rightarrow> bool cres" where
  "hjson_check 0 h p = Inl NoReturn"
| "hjson_check (Suc fuel) h p =
     c_bind (deref h p) (\<lambda>n.
     c_bind (case nkey n of None \<Rightarrow> Inr True | Some k \<Rightarrow> text_ok k) (\<lambda>ok.
     problem_or (\<not> ok) (
     problem_or (\<not> tag_is_valid (tag n)) (
     if tag n = tag_no JSON_BOOL then c_bind (bool_of n) (\<lambda>b. Inr (b = False \<or> b = True))
     else if tag n = tag_no JSON_STRING then
       c_bind (string_of n) (\<lambda>s. case s of None \<Rightarrow> Inr False | Some s \<Rightarrow> text_ok s)
     else if tag n = tag_no JSON_ARRAY \<or> tag n = tag_no JSON_OBJECT then
       c_bind (children n) (\<lambda>(front, back).
         if front = None \<or> back = None then Inr (front = None \<and> back = None)
         else c_bind (deref h front) (\<lambda>f. problem_or (prev f \<noteq> None)
           (check_children fuel h p (tag n) front back front None)))
     else Inr True))))"
| "check_children 0 h p t front back child lst = Inl NoReturn"
| "check_children (Suc fuel) h p t front back child lst =
     (if child = None then Inr (lst = back)
      else
        problem_or (child = p) (
        c_bind (deref h child) (\<lambda>c.
        problem_or (nxt c = child) (
        problem_or (nxt c = front) (
        problem_or (parent c \<noteq> p) (
        c_bind (if nxt c = None then Inr True else c_bind (deref h (nxt c)) (\<lambda>m. Inr (prev m = child))) (\<lambda>linked.
        problem_or (\<not> linked) (
        problem_or (t = tag_no JSON_ARRAY \<and> nkey c \<noteq> None) (
        problem_or (t = tag_no JSON_OBJECT \<and> nkey c = None) (
        c_bind (hjson_check fuel h child) (\<lambda>ok.
        problem_or (\<not> ok) (
          check_children fuel h p t front back (nxt c) child))))))))))))"

end
