(* ===== verification/Json_Heap.thy ===== *)
theory Json_Heap
  imports Json_Nodes Json_Emit
begin

text \<open>
  The functions of Json_Nodes on linked nodes do to the values what Json_Tree says: a tree of nodes with
  their addresses represents a value (\<open>rep\<close>, \<open>seg\<close>), adding, removing and finding children refine the
  functions on values, deleting frees exactly the nodes of a value, and the check accepts every linked
  value with valid strings. A change of one node keeps what the others represent (\<open>rep_frame\<close>).
\<close>

section \<open>The values in memory\<close>

text \<open>
  A value with the addresses of its nodes. A child comes with its key; the boolean of \<open>Branch\<close> tells
  an object from an array.
\<close>

datatype leaf = LNull | LBool bool | LString "byte list" | LNumber double

datatype tree = Leaf nat leaf | Branch nat bool "(byte list option \<times> tree) list"

type_synonym forest = "(byte list option \<times> tree) list"

fun addr :: "tree \<Rightarrow> nat" where
  "addr (Leaf a v) = a"
| "addr (Branch a ob ts) = a"

fun addrs :: "tree \<Rightarrow> nat list" and addrs_of :: "forest \<Rightarrow> nat list" where
  "addrs (Leaf a v) = [a]"
| "addrs (Branch a ob ts) = a # addrs_of ts"
| "addrs_of [] = []"
| "addrs_of ((k, t) # ts) = addrs t @ addrs_of ts"

fun erase_leaf :: "leaf \<Rightarrow> json" where
  "erase_leaf LNull = JNull"
| "erase_leaf (LBool b) = JBool b"
| "erase_leaf (LString s) = JString s"
| "erase_leaf (LNumber d) = JNumber d"

fun erase :: "tree \<Rightarrow> json" and erase_all :: "forest \<Rightarrow> (byte list \<times> json) list" where
  "erase (Leaf a v) = erase_leaf v"
| "erase (Branch a ob ts) = (if ob then JObject (erase_all ts) else JArray (map snd (erase_all ts)))"
| "erase_all [] = []"
| "erase_all ((k, t) # ts) = (case k of None \<Rightarrow> [] | Some k \<Rightarrow> k, erase t) # erase_all ts"

definition first_of :: "forest \<Rightarrow> ptr \<Rightarrow> ptr" where
  "first_of ts p = (case ts of [] \<Rightarrow> p | (k, t) # _ \<Rightarrow> Some (addr t))"

definition last_of :: "forest \<Rightarrow> ptr \<Rightarrow> ptr" where
  "last_of ts p = (if ts = [] then p else Some (addr (snd (last ts))))"

fun holds_leaf :: "jnode \<Rightarrow> leaf \<Rightarrow> bool" where
  "holds_leaf n LNull = (tag n = tag_no JSON_NULL)"
| "holds_leaf n (LBool b) = (tag n = tag_no JSON_BOOL \<and> bool_of n = Inr b)"
| "holds_leaf n (LString s) = (tag n = tag_no JSON_STRING \<and> string_of n = Inr (Some s) \<and> no_nul s)"
| "holds_leaf n (LNumber d) = (tag n = tag_no JSON_NUMBER \<and> payload n = PNumber d)"

definition holds_children :: "jnode \<Rightarrow> bool \<Rightarrow> forest \<Rightarrow> bool" where
  "holds_children n ob ts \<longleftrightarrow> tag n = tag_no (if ob then JSON_OBJECT else JSON_ARRAY)
     \<and> children n = Inr (first_of ts None, last_of ts None)"

text \<open>
  \<open>rep h t\<close>: the nodes of \<open>t\<close> are in \<open>h\<close>, linked as they should be; the links of the root are not
  looked at. \<open>seg h ob a p ts q\<close>: the trees \<open>ts\<close> are consecutive children of \<open>a\<close>, between the siblings
  \<open>p\<close> and \<open>q\<close>.
\<close>

fun rep :: "cells \<Rightarrow> tree \<Rightarrow> bool" and seg :: "cells \<Rightarrow> bool \<Rightarrow> nat \<Rightarrow> ptr \<Rightarrow> forest \<Rightarrow> ptr \<Rightarrow> bool" where
  "rep h (Leaf a v) = (case h a of None \<Rightarrow> False | Some n \<Rightarrow> holds_leaf n v)"
| "rep h (Branch a ob ts) =
     ((case h a of None \<Rightarrow> False | Some n \<Rightarrow> holds_children n ob ts) \<and> seg h ob a None ts None)"
| "seg h ob a p [] q = True"
| "seg h ob a p ((k, t) # ts) q =
     ((case h (addr t) of None \<Rightarrow> False
       | Some n \<Rightarrow> parent n = Some a \<and> prev n = p \<and> nxt n = first_of ts q \<and> nkey n = k \<and> (k \<noteq> None \<longleftrightarrow> ob)
           \<and> (case k of None \<Rightarrow> True | Some k \<Rightarrow> no_nul k))
      \<and> rep h t \<and> seg h ob a (Some (addr t)) ts q)"

text \<open>A value of its own: it has no parent, and no node occurs twice.\<close>

definition standalone :: "cells \<Rightarrow> tree \<Rightarrow> bool" where
  "standalone h t \<longleftrightarrow> rep h t \<and> distinct (addrs t)
     \<and> (case h (addr t) of None \<Rightarrow> False | Some n \<Rightarrow> parent n = None \<and> prev n = None \<and> nxt n = None \<and> nkey n = None)"

section \<open>Frames\<close>

lemma case_found: "(case x of None \<Rightarrow> False | Some n \<Rightarrow> P n) \<longleftrightarrow> (\<exists>n. x = Some n \<and> P n)"
  by (cases x) simp_all

fun below :: "tree \<Rightarrow> nat list" where
  "below (Leaf a v) = []"
| "below (Branch a ob ts) = addrs_of ts"

lemma addrs_below: "addrs t = addr t # below t"
  by (cases t) simp_all

lemma root_in [simp]: "addr t \<in> set (addrs t)"
  by (simp add: addrs_below)

lemma addrs_of_append [simp]: "addrs_of (xs @ ys) = addrs_of xs @ addrs_of ys"
  by (induction xs) auto

lemma erase_all_append [simp]: "erase_all (xs @ ys) = erase_all xs @ erase_all ys"
  by (induction xs) auto

lemma first_of_simps [simp]: "first_of [] q = q" "first_of ((k, t) # ts) q = Some (addr t)"
  by (simp_all add: first_of_def)

lemma last_of_simps [simp]: "last_of [] p = p" "last_of (ts @ [(k, t)]) p = Some (addr t)"
  "last_of ((k, t) # ts) p = last_of ts (Some (addr t))"
  by (simp_all add: last_of_def)

lemma first_of_append [simp]: "first_of (xs @ ys) q = first_of xs (first_of ys q)"
  by (cases xs) auto

lemma last_of_append [simp]: "last_of (xs @ ys) p = last_of ys (last_of xs p)"
  by (simp add: last_of_def)

text \<open>A change of the links of a node does not change its value.\<close>

definition agree :: "cells \<Rightarrow> cells \<Rightarrow> nat \<Rightarrow> bool" where
  "agree h h' a \<longleftrightarrow> (\<exists>n n'. h a = Some n \<and> h' a = Some n' \<and> tag n' = tag n \<and> payload n' = payload n)"

definition same_links :: "cells \<Rightarrow> cells \<Rightarrow> nat \<Rightarrow> bool" where
  "same_links h h' a \<longleftrightarrow> (\<exists>n n'. h a = Some n \<and> h' a = Some n' \<and> parent n' = parent n \<and> prev n' = prev n
     \<and> nxt n' = nxt n \<and> nkey n' = nkey n)"

lemma holds_leaf_agree: "tag n' = tag n \<Longrightarrow> payload n' = payload n \<Longrightarrow> holds_leaf n v \<Longrightarrow> holds_leaf n' v"
  by (cases v) (simp_all add: bool_of_def string_of_def)

lemma holds_children_agree:
  "tag n' = tag n \<Longrightarrow> payload n' = payload n \<Longrightarrow> holds_children n ob ts \<Longrightarrow> holds_children n' ob ts"
  by (simp add: holds_children_def children_def)

lemma rep_root: "rep h t \<Longrightarrow> \<exists>n. h (addr t) = Some n"
  by (cases t) (auto split: option.splits)

lemma rep_frame:
  "rep h t \<Longrightarrow> \<forall>x \<in> set (below t). h' x = h x \<Longrightarrow> agree h h' (addr t) \<Longrightarrow> rep h' t"
  "seg h ob a p ts q \<Longrightarrow> \<forall>x \<in> set (addrs_of ts). h' x = h x \<Longrightarrow> seg h' ob a p ts q"
proof (induction h t and h ob a p ts q rule: rep_seg.induct)
  case (1 h a v)
  then show ?case by (auto simp: agree_def holds_leaf_agree split: option.splits)
next
  case (2 h a ob ts)
  then show ?case by (auto simp: agree_def holds_children_agree split: option.splits)
next
  case (4 h ob a p k t ts q)
  have "agree h h' (addr t)" using rep_root [of h t] 4 by (auto simp: agree_def)
  then show ?case using 4 by (auto simp: addrs_below)
qed simp

lemma rep_same: "rep h t \<Longrightarrow> \<forall>x \<in> set (addrs t). h' x = h x \<Longrightarrow> rep h' t"
  by (rule rep_frame(1)) (use rep_root [of h t] in \<open>auto simp: addrs_below agree_def\<close>)

lemma seg_append: "seg h ob a p (xs @ ys) q \<longleftrightarrow> seg h ob a p xs (first_of ys q) \<and> seg h ob a (last_of xs p) ys q"
  by (induction xs arbitrary: p) (auto simp: case_found)

lemma seg_set_prev:
  assumes "seg h ob a p ((k, t) # ts) q" and "distinct (addrs_of ((k, t) # ts))" and "h (addr t) = Some n"
  shows "seg (h(addr t \<mapsto> n\<lparr>prev := p'\<rparr>)) ob a p' ((k, t) # ts) q"
proof -
  let ?h = "h(addr t \<mapsto> n\<lparr>prev := p'\<rparr>)"
  have "rep ?h t" by (rule rep_frame(1) [of h]) (use assms in \<open>auto simp: addrs_below agree_def\<close>)
  moreover have "seg ?h ob a (Some (addr t)) ts q" by (rule rep_frame(2) [of h]) (use assms in \<open>auto simp: addrs_below\<close>)
  ultimately show ?thesis using assms(1,3) by simp
qed

lemma seg_set_nxt:
  assumes "seg h ob a p (ts @ [(k, t)]) q" and "distinct (addrs_of (ts @ [(k, t)]))" and "h (addr t) = Some n"
  shows "seg (h(addr t \<mapsto> n\<lparr>nxt := q'\<rparr>)) ob a p (ts @ [(k, t)]) q'"
proof -
  let ?h = "h(addr t \<mapsto> n\<lparr>nxt := q'\<rparr>)"
  have "rep ?h t" by (rule rep_frame(1) [of h]) (use assms in \<open>auto simp: addrs_below agree_def seg_append\<close>)
  moreover have "seg ?h ob a p ts (Some (addr t))"
    by (rule rep_frame(2) [of h]) (use assms in \<open>auto simp: addrs_below seg_append\<close>)
  ultimately show ?thesis using assms(1,3) by (simp add: seg_append)
qed

section \<open>Adding a child\<close>

lemma deref_Some [simp]: "h a = Some n \<Longrightarrow> deref h (Some a) = Inr n"
  by (simp add: deref_def)

lemma modify_Some: "h a = Some n \<Longrightarrow> f n = Inr n' \<Longrightarrow> modify h (Some a) f = Inr (h(a \<mapsto> n'))"
  by (simp add: modify_def)

definition child_ok :: "bool \<Rightarrow> byte list option \<Rightarrow> bool" where
  "child_ok ob k \<longleftrightarrow> (k \<noteq> None \<longleftrightarrow> ob) \<and> (case k of None \<Rightarrow> True | Some k \<Rightarrow> no_nul k)"

lemma append_node_ok:
  assumes "rep h (Branch a ob ts)" and "rep h t" and "distinct (addrs (Branch a ob ts) @ addrs t)"
    and "h (addr t) = Some c" and "nkey c = k" and "child_ok ob k"
  obtains h' where "append_node h (Some a) (Some (addr t)) = Inr h'" "rep h' (Branch a ob (ts @ [(k, t)]))"
    "same_links h h' a" "\<forall>x. x \<notin> set (addrs (Branch a ob ts)) \<and> x \<noteq> addr t \<longrightarrow> h' x = h x"
proof -
  let ?c = "addr t"
  obtain n where n: "h a = Some n" "holds_children n ob ts" using assms(1) by (auto split: option.splits)
  have ch: "children n = Inr (first_of ts None, last_of ts None)" using n(2) by (simp add: holds_children_def)
  have sg: "seg h ob a None ts None" using assms(1) by simp
  have ne: "a \<noteq> ?c" using assms(3) by auto
  show ?thesis
  proof (cases ts rule: rev_cases)
    case Nil
    let ?h1 = "h(?c \<mapsto> c\<lparr>parent := Some a, prev := None, nxt := None\<rparr>)"
    let ?h2 = "?h1(a \<mapsto> n\<lparr>payload := PChildren (Some ?c) (Some ?c)\<rparr>)"
    have run: "append_node h (Some a) (Some ?c) = Inr ?h2"
      using n ch assms(4) ne
      by (simp add: append_node_def modify_def set_head_def set_tail_def Nil children_def [of "_\<lparr>payload := _\<rparr>"])
    have "rep ?h2 t" by (rule rep_frame(1) [of h]) (use assms(2-4) ne in \<open>auto simp: addrs_below agree_def Nil\<close>)
    then have "rep ?h2 (Branch a ob (ts @ [(k, t)]))"
      using n(2) assms(5,6) ne by (auto simp: Nil holds_children_def children_def child_ok_def)
    moreover have "same_links h ?h2 a" using n(1) by (simp add: same_links_def)
    ultimately show ?thesis using run by (intro that) auto
  next
    case (snoc us ju)
    obtain j u where ju: "ju = (j, u)" by force
    let ?l = "addr u"
    have ts: "ts = us @ [(j, u)]" by (simp add: snoc ju)
    have d: "?l \<noteq> a" "?l \<noteq> ?c" "distinct (addrs_of (us @ [(j, u)]))" using assms(3) by (auto simp: ts addrs_below)
    obtain l where l: "h ?l = Some l" using sg by (auto simp: ts seg_append split: option.splits)
    let ?h0 = "h(?l \<mapsto> l\<lparr>nxt := Some ?c\<rparr>)"
    let ?h1 = "h(?c \<mapsto> c\<lparr>parent := Some a, prev := Some ?l, nxt := None\<rparr>, ?l \<mapsto> l\<lparr>nxt := Some ?c\<rparr>)"
    let ?h2 = "?h1(a \<mapsto> n\<lparr>payload := PChildren (first_of ts None) (Some ?c)\<rparr>)"
    have run: "append_node h (Some a) (Some ?c) = Inr ?h2"
      using n ch assms(4) ne d l
      by (simp add: append_node_def modify_def set_head_def set_tail_def ts children_def [of "_\<lparr>payload := _\<rparr>"])
    have "rep ?h2 t" by (rule rep_frame(1) [of h]) (use assms(2-4) ne d in \<open>auto simp: addrs_below agree_def ts\<close>)
    moreover have "seg ?h0 ob a None ts (Some ?c)"
      using sg d(3) l unfolding ts by (rule seg_set_nxt)
    then have "seg ?h2 ob a None ts (Some ?c)"
      by (rule rep_frame(2)) (use assms(3) in \<open>auto simp: addrs_below\<close>)
    ultimately have "rep ?h2 (Branch a ob (ts @ [(k, t)]))"
      using n(2) assms(5,6) ne d by (auto simp: holds_children_def children_def child_ok_def seg_append ts)
    moreover have "same_links h ?h2 a" using n(1) by (simp add: same_links_def)
    ultimately show ?thesis using run by (intro that) (auto simp: ts addrs_below)
  qed
qed

lemma prepend_node_ok:
  assumes "rep h (Branch a ob ts)" and "rep h t" and "distinct (addrs (Branch a ob ts) @ addrs t)"
    and "h (addr t) = Some c" and "nkey c = k" and "child_ok ob k"
  obtains h' where "prepend_node h (Some a) (Some (addr t)) = Inr h'" "rep h' (Branch a ob ((k, t) # ts))"
    "same_links h h' a" "\<forall>x. x \<notin> set (addrs (Branch a ob ts)) \<and> x \<noteq> addr t \<longrightarrow> h' x = h x"
proof -
  let ?c = "addr t"
  obtain n where n: "h a = Some n" "holds_children n ob ts" using assms(1) by (auto split: option.splits)
  have ch: "children n = Inr (first_of ts None, last_of ts None)" using n(2) by (simp add: holds_children_def)
  have sg: "seg h ob a None ts None" using assms(1) by simp
  have ne: "a \<noteq> ?c" using assms(3) by auto
  show ?thesis
  proof (cases ts)
    case Nil
    let ?h1 = "h(?c \<mapsto> c\<lparr>parent := Some a, prev := None, nxt := None\<rparr>)"
    let ?h2 = "?h1(a \<mapsto> n\<lparr>payload := PChildren (Some ?c) (Some ?c)\<rparr>)"
    have run: "prepend_node h (Some a) (Some ?c) = Inr ?h2"
      using n ch assms(4) ne
      by (simp add: prepend_node_def modify_def set_head_def set_tail_def Nil children_def [of "_\<lparr>payload := _\<rparr>"])
    have "rep ?h2 t" by (rule rep_frame(1) [of h]) (use assms(2-4) ne in \<open>auto simp: addrs_below agree_def Nil\<close>)
    then have "rep ?h2 (Branch a ob ((k, t) # ts))"
      using n(2) assms(5,6) ne by (auto simp: Nil holds_children_def children_def child_ok_def)
    moreover have "same_links h ?h2 a" using n(1) by (simp add: same_links_def)
    ultimately show ?thesis using run by (intro that) auto
  next
    case (Cons ju us)
    obtain j u where ju: "ju = (j, u)" by force
    let ?l = "addr u"
    have ts: "ts = (j, u) # us" by (simp add: Cons ju)
    have d: "?l \<noteq> a" "?l \<noteq> ?c" "distinct (addrs_of ((j, u) # us))" using assms(3) by (auto simp: ts addrs_below)
    obtain l where l: "h ?l = Some l" using sg by (auto simp: ts case_found)
    let ?h0 = "h(?l \<mapsto> l\<lparr>prev := Some ?c\<rparr>)"
    let ?h1 = "h(?c \<mapsto> c\<lparr>parent := Some a, prev := None, nxt := Some ?l\<rparr>, ?l \<mapsto> l\<lparr>prev := Some ?c\<rparr>)"
    let ?h2 = "?h1(a \<mapsto> n\<lparr>payload := PChildren (Some ?c) (last_of ts None)\<rparr>)"
    have run: "prepend_node h (Some a) (Some ?c) = Inr ?h2"
      using n ch assms(4) ne d l
      by (simp add: prepend_node_def modify_def set_head_def set_tail_def ts children_def [of "_\<lparr>payload := _\<rparr>"])
    have "rep ?h2 t" by (rule rep_frame(1) [of h]) (use assms(2-4) ne d in \<open>auto simp: addrs_below agree_def ts\<close>)
    moreover have "seg ?h0 ob a (Some ?c) ts None"
      using sg d(3) l unfolding ts by (rule seg_set_prev)
    then have "seg ?h2 ob a (Some ?c) ts None"
      by (rule rep_frame(2)) (use assms(3) in \<open>auto simp: addrs_below\<close>)
    ultimately have "rep ?h2 (Branch a ob ((k, t) # ts))"
      using n(2) assms(5,6) ne d by (auto simp: holds_children_def children_def child_ok_def ts)
    moreover have "same_links h ?h2 a" using n(1) by (simp add: same_links_def)
    ultimately show ?thesis using run by (intro that) (auto simp: ts addrs_below)
  qed
qed

section \<open>Removing a child\<close>

text \<open>The links of a child that was taken out.\<close>

definition unlinked :: "cells \<Rightarrow> nat \<Rightarrow> bool" where
  "unlinked h x \<longleftrightarrow> (\<exists>n. h x = Some n \<and> parent n = None \<and> prev n = None \<and> nxt n = None \<and> nkey n = None)"

lemma remove_before_ok:
  assumes "seg h ob a None xs (Some c)" and "distinct (c # a # addrs_of xs)" and "h a = Some n"
    and "children n = Inr (first_of xs (Some c), tl')"
  obtains h' n' where
    "(if last_of xs None \<noteq> None then modify h (last_of xs None) (\<lambda>m. Inr (m\<lparr>nxt := q\<rparr>))
      else modify h (Some a) (set_head q)) = Inr h'"
    "seg h' ob a None xs q" "h' a = Some n'" "children n' = Inr (first_of xs q, tl')" "tag n' = tag n"
    "parent n' = parent n" "prev n' = prev n" "nxt n' = nxt n" "nkey n' = nkey n"
    "\<forall>x. x \<noteq> a \<and> x \<notin> set (addrs_of xs) \<longrightarrow> h' x = h x"
proof (cases xs rule: rev_cases)
  case Nil
  show ?thesis
    by (rule that [of "h(a \<mapsto> n\<lparr>payload := PChildren q tl'\<rparr>)" "n\<lparr>payload := PChildren q tl'\<rparr>"])
      (use assms in \<open>simp_all add: Nil modify_def set_head_def children_def\<close>)
next
  case (snoc us ju)
  obtain j u where ju: "ju = (j, u)" by force
  have xs: "xs = us @ [(j, u)]" by (simp add: snoc ju)
  obtain l where l: "h (addr u) = Some l" using assms(1) by (auto simp: xs seg_append case_found)
  let ?h = "h(addr u \<mapsto> l\<lparr>nxt := q\<rparr>)"
  have ne: "addr u \<noteq> a" using assms(2) by (auto simp: xs addrs_below)
  have "seg ?h ob a None xs q"
    using assms(1,2) l unfolding xs by (intro seg_set_nxt) auto
  then show ?thesis
    using assms(3,4) l ne by (intro that [of ?h n]) (simp_all add: xs modify_def addrs_below)
qed

lemma remove_after_ok:
  assumes "seg h ob a (Some c) ys None" and "distinct (c # a # addrs_of ys)" and "h a = Some n"
    and "children n = Inr (hd', last_of ys (Some c))"
  obtains h' n' where
    "(if first_of ys None \<noteq> None then modify h (first_of ys None) (\<lambda>m. Inr (m\<lparr>prev := p\<rparr>))
      else modify h (Some a) (set_tail p)) = Inr h'"
    "seg h' ob a p ys None" "h' a = Some n'" "children n' = Inr (hd', last_of ys p)" "tag n' = tag n"
    "parent n' = parent n" "prev n' = prev n" "nxt n' = nxt n" "nkey n' = nkey n"
    "\<forall>x. x \<noteq> a \<and> x \<notin> set (addrs_of ys) \<longrightarrow> h' x = h x"
proof (cases ys)
  case Nil
  show ?thesis
    by (rule that [of "h(a \<mapsto> n\<lparr>payload := PChildren hd' p\<rparr>)" "n\<lparr>payload := PChildren hd' p\<rparr>"])
      (use assms in \<open>simp_all add: Nil modify_def set_tail_def children_def\<close>)
next
  case (Cons ju us)
  obtain j u where ju: "ju = (j, u)" by force
  have ys: "ys = (j, u) # us" by (simp add: Cons ju)
  obtain l where l: "h (addr u) = Some l" using assms(1) by (auto simp: ys case_found)
  let ?h = "h(addr u \<mapsto> l\<lparr>prev := p\<rparr>)"
  have ne: "addr u \<noteq> a" using assms(2) by (auto simp: ys addrs_below)
  have "seg ?h ob a p ys None"
    using assms(1,2) l unfolding ys by (intro seg_set_prev) auto
  then show ?thesis
    using assms(3,4) l ne by (intro that [of ?h n]) (simp_all add: ys modify_def addrs_below)
qed

lemma remove_ok:
  assumes "rep h (Branch a ob (xs @ (k, t) # ys))" and "distinct (addrs (Branch a ob (xs @ (k, t) # ys)))"
  obtains h' where "hjson_remove_from_parent h (Some (addr t)) = Inr h'" "rep h' (Branch a ob (xs @ ys))"
    "rep h' t" "unlinked h' (addr t)" "same_links h h' a"
    "\<forall>x. x \<notin> set (addrs (Branch a ob (xs @ ys))) \<and> x \<noteq> addr t \<longrightarrow> h' x = h x"
proof -
  let ?c = "addr t"
  have sg: "seg h ob a None xs (Some ?c)" "seg h ob a (Some ?c) ys None" "rep h t"
    using assms(1) by (auto simp: seg_append)
  obtain n where n: "h a = Some n" "children n = Inr (first_of xs (Some ?c), last_of ys (Some ?c))"
    "tag n = tag_no (if ob then JSON_OBJECT else JSON_ARRAY)"
    using assms(1) by (auto simp: case_found holds_children_def)
  obtain c where c: "h ?c = Some c" "parent c = Some a" "prev c = last_of xs None" "nxt c = first_of ys None"
    using assms(1) by (auto simp: seg_append case_found)
  have d: "distinct (?c # a # addrs_of xs)" "distinct (?c # a # addrs_of ys)"
    using assms(2) by (auto simp: addrs_below)
  obtain h1 n1 where h1: "(if last_of xs None \<noteq> None then modify h (last_of xs None) (\<lambda>m. Inr (m\<lparr>nxt := first_of ys None\<rparr>))
      else modify h (Some a) (set_head (first_of ys None))) = Inr h1"
    "seg h1 ob a None xs (first_of ys None)" "h1 a = Some n1"
    "children n1 = Inr (first_of xs (first_of ys None), last_of ys (Some ?c))" "tag n1 = tag n"
    "parent n1 = parent n" "prev n1 = prev n" "nxt n1 = nxt n" "nkey n1 = nkey n"
    "\<forall>x. x \<noteq> a \<and> x \<notin> set (addrs_of xs) \<longrightarrow> h1 x = h x"
    by (rule remove_before_ok [OF sg(1) d(1) n(1,2), of "first_of ys None"])
  have sg1: "seg h1 ob a (Some ?c) ys None"
    by (rule rep_frame(2) [OF sg(2)]) (use assms(2) h1(10) in auto)
  obtain h2 n2 where h2: "(if first_of ys None \<noteq> None then modify h1 (first_of ys None) (\<lambda>m. Inr (m\<lparr>prev := last_of xs None\<rparr>))
      else modify h1 (Some a) (set_tail (last_of xs None))) = Inr h2"
    "seg h2 ob a (last_of xs None) ys None" "h2 a = Some n2"
    "children n2 = Inr (first_of xs (first_of ys None), last_of ys (last_of xs None))" "tag n2 = tag n1"
    "parent n2 = parent n1" "prev n2 = prev n1" "nxt n2 = nxt n1" "nkey n2 = nkey n1"
    "\<forall>x. x \<noteq> a \<and> x \<notin> set (addrs_of ys) \<longrightarrow> h2 x = h1 x"
    by (rule remove_after_ok [OF sg1 d(2) h1(3,4), of "last_of xs None"])
  have c2: "h2 ?c = Some c" using h2(10) h1(10) d c(1) by auto
  let ?h = "h2(?c \<mapsto> c\<lparr>parent := None, prev := None, nxt := None, nkey := None\<rparr>)"
  have run: "hjson_remove_from_parent h (Some ?c) = Inr ?h"
    by (simp only: hjson_remove_from_parent_def deref_Some [where a = "addr t" and h = h, OF c(1)] c_bind_simps c(2-4) option.distinct simp_thms
          if_True h1(1) h2(1) modify_Some [where a = "addr t" and h = h2, OF c2])
  have "seg h2 ob a None xs (first_of ys None)"
    by (rule rep_frame(2) [OF h1(2)]) (use assms(2) h2(10) in auto)
  then have "seg h2 ob a None (xs @ ys) None" using h2(2) by (simp add: seg_append)
  then have "seg ?h ob a None (xs @ ys) None"
    by (rule rep_frame(2)) (use assms(2) in \<open>auto simp: addrs_below\<close>)
  moreover have "?h a = Some n2" using h2(3) d by auto
  ultimately have "rep ?h (Branch a ob (xs @ ys))"
    using h2(4,5) h1(5) n(3) by (simp add: holds_children_def)
  moreover have "\<forall>x \<in> set (below t). h2 x = h x"
  proof
    fix x assume "x \<in> set (below t)"
    then have "x \<noteq> a" "x \<notin> set (addrs_of xs)" "x \<notin> set (addrs_of ys)" using assms(2) by (auto simp: addrs_below)
    then show "h2 x = h x" using h1(10) h2(10) by simp
  qed
  then have "rep ?h t"
    by (intro rep_frame(1) [OF sg(3)]) (use assms(2) c(1) in \<open>auto simp: addrs_below agree_def\<close>)
  moreover have "same_links h ?h a" using n(1) \<open>?h a = Some n2\<close> h1(6-9) h2(6-9) by (simp add: same_links_def)
  ultimately show ?thesis
    using run h1(10) h2(10) by (intro that [of ?h]) (auto simp: unlinked_def)
qed

section \<open>Deletion\<close>

fun fuel_for :: "tree \<Rightarrow> nat" and fuel_all :: "forest \<Rightarrow> nat" where
  "fuel_for (Leaf a v) = 1"
| "fuel_for (Branch a ob ts) = Suc (fuel_all ts)"
| "fuel_all [] = 1"
| "fuel_all ((k, t) # ts) = Suc (fuel_for t + fuel_all ts)"

lemma fuel_bound: "fuel_for t + 1 \<le> 3 * length (addrs t)" "fuel_all ts \<le> 3 * length (addrs_of ts) + 1"
  by (induction t and ts rule: fuel_for_fuel_all.induct) auto

lemma fuel_pos [simp]: "0 < fuel_for t" "0 < fuel_all ts"
  by (cases t; simp) (cases ts; auto)

lemma remove_unlinked: "unlinked h x \<Longrightarrow> hjson_remove_from_parent h (Some x) = Inr h"
  by (auto simp: unlinked_def hjson_remove_from_parent_def)

text \<open>
  Deleting a tree without a parent, and deleting all children of a node: the cells of the trees are
  gone, the others are as before, except that the node has lost its children.
\<close>

lemma delete_ok:
  "rep h t \<Longrightarrow> unlinked h (addr t) \<Longrightarrow> distinct (addrs t) \<Longrightarrow> fuel_for t \<le> fuel \<Longrightarrow>
     hjson_delete fuel h (Some (addr t)) = Inr (\<lambda>x. if x \<in> set (addrs t) then None else h x)"
  "rep h (Branch a ob ts) \<Longrightarrow> distinct (addrs (Branch a ob ts)) \<Longrightarrow> fuel_all ts \<le> fuel \<Longrightarrow>
     \<exists>h'. delete_children fuel h (first_of ts None) = Inr h' \<and> h' a \<noteq> None
       \<and> (\<forall>x \<in> set (addrs_of ts). h' x = None) \<and> (\<forall>x. x \<notin> set (addrs (Branch a ob ts)) \<longrightarrow> h' x = h x)"
proof (induction t and ts arbitrary: h fuel and a ob h fuel rule: fuel_for_fuel_all.induct)
  case (1 a v)
  then obtain n where n: "h a = Some n" "holds_leaf n v" by (auto simp: case_found)
  have "tag n \<noteq> tag_no JSON_ARRAY" "tag n \<noteq> tag_no JSON_OBJECT" using n(2) by (cases v; simp)+
  then show ?case
    using 1 n(1) remove_unlinked [of h a] by (cases fuel) (auto simp: fun_eq_iff)
next
  case (2 a ob ts)
  obtain f where f: "fuel = Suc f" "fuel_all ts \<le> f" using 2 by (cases fuel) auto
  obtain n where n: "h a = Some n" "tag n = tag_no (if ob then JSON_OBJECT else JSON_ARRAY)"
    "children n = Inr (first_of ts None, last_of ts None)"
    using 2 by (auto simp: case_found holds_children_def)
  obtain h' where h': "delete_children f h (first_of ts None) = Inr h'" "h' a \<noteq> None"
    "\<forall>x \<in> set (addrs_of ts). h' x = None" "\<forall>x. x \<notin> set (addrs (Branch a ob ts)) \<longrightarrow> h' x = h x"
    using "2.IH" [OF "2.prems"(1) _ f(2)] "2.prems"(3) by auto
  have "hjson_delete fuel h (Some a) = Inr (h'(a := None))"
    using f(1) n h'(1) remove_unlinked [of h a] "2.prems"(2) by simp
  moreover have "h'(a := None) = (\<lambda>x. if x \<in> set (addrs (Branch a ob ts)) then None else h x)"
    using h'(3,4) by (auto simp: fun_eq_iff)
  ultimately show ?case by simp
next
  case 3
  then show ?case by (cases fuel) (auto simp: case_found)
next
  case (4 k t ts)
  obtain f where f: "fuel = Suc f" "fuel_for t \<le> f" "fuel_all ts \<le> f" using 4 by (cases fuel) auto
  obtain c where c: "h (addr t) = Some c" "parent c = Some a" "nxt c = first_of ts None"
    using "4.prems"(1) by (auto simp: case_found)
  obtain h1 where h1: "hjson_remove_from_parent h (Some (addr t)) = Inr h1" "rep h1 (Branch a ob ts)" "rep h1 t"
    "unlinked h1 (addr t)" "same_links h h1 a"
    "\<forall>x. x \<notin> set (addrs (Branch a ob ts)) \<and> x \<noteq> addr t \<longrightarrow> h1 x = h x"
    using remove_ok [of h a ob "[]" k t ts] "4.prems"(1,2) by auto
  let ?h2 = "\<lambda>x. if x \<in> set (addrs t) then None else h1 x"
  have "hjson_delete f h1 (Some (addr t)) = Inr ?h2"
    using "4.IH"(1) [OF h1(3,4) _ f(2)] "4.prems"(2) by auto
  moreover have "hjson_delete f h (Some (addr t)) = hjson_delete f h1 (Some (addr t))"
    using h1(1) remove_unlinked [OF h1(4)] f(2) fuel_pos(1) [of t] by (cases f) simp_all
  ultimately have del: "hjson_delete f h (Some (addr t)) = Inr ?h2" by simp
  have "rep ?h2 (Branch a ob ts)" by (rule rep_same [OF h1(2)]) (use "4.prems"(2) in auto)
  then obtain h' where h': "delete_children f ?h2 (first_of ts None) = Inr h'" "h' a \<noteq> None"
    "\<forall>x \<in> set (addrs_of ts). h' x = None" "\<forall>x. x \<notin> set (addrs (Branch a ob ts)) \<longrightarrow> h' x = ?h2 x"
    using "4.IH"(2) [of ?h2 a ob f] "4.prems"(2) f(3) by auto
  have "delete_children fuel h (first_of ((k, t) # ts) None) = Inr h'"
    using f(1) c del h'(1) by simp
  moreover have "\<forall>x \<in> set (addrs_of ((k, t) # ts)). h' x = None"
    using h'(3,4) "4.prems"(2) by auto
  moreover have "\<forall>x. x \<notin> set (addrs (Branch a ob ((k, t) # ts))) \<longrightarrow> h' x = h x"
    using h'(4) h1(6) by auto
  ultimately show ?case using h'(2) by blast
qed

section \<open>Search\<close>

definition find_child :: "(byte list option \<times> tree \<Rightarrow> bool) \<Rightarrow> forest \<Rightarrow> tree option" where
  "find_child P ts = map_option snd (find P ts)"

lemma find_key_child_ok:
  "seg h True a p ts None \<Longrightarrow> length ts < fuel \<Longrightarrow>
     find_key_child fuel h (first_of ts None) name
       = Inr (map_option addr (find_child (\<lambda>m. fst m = Some (cstring name)) ts))"
proof (induction ts arbitrary: p fuel)
  case Nil
  then show ?case by (cases fuel) (simp_all add: find_child_def)
next
  case (Cons kt ts)
  obtain k t where kt: "kt = (k, t)" by force
  obtain f where f: "fuel = Suc f" "length ts < f" using Cons.prems(2) by (cases fuel) auto
  obtain n key where n: "h (addr t) = Some n" "nkey n = Some key" "k = Some key" "nxt n = first_of ts None"
    "seg h True a (Some (addr t)) ts None"
    using Cons.prems(1) by (auto simp: kt case_found)
  show ?case using Cons.IH [OF n(5) f(2)] n f(1) by (simp add: kt find_child_def)
qed

fun nth_child :: "forest \<Rightarrow> int \<Rightarrow> int \<Rightarrow> tree option" where
  "nth_child [] i index = None"
| "nth_child ((k, t) # ts) i index = (if i = index then Some t else nth_child ts (i + 1) index)"

lemma find_nth_child_ok:
  "seg h ob a p ts None \<Longrightarrow> length ts < fuel \<Longrightarrow>
     find_nth_child fuel h (first_of ts None) i index = Inr (map_option addr (nth_child ts i index))"
proof (induction ts arbitrary: p fuel i)
  case Nil
  then show ?case by (cases fuel) simp_all
next
  case (Cons kt ts)
  obtain k t where kt: "kt = (k, t)" by force
  obtain f where f: "fuel = Suc f" "length ts < f" using Cons.prems(2) by (cases fuel) auto
  obtain n where n: "h (addr t) = Some n" "nxt n = first_of ts None" "seg h ob a (Some (addr t)) ts None"
    using Cons.prems(1) by (auto simp: kt case_found)
  show ?case using Cons.IH [OF n(3) f(2)] n f(1) by (simp add: kt)
qed

lemma seg_rep: "seg h ob a p ts q \<Longrightarrow> (k, t) \<in> set ts \<Longrightarrow> rep h t \<and> (k \<noteq> None \<longleftrightarrow> ob)"
  by (induction ts arbitrary: p) (auto simp: case_found)

lemma nth_child_erase: "map_option erase (nth_child ts i index) = find_nth (map snd (erase_all ts)) i index"
  by (induction ts arbitrary: i) auto

lemma nth_child_in: "nth_child ts i index = Some t \<Longrightarrow> t \<in> snd ` set ts"
proof (induction ts arbitrary: i)
  case (Cons kt ts)
  then show ?case using Cons.IH [of "i + 1"] by (cases kt) (auto split: if_splits)
qed simp

lemma find_child_in: "find_child P ts = Some t \<Longrightarrow> t \<in> snd ` set ts"
proof (induction ts)
  case (Cons kt ts)
  then show ?case by (cases "P kt") (auto simp: find_child_def)
qed (simp add: find_child_def)

lemma find_child_erase:
  "\<forall>(k, t) \<in> set ts. k \<noteq> None \<Longrightarrow>
     map_option erase (find_child (\<lambda>m. fst m = Some name) ts) = find_key (erase_all ts) name"
  by (induction ts) (auto simp: find_child_def split: option.splits)

lemma first_child_ok:
  assumes "rep h (Branch a ob ts)" shows "hjson_first_child h (Some a) = Inr (first_of ts None)"
proof -
  obtain n where "h a = Some n" "holds_children n ob ts" using assms by (auto simp: case_found)
  then show ?thesis by (auto simp: hjson_first_child_def holds_children_def)
qed

lemma length_fuel: "length ts < fuel_all ts"
proof (induction ts)
  case (Cons kt ts)
  then show ?case by (cases kt) simp
qed simp

text \<open>Looking up a member or an element in the linked nodes of a value ends and gives the node of
  the value that the functions on values find there, or the null pointer when they find none, also on
  a value that is not an object or an array.\<close>

theorem hjson_find_values:
  assumes "rep h t" and "fuel_for t \<le> fuel"
  shows "(\<exists>r. hjson_find_member fuel h (Some (addr t)) name = Inr (map_option addr r)
            \<and> map_option erase r = json_find_member (Some (erase t)) (cstring name) \<and> (\<forall>u. r = Some u \<longrightarrow> rep h u))
    \<and> (\<exists>r. hjson_find_element fuel h (Some (addr t)) index = Inr (map_option addr r)
            \<and> map_option erase r = json_find_element (Some (erase t)) index \<and> (\<forall>u. r = Some u \<longrightarrow> rep h u))"
proof (cases t)
  case (Leaf a v)
  obtain n where n: "h a = Some n" "holds_leaf n v" using assms(1) by (auto simp: Leaf case_found)
  have "tag n \<noteq> tag_no JSON_ARRAY" "tag n \<noteq> tag_no JSON_OBJECT" using n(2) by (cases v; simp)+
  then show ?thesis
    using n(1) by (cases v) (simp_all add: Leaf hjson_find_member_def hjson_find_element_def json_find_member_def json_find_element_def)
next
  case (Branch a ob ts)
  obtain n where n: "h a = Some n" "tag n = tag_no (if ob then JSON_OBJECT else JSON_ARRAY)"
    using assms(1) by (auto simp: Branch case_found holds_children_def)
  have len: "length ts < fuel" using assms(2) length_fuel [of ts] by (simp add: Branch)
  have sg: "seg h ob a None ts None" using assms(1) by (simp add: Branch)
  have first: "hjson_first_child h (Some a) = Inr (first_of ts None)"
    using first_child_ok assms(1) by (simp add: Branch)
  have inside: "rep h u" if "u \<in> snd ` set ts" for u using seg_rep [OF sg] that by force
  show ?thesis
  proof (cases ob)
    case True
    let ?r = "find_child (\<lambda>m. fst m = Some (cstring name)) ts"
    have "hjson_find_member fuel h (Some a) name = Inr (map_option addr ?r)"
      using n first find_key_child_ok [of h a None ts fuel name] sg len by (simp add: hjson_find_member_def True)
    moreover have "map_option erase ?r = json_find_member (Some (erase t)) (cstring name)"
      using seg_rep [OF sg] by (subst find_child_erase) (auto simp: True Branch json_find_member_def)
    moreover have "rep h u" if "?r = Some u" for u
      using that by (intro inside) (rule find_child_in)
    moreover have "hjson_find_element fuel h (Some a) index = Inr (map_option addr None)"
      using n by (simp add: hjson_find_element_def True)
    ultimately show ?thesis
      by (intro conjI; (intro exI [of _ ?r] exI [of _ None])?)
        (simp_all add: Branch True json_find_element_def del: json_find_member_object)
  next
    case False
    let ?r = "nth_child ts 0 index"
    have "hjson_find_element fuel h (Some a) index = Inr (map_option addr ?r)"
      using n first find_nth_child_ok [OF sg len] by (simp add: hjson_find_element_def False)
    moreover have "map_option erase ?r = json_find_element (Some (erase t)) index"
      by (simp add: Branch False json_find_element_def nth_child_erase)
    moreover have "hjson_find_member fuel h (Some a) name = Inr (map_option addr None)"
      using n by (simp add: hjson_find_member_def False)
    moreover have "json_find_member (Some (erase t)) (cstring name) = None"
      by (simp add: Branch False json_find_member_def)
    ultimately show ?thesis using inside nth_child_in [of ts 0 index]
      by (intro conjI) (intro exI [of _ None] exI [of _ ?r]; auto simp: Branch)+
  qed
qed

section \<open>The check\<close>

definition key_text :: "byte list option \<Rightarrow> bool" where
  "key_text k = (case k of None \<Rightarrow> True | Some k \<Rightarrow> utf8_text (cstring (k @ [0])))"

definition forest_valid :: "forest \<Rightarrow> bool" where
  "forest_valid ts \<longleftrightarrow> (\<forall>m \<in> set ts. key_text (fst m) \<and> strings_valid (erase (snd m)))"

lemma text_ok_eq: "text_ok s = Inr (utf8_text (cstring (s @ [0])))"
  unfolding text_ok_def by (rule utf8_validate_cstring) (simp add: nulterm_def)

lemma key_ok_eq: "(case k of None \<Rightarrow> Inr True | Some k \<Rightarrow> text_ok k) = Inr (key_text k)"
  by (simp add: key_text_def text_ok_eq split: option.split)

lemma problem_or_simps [simp]: "problem_or True k = Inr False" "problem_or False k = k"
  by (simp_all add: problem_or_def)

lemma strings_valid_branch:
  assumes "\<forall>m \<in> set ts. fst m \<noteq> None \<longleftrightarrow> ob"
  shows "strings_valid (erase (Branch a ob ts)) \<longleftrightarrow> forest_valid ts"
proof (cases ob)
  case True
  have "(\<forall>m \<in> set (erase_all ts). utf8_text (cstring (fst m @ [0])) \<and> strings_valid (snd m)) \<longleftrightarrow> forest_valid ts"
    using assms [simplified True] by (induction ts) (auto simp: forest_valid_def key_text_def)
  then show ?thesis by (simp add: True)
next
  case False
  have "(\<forall>e \<in> set (map snd (erase_all ts)). strings_valid e) \<longleftrightarrow> forest_valid ts"
    using assms [simplified False] by (induction ts) (auto simp: forest_valid_def key_text_def)
  then show ?thesis by (simp add: False)
qed

lemma tag_valid_no: "tag_is_valid (tag_no t)"
  by (cases t) (simp_all add: tag_is_valid_def)

lemma first_of_in: "first_of ts None = Some x \<Longrightarrow> x \<in> set (addrs_of ts)"
  by (cases ts) auto

lemma check_leaf:
  assumes "h a = Some n" and "holds_leaf n v"
  shows "hjson_check (Suc f) h (Some a) = Inr (key_text (nkey n) \<and> strings_valid (erase_leaf v))"
  using assms tag_valid_no [of JSON_NULL] tag_valid_no [of JSON_BOOL] tag_valid_no [of JSON_STRING]
    tag_valid_no [of JSON_NUMBER]
  by (cases v; cases "key_text (nkey n)") (auto simp: key_ok_eq text_ok_eq)

lemma check_ok:
  "rep h t \<Longrightarrow> distinct (addrs t) \<Longrightarrow> h (addr t) = Some n \<Longrightarrow> fuel_for t \<le> fuel \<Longrightarrow>
     hjson_check fuel h (Some (addr t)) = Inr (key_text (nkey n) \<and> strings_valid (erase t))"
  "seg h ob a prv ts None \<Longrightarrow> distinct (a # addrs_of ts) \<Longrightarrow> fuel_all ts \<le> fuel \<Longrightarrow>
     first_of ts None = Some fr \<or> fr \<notin> set (addrs_of ts) \<Longrightarrow>
     check_children fuel h (Some a) (tag_no (if ob then JSON_OBJECT else JSON_ARRAY)) (Some fr) (last_of ts prv)
       (first_of ts None) prv = Inr (forest_valid ts)"
proof (induction t and ts arbitrary: n fuel and ob a prv fr fuel rule: fuel_for_fuel_all.induct)
  case (1 a v)
  then obtain f where "fuel = Suc f" by (cases fuel) auto
  then show ?case using 1 check_leaf [of h a n v f] by simp
next
  case (2 a ob ts)
  obtain f where f: "fuel = Suc f" "fuel_all ts \<le> f" using 2 by (cases fuel) auto
  have n: "h a = Some n" "tag n = tag_no (if ob then JSON_OBJECT else JSON_ARRAY)"
    "children n = Inr (first_of ts None, last_of ts None)" "seg h ob a None ts None"
    using 2 by (auto simp: holds_children_def)
  have valid: "strings_valid (erase (Branch a ob ts)) \<longleftrightarrow> forest_valid ts"
    using seg_rep [OF n(4)] by (intro strings_valid_branch) force
  have tags: "tag_is_valid (tag n)" "tag n \<noteq> tag_no JSON_BOOL" "tag n \<noteq> tag_no JSON_STRING"
    "tag n = tag_no JSON_ARRAY \<or> tag n = tag_no JSON_OBJECT" using n(2) tag_valid_no by auto
  show ?case
  proof (cases ts)
    case Nil
    then show ?thesis
      using f(1) n tags valid by (cases "key_text (nkey n)") (auto simp: key_ok_eq forest_valid_def simp del: erase.simps)
  next
    case (Cons ju us)
    obtain j u where ju: "ju = (j, u)" by force
    obtain m where m: "h (addr u) = Some m" "prev m = None" using n(4) by (auto simp: Cons ju case_found)
    have tail: "last_of ts None \<noteq> None" by (simp add: Cons ju last_of_def)
    have "check_children f h (Some a) (tag_no (if ob then JSON_OBJECT else JSON_ARRAY)) (Some (addr u)) (last_of ts None)
       (first_of ts None) None = Inr (forest_valid ts)"
      by (rule "2.IH" [OF n(4) _ f(2)]) (use "2.prems"(2) in \<open>auto simp: Cons ju\<close>)
    then show ?thesis
      using f(1) n tags valid m tail
      by (cases "key_text (nkey n)") (auto simp: key_ok_eq Cons ju simp del: erase.simps last_of_simps)
  qed
next
  case 3
  then show ?case by (cases fuel) (simp_all add: forest_valid_def)
next
  case (4 k t ts)
  obtain f where f: "fuel = Suc f" "fuel_for t \<le> f" "fuel_all ts \<le> f" using 4 by (cases fuel) auto
  obtain c where c: "h (addr t) = Some c" "parent c = Some a" "nxt c = first_of ts None" "nkey c = k" "k \<noteq> None \<longleftrightarrow> ob"
    "rep h t" "seg h ob a (Some (addr t)) ts None"
    using "4.prems"(1) by (auto simp: case_found)
  have d: "distinct (addrs t)" "distinct (a # addrs_of ts)" "addr t \<noteq> a" "addr t \<notin> set (addrs_of ts)"
    using "4.prems"(2) by (auto simp: addrs_below)
  have nx: "nxt c \<noteq> Some (addr t)" using c(3) d(4) first_of_in [of ts "addr t"] by auto
  have fr: "fr \<notin> set (addrs_of ts)"
    using "4.prems"(2,4) by (auto simp: addrs_below)
  then have nf: "nxt c \<noteq> Some fr" using c(3) first_of_in [of ts fr] by auto
  have linked: "(if nxt c = None then Inr True else c_bind (deref h (nxt c)) (\<lambda>m. Inr (prev m = Some (addr t)))) = Inr True"
    using c(3,7) by (cases ts) (auto simp: case_found first_of_def)
  have t: "hjson_check f h (Some (addr t)) = Inr (key_text k \<and> strings_valid (erase t))"
    using "4.IH"(1) [OF c(6) d(1) c(1) f(2)] c(4) by simp
  have ts: "check_children f h (Some a) (tag_no (if ob then JSON_OBJECT else JSON_ARRAY)) (Some fr) (last_of ts (Some (addr t)))
       (first_of ts None) (Some (addr t)) = Inr (forest_valid ts)"
    using "4.IH"(2) [OF c(7) d(2) f(3)] fr by blast
  have ft: "forest_valid ((k, t) # ts) \<longleftrightarrow> (key_text k \<and> strings_valid (erase t)) \<and> forest_valid ts"
    by (auto simp: forest_valid_def)
  show ?case
    unfolding ft f(1) check_children.simps first_of_simps deref_Some [of h "addr t", OF c(1)] c_bind_simps linked t
    using nx nf c(2,4,5) d(3) ts c(3)
    by (cases "key_text k \<and> strings_valid (erase t)"; cases ob) (auto simp: problem_or_def)
qed

section \<open>A value in memory\<close>

text \<open>The object with the member \<open>city\<close>, built by the code, and a node that is not yet in it.\<close>

definition demo :: "cells cres" where
  "demo =
     c_bind (hjson_mkstring 1 (ascii ''Oslo'' @ [0]) (hjson_mkobject 0 Map.empty)) (\<lambda>h.
     c_bind (hjson_append_member h (Some 0) (ascii ''city'' @ [0]) (Some 1)) (\<lambda>h.
       hjson_mkbool 2 True h))"

definition demo_cells :: cells where
  "demo_cells = (case demo of Inr h \<Rightarrow> h | Inl _ \<Rightarrow> Map.empty)"

abbreviation city :: tree where "city \<equiv> Leaf 1 (LString (ascii ''Oslo''))"

abbreviation city_object :: tree where "city_object \<equiv> Branch 0 True [(Some (ascii ''city''), city)]"

abbreviation flag :: tree where "flag \<equiv> Leaf 2 (LBool True)"

lemma demo_rep: "rep demo_cells city_object" "standalone demo_cells city_object" "standalone demo_cells flag"
  by code_simp+

lemma standalone_iff: "standalone h t \<longleftrightarrow> rep h t \<and> distinct (addrs t) \<and> unlinked h (addr t)"
  by (auto simp: standalone_def unlinked_def case_found)

lemma hjson_find_values_witness:
  "\<exists>r. hjson_find_member 4 demo_cells (Some 0) (ascii ''city'' @ [0]) = Inr (map_option addr r)
     \<and> map_option erase r = Some (JString (ascii ''Oslo''))"
proof -
  have "json_find_member (Some (erase city_object)) (cstring (ascii ''city'' @ [0])) = Some (JString (ascii ''Oslo''))"
    by code_simp
  moreover have "fuel_for city_object \<le> 4" by simp
  note hjson_find_values [OF demo_rep(1) this, of "ascii ''city'' @ [0]" 0]
  ultimately show ?thesis unfolding addr.simps by metis
qed

section \<open>The properties\<close>

text \<open>What a change of the children of \<open>a\<close> must do: the list of children is the new one, the links of
  \<open>a\<close> itself and all nodes but those of the value and \<open>c\<close> are as before.\<close>

definition relinked :: "cells \<Rightarrow> cells cres \<Rightarrow> nat \<Rightarrow> bool \<Rightarrow> forest \<Rightarrow> forest \<Rightarrow> nat \<Rightarrow> bool" where
  "relinked h r a ob ts ts' c \<longleftrightarrow> (\<exists>h'. r = Inr h' \<and> rep h' (Branch a ob ts') \<and> same_links h h' a
     \<and> (\<forall>x. x \<notin> set (addrs (Branch a ob ts)) \<and> x \<noteq> c \<longrightarrow> h' x = h x))"

lemma append_relinked:
  assumes "rep h (Branch a ob ts)" and "standalone h t" and "distinct (addrs (Branch a ob ts) @ addrs t)"
    and "k = None" and "\<not> ob"
  shows "relinked h (append_node h (Some a) (Some (addr t))) a ob ts (ts @ [(k, t)]) (addr t)"
    and "relinked h (prepend_node h (Some a) (Some (addr t))) a ob ts ((k, t) # ts) (addr t)"
proof -
  obtain c where c: "h (addr t) = Some c" "nkey c = k" "rep h t"
    using assms(2,4) by (auto simp: standalone_iff unlinked_def)
  have k: "child_ok ob k" using assms(4,5) by (simp add: child_ok_def)
  show "relinked h (append_node h (Some a) (Some (addr t))) a ob ts (ts @ [(k, t)]) (addr t)"
    unfolding relinked_def by (rule append_node_ok [OF assms(1) c(3) assms(3) c(1,2) k]) blast
  show "relinked h (prepend_node h (Some a) (Some (addr t))) a ob ts ((k, t) # ts) (addr t)"
    unfolding relinked_def by (rule prepend_node_ok [OF assms(1) c(3) assms(3) c(1,2) k]) blast
qed

lemma keyed_relinked:
  assumes "rep h (Branch a True ts)" and "standalone h t" and "distinct (addrs (Branch a True ts) @ addrs t)"
    and "no_nul key"
  obtains h1 where "modify h (Some (addr t)) (set_key key) = Inr h1"
    and "relinked h (append_node h1 (Some a) (Some (addr t))) a True ts (ts @ [(Some key, t)]) (addr t)"
    and "relinked h (prepend_node h1 (Some a) (Some (addr t))) a True ts ((Some key, t) # ts) (addr t)"
proof -
  obtain c where c: "h (addr t) = Some c" "rep h t"
    using assms(2) by (auto simp: standalone_iff unlinked_def)
  let ?h = "h(addr t \<mapsto> c\<lparr>nkey := Some key\<rparr>)"
  have ne: "a \<noteq> addr t" using assms(3) by auto
  have r: "rep ?h (Branch a True ts)" by (rule rep_same [OF assms(1)]) (use assms(3) in auto)
  have t: "rep ?h t" by (rule rep_frame(1) [OF c(2)]) (use assms(3) c(1) in \<open>auto simp: addrs_below agree_def\<close>)
  have k: "child_ok True (Some key)" using assms(4) by (simp add: child_ok_def)
  have c': "?h (addr t) = Some (c\<lparr>nkey := Some key\<rparr>)" "nkey (c\<lparr>nkey := Some key\<rparr>) = Some key" by simp_all
  have weaken: "relinked h x a True ts ts' (addr t)" if "relinked ?h x a True ts ts' (addr t)" for x ts'
    using that ne by (auto simp: relinked_def same_links_def)
  show ?thesis
  proof (rule that)
    show "modify h (Some (addr t)) (set_key key) = Inr ?h" using c(1) by (simp add: modify_def set_key_def)
    show "relinked h (append_node ?h (Some a) (Some (addr t))) a True ts (ts @ [(Some key, t)]) (addr t)"
      by (rule weaken, unfold relinked_def, rule append_node_ok [OF r t assms(3) c' k]) blast
    show "relinked h (prepend_node ?h (Some a) (Some (addr t))) a True ts ((Some key, t) # ts) (addr t)"
      by (rule weaken, unfold relinked_def, rule prepend_node_ok [OF r t assms(3) c' k]) blast
  qed
qed

lemma assert_free_ok:
  assumes "rep h (Branch a ob ts)" and "standalone h t"
  shows "assert_free h (Some a) (if ob then JSON_OBJECT else JSON_ARRAY) (Some (addr t)) k = k"
    and "assert_free h (Some a) (if ob then JSON_ARRAY else JSON_OBJECT) (Some (addr t)) k = Inl AssertFail"
  using assms by (auto simp: assert_free_def case_found holds_children_def standalone_iff unlinked_def)

text \<open>C15: The functions that add a child to an array or an object implement the lists of children of
  the values: for a value of its own that shares no node with the container, they put its node at the
  end or at the front of the linked children, with the key they were given, keep every other link, and
  what stands in memory afterwards is what the functions on values yield; a container of the other
  kind fails the assertion.\<close>

theorem hjson_add_child:
  assumes "rep h (Branch a ob ts)" and "standalone h t" and "distinct (addrs (Branch a ob ts) @ addrs t)"
  shows "if ob then
      relinked h (hjson_append_member h (Some a) key (Some (addr t))) a ob ts (ts @ [(Some (cstring key), t)]) (addr t)
      \<and> json_append_member (erase (Branch a ob ts)) (cstring key) (erase t)
          = Inr (erase (Branch a ob (ts @ [(Some (cstring key), t)])))
      \<and> relinked h (hjson_prepend_member h (Some a) key (Some (addr t))) a ob ts ((Some (cstring key), t) # ts) (addr t)
      \<and> hjson_append_element h (Some a) (Some (addr t)) = Inl AssertFail
      \<and> hjson_prepend_element h (Some a) (Some (addr t)) = Inl AssertFail
    else
      relinked h (hjson_append_element h (Some a) (Some (addr t))) a ob ts (ts @ [(None, t)]) (addr t)
      \<and> json_append_element (erase (Branch a ob ts)) (erase t) = Inr (erase (Branch a ob (ts @ [(None, t)])))
      \<and> relinked h (hjson_prepend_element h (Some a) (Some (addr t))) a ob ts ((None, t) # ts) (addr t)
      \<and> hjson_append_member h (Some a) key (Some (addr t)) = Inl AssertFail
      \<and> hjson_prepend_member h (Some a) key (Some (addr t)) = Inl AssertFail"
proof (cases ob)
  case True
  note asserts = assert_free_ok [OF assms(1,2), unfolded if_P [OF True]]
  have "no_nul (cstring key)" by (auto simp: no_nul_def cstring_def dest: set_takeWhileD)
  from keyed_relinked [OF assms [simplified True] this] obtain h1
    where "modify h (Some (addr t)) (set_key (cstring key)) = Inr h1"
      "relinked h (append_node h1 (Some a) (Some (addr t))) a True ts (ts @ [(Some (cstring key), t)]) (addr t)"
      "relinked h (prepend_node h1 (Some a) (Some (addr t))) a True ts ((Some (cstring key), t) # ts) (addr t)"
    by blast
  then show ?thesis
    by (simp add: True asserts hjson_append_member_def hjson_prepend_member_def hjson_append_element_def
        hjson_prepend_element_def append_member_def)
next
  case False
  note asserts = assert_free_ok [OF assms(1,2), unfolded if_not_P [OF False]]
  show ?thesis
    using append_relinked [OF assms refl False]
    by (simp add: False asserts hjson_append_member_def hjson_prepend_member_def hjson_append_element_def
        hjson_prepend_element_def json_append_element_def)
qed

lemma hjson_add_child_witness:
  "relinked demo_cells (hjson_append_member demo_cells (Some 0) (ascii ''flag'' @ [0]) (Some 2)) 0 True
     [(Some (ascii ''city''), city)] ([(Some (ascii ''city''), city)] @ [(Some (cstring (ascii ''flag'' @ [0])), flag)]) 2"
proof -
  have "distinct (addrs city_object @ addrs flag)" by code_simp
  from hjson_add_child [OF demo_rep(1,3) this, of "ascii ''flag'' @ [0]"] show ?thesis by simp
qed

text \<open>C16: \<open>json_remove_from_parent\<close> takes a child out of the linked children of its parent, wherever it
  stands, and leaves it as a value of its own; \<open>json_delete\<close> of a child does the same and frees the
  nodes of the child and no other node.\<close>

theorem hjson_remove_child:
  assumes "rep h (Branch a ob (xs @ (k, t) # ys))" and "distinct (addrs (Branch a ob (xs @ (k, t) # ys)))"
    and "fuel_for t \<le> fuel"
  shows "(\<exists>h'. hjson_remove_from_parent h (Some (addr t)) = Inr h' \<and> rep h' (Branch a ob (xs @ ys))
        \<and> standalone h' t \<and> same_links h h' a)
    \<and> (\<exists>h'. hjson_delete fuel h (Some (addr t)) = Inr h' \<and> rep h' (Branch a ob (xs @ ys)) \<and> same_links h h' a
        \<and> (\<forall>x \<in> set (addrs t). h' x = None)
        \<and> (\<forall>x. x \<notin> set (addrs (Branch a ob (xs @ (k, t) # ys))) \<longrightarrow> h' x = h x))"
proof -
  obtain h1 where h1: "hjson_remove_from_parent h (Some (addr t)) = Inr h1" "rep h1 (Branch a ob (xs @ ys))"
    "rep h1 t" "unlinked h1 (addr t)" "same_links h h1 a"
    "\<forall>x. x \<notin> set (addrs (Branch a ob (xs @ ys))) \<and> x \<noteq> addr t \<longrightarrow> h1 x = h x"
    by (rule remove_ok [OF assms(1,2)])
  have d: "distinct (addrs t)" "a \<notin> set (addrs t)" "set (addrs t) \<inter> set (addrs (Branch a ob (xs @ ys))) = {}"
    using assms(2) by auto
  let ?h2 = "\<lambda>x. if x \<in> set (addrs t) then None else h1 x"
  have "hjson_delete fuel h1 (Some (addr t)) = Inr ?h2" by (rule delete_ok(1) [OF h1(3,4) d(1) assms(3)])
  moreover have "hjson_delete fuel h (Some (addr t)) = hjson_delete fuel h1 (Some (addr t))"
    using h1(1) remove_unlinked [OF h1(4)] assms(3) fuel_pos(1) [of t] by (cases fuel) simp_all
  ultimately have del: "hjson_delete fuel h (Some (addr t)) = Inr ?h2" by simp
  have "rep ?h2 (Branch a ob (xs @ ys))" by (rule rep_same [OF h1(2)]) (use d(3) in auto)
  moreover have "same_links h ?h2 a" using h1(5) d(2) by (auto simp: same_links_def)
  moreover have "\<forall>x. x \<notin> set (addrs (Branch a ob (xs @ (k, t) # ys))) \<longrightarrow> ?h2 x = h x" using h1(6) by auto
  ultimately show ?thesis using h1 d(1) del by (auto simp: standalone_iff)
qed

lemma hjson_remove_child_witness:
  "\<exists>h'. hjson_delete 2 demo_cells (Some 1) = Inr h' \<and> rep h' (Branch 0 True []) \<and> h' 1 = None"
proof -
  have "distinct (addrs city_object)" by code_simp
  then show ?thesis
    using hjson_remove_child [of demo_cells 0 True "[]" "Some (ascii ''city'')" city "[]" 2] demo_rep(1) by auto
qed

text \<open>\<open>json_delete\<close> of a value of its own ends without a fault, whatever the shape of the value,
  frees each of its nodes, and no other node changes. Three times the number of its nodes bounds the
  calls together with the rounds of the loop.\<close>

theorem hjson_delete_frees:
  assumes "standalone h t" and "3 * length (addrs t) \<le> fuel"
  shows "hjson_delete fuel h (Some (addr t)) = Inr (\<lambda>x. if x \<in> set (addrs t) then None else h x)"
  using assms delete_ok(1) [of h t fuel] fuel_bound(1) [of t] by (auto simp: standalone_iff)

lemma hjson_delete_frees_witness:
  "hjson_delete 6 demo_cells (Some 0) = Inr (\<lambda>x. if x \<in> {0, 1} then None else demo_cells x)"
proof -
  have "3 * length (addrs city_object) \<le> 6" by simp
  from hjson_delete_frees [OF demo_rep(2) this] show ?thesis by simp
qed

text \<open>C17: \<open>json_check\<close> ends on every linked value and accepts it exactly when the strings and keys of the
  value, and the key of its root, are valid UTF-8: no well linked structure is reported as a problem,
  and what it accepts is what the printer prints without a failed assertion.\<close>

theorem hjson_check_exact:
  assumes "rep h t" and "distinct (addrs t)" and "h (addr t) = Some n" and "3 * length (addrs t) \<le> fuel"
  shows "hjson_check fuel h (Some (addr t)) = Inr (key_text (nkey n) \<and> strings_valid (erase t))"
  using assms check_ok(1) [of h t n fuel] fuel_bound(1) [of t] by simp

lemma hjson_check_exact_witness:
  "hjson_check 6 demo_cells (Some 0) = Inr (strings_valid (erase city_object))"
proof -
  obtain n where n: "demo_cells (addr city_object) = Some n" "nkey n = None"
    using demo_rep(2) by (auto simp: standalone_iff unlinked_def)
  have "distinct (addrs city_object)" "3 * length (addrs city_object) \<le> 6" by simp_all
  from hjson_check_exact [OF demo_rep(1) this(1) n(1) this(2)] n(2) show ?thesis by (simp add: key_text_def)
qed

end
