(* ===== verification/Json_Build.thy ===== *)
theory Json_Build
  imports Json_Heap Json_Safety
begin

text \<open>
  The parser of json.c as it builds linked nodes: \<open>parse_array\<close> and \<open>parse_object\<close> allocate the
  container first, append what they read to it, and delete it with all its children when they meet a
  mistake. Json_Parse models the same functions on values; this theory shows that the nodes stand for
  the values that Json_Parse yields and that a rejected text leaves no node behind.

  The memory is the cells with the address that \<open>calloc\<close> gives next; addresses are not used again.
  The fuel bounds the calls together with the rounds of the loops.
\<close>

section \<open>The code\<close>

type_synonym store = "cells \<times> nat"

type_synonym 'a built = "(('a \<times> byte list) option \<times> store) cres"

definition alloc :: "JsonTag \<Rightarrow> store \<Rightarrow> nat \<times> store" where
  "alloc t m = (case m of (h, next_addr) \<Rightarrow> (next_addr, (mknode next_addr t h, next_addr + 1)))"

text \<open>A node that one of the constructors makes at the next address.\<close>

definition leaf_node :: "(nat \<Rightarrow> cells \<Rightarrow> cells cres) \<Rightarrow> store \<Rightarrow> byte list \<Rightarrow> nat built" where
  "leaf_node mk m s = (case m of (h, a) \<Rightarrow> c_bind (mk a h) (\<lambda>h. Inr (Some (a, s), (h, a + 1))))"

text \<open>\<open>goto failure\<close>: every node has an address below the next one, which bounds the fuel of the deletion.\<close>

definition hfailure :: "nat \<Rightarrow> store \<Rightarrow> nat built" where
  "hfailure ret m = (case m of (h, next_addr) \<Rightarrow>
     c_bind (hjson_delete (3 * next_addr) h (Some ret)) (\<lambda>h. Inr (None, (h, next_addr))))"

text \<open>\<open>if (!parse(&s, &x))\<close> with the code for a failure and the rest.\<close>

definition or_else :: "'a parse \<Rightarrow> 'b built \<Rightarrow> ('a \<Rightarrow> byte list \<Rightarrow> 'b built) \<Rightarrow> 'b built" where
  "or_else p fail f = c_bind p (\<lambda>r. case r of None \<Rightarrow> fail | Some (v, s) \<Rightarrow> f v s)"

text \<open>
  The five pieces of code that call each other; \<open>call\<close> is such a call. The loops are given the address
  of the container.
\<close>

datatype entry = Value | Array | ArrayLoop nat | Object | ObjectLoop nat

type_synonym parser_call = "entry \<Rightarrow> store \<Rightarrow> byte list \<Rightarrow> nat built"

definition hparse_value :: "parser_call \<Rightarrow> store \<Rightarrow> byte list \<Rightarrow> nat built" where
  "hparse_value call m s = read1 s (\<lambda>c _.
     if c = 0x6E then or_else (expect_literal (ascii ''null'') s) (Inr (None, m))
       (\<lambda>_ s. leaf_node (\<lambda>a h. Inr (hjson_mknull a h)) m s)
     else if c = 0x66 then or_else (expect_literal (ascii ''false'') s) (Inr (None, m))
       (\<lambda>_ s. leaf_node (\<lambda>a. hjson_mkbool a False) m s)
     else if c = 0x74 then or_else (expect_literal (ascii ''true'') s) (Inr (None, m))
       (\<lambda>_ s. leaf_node (\<lambda>a. hjson_mkbool a True) m s)
     else if c = 0x22 then or_else (parse_string True s) (Inr (None, m)) (\<lambda>str s. leaf_node (\<lambda>a. hmkstring a str) m s)
     else if c = 0x5B then call Array m s
     else if c = 0x7B then call Object m s
     else or_else (parse_number True s) (Inr (None, m)) (\<lambda>num s. case num of
            None \<Rightarrow> Inl BadPointer | Some num \<Rightarrow> leaf_node (\<lambda>a. hjson_mknumber a num) m s))"

definition hparse_array :: "parser_call \<Rightarrow> store \<Rightarrow> byte list \<Rightarrow> nat built" where
  "hparse_array call m s = (case alloc JSON_ARRAY m of (ret, m) \<Rightarrow> read1 s (\<lambda>c s.
     if c \<noteq> 0x5B then hfailure ret m
     else c_bind (skip_space s) (\<lambda>s. read1 s (\<lambda>c s'.
       if c = 0x5D then Inr (Some (ret, s'), m) else call (ArrayLoop ret) m s))))"

definition harray_loop :: "parser_call \<Rightarrow> nat \<Rightarrow> store \<Rightarrow> byte list \<Rightarrow> nat built" where
  "harray_loop call ret m s = c_bind (call Value m s) (\<lambda>(r, m). case r of None \<Rightarrow> hfailure ret m
     | Some (element, s) \<Rightarrow> c_bind (skip_space s) (\<lambda>s.
         c_bind (hjson_append_element (fst m) (Some ret) (Some element)) (\<lambda>h. read1 s (\<lambda>c s'.
           if c = 0x5D then Inr (Some (ret, s'), (h, snd m))
           else if c \<noteq> 0x2C then hfailure ret (h, snd m)
           else c_bind (skip_space s') (\<lambda>s. call (ArrayLoop ret) (h, snd m) s)))))"

definition hparse_object :: "parser_call \<Rightarrow> store \<Rightarrow> byte list \<Rightarrow> nat built" where
  "hparse_object call m s = (case alloc JSON_OBJECT m of (ret, m) \<Rightarrow> read1 s (\<lambda>c s.
     if c \<noteq> 0x7B then hfailure ret m
     else c_bind (skip_space s) (\<lambda>s. read1 s (\<lambda>c s'.
       if c = 0x7D then Inr (Some (ret, s'), m) else call (ObjectLoop ret) m s))))"

definition hobject_loop :: "parser_call \<Rightarrow> nat \<Rightarrow> store \<Rightarrow> byte list \<Rightarrow> nat built" where
  "hobject_loop call ret m s =
     or_else (parse_string True s) (hfailure ret m) (\<lambda>key s. c_bind (skip_space s) (\<lambda>s. read1 s (\<lambda>c s.
       if c \<noteq> 0x3A then hfailure ret m
       else c_bind (skip_space s) (\<lambda>s. c_bind (call Value m s) (\<lambda>(r, m). case r of None \<Rightarrow> hfailure ret m
       | Some (v, s) \<Rightarrow> c_bind (skip_space s) (\<lambda>s. case key of None \<Rightarrow> Inl BadPointer | Some key \<Rightarrow>
           c_bind (append_member (fst m) (Some ret) key (Some v)) (\<lambda>h. read1 s (\<lambda>c s'.
             if c = 0x7D then Inr (Some (ret, s'), (h, snd m))
             else if c \<noteq> 0x2C then hfailure ret (h, snd m)
             else c_bind (skip_space s') (\<lambda>s. call (ObjectLoop ret) (h, snd m) s)))))))))"

primrec hparse :: "nat \<Rightarrow> parser_call" where
  "hparse 0 e m s = Inl NoReturn"
| "hparse (Suc fuel) e m s = (case e of
     Value \<Rightarrow> hparse_value (hparse fuel) m s
   | Array \<Rightarrow> hparse_array (hparse fuel) m s
   | ArrayLoop ret \<Rightarrow> harray_loop (hparse fuel) ret m s
   | Object \<Rightarrow> hparse_object (hparse fuel) m s
   | ObjectLoop ret \<Rightarrow> hobject_loop (hparse fuel) ret m s)"

definition hjson_decode :: "nat \<Rightarrow> store \<Rightarrow> byte list \<Rightarrow> (ptr \<times> store) cres" where
  "hjson_decode fuel m json = c_bind (skip_space json) (\<lambda>s. c_bind (hparse fuel Value m s) (\<lambda>(r, m).
     case r of None \<Rightarrow> Inr (None, m)
     | Some (ret, s) \<Rightarrow> c_bind (skip_space s) (\<lambda>s. read1 s (\<lambda>c _.
         if c \<noteq> 0 then c_bind (hfailure ret m) (\<lambda>(_, m). Inr (None, m)) else Inr (Some ret, m)))))"

section \<open>Values under construction\<close>

definition fresh :: "cells \<Rightarrow> nat \<Rightarrow> bool" where
  "fresh h b \<longleftrightarrow> (\<forall>x \<ge> b. h x = None)"

text \<open>The value \<open>v\<close> was built in new nodes, and no other node has changed.\<close>

definition new_value :: "cells \<Rightarrow> nat \<Rightarrow> json \<Rightarrow> tree \<Rightarrow> store \<Rightarrow> bool" where
  "new_value h b v t m \<longleftrightarrow> standalone (fst m) t \<and> erase t = v \<and> set (addrs t) \<subseteq> {b ..< snd m} \<and> b \<le> snd m
     \<and> (\<forall>x. x \<notin> set (addrs t) \<longrightarrow> fst m x = h x)"

definition spec :: "cells \<Rightarrow> nat \<Rightarrow> json option parse \<Rightarrow> nat built \<Rightarrow> bool" where
  "spec h b p q \<longleftrightarrow> (case p of Inl e \<Rightarrow> True
     | Inr None \<Rightarrow> (\<exists>b' \<ge> b. q = Inr (None, (h, b')))
     | Inr (Some (v, r)) \<Rightarrow> (\<exists>w t m. v = Some w \<and> q = Inr (Some (addr t, r), m) \<and> new_value h b w t m))"

text \<open>A container that is being filled; without its nodes the memory is the one at the start.\<close>

definition growing :: "cells \<Rightarrow> nat \<Rightarrow> cells \<Rightarrow> nat \<Rightarrow> tree \<Rightarrow> bool" where
  "growing h0 b0 h b t \<longleftrightarrow> standalone h t \<and> set (addrs t) \<subseteq> {b0 ..< b} \<and> b0 \<le> b \<and> fresh h b
     \<and> h0 = (\<lambda>x. if x \<in> set (addrs t) then None else h x)"

lemma growing_new: "growing h0 b0 h b t \<Longrightarrow> new_value h0 b0 (erase t) t (h, b)"
  by (simp add: growing_def new_value_def)

lemma new_fresh:
  assumes "new_value h b v t m" and "fresh h b"
  shows "fresh (fst m) (snd m)"
  unfolding fresh_def
proof (intro allI impI)
  fix x
  assume "snd m \<le> x"
  then have "x \<notin> set (addrs t)" "b \<le> x" using assms(1) by (auto simp: new_value_def)
  then show "fst m x = None" using assms by (auto simp: new_value_def fresh_def)
qed

lemma growing_start:
  assumes "fresh h b"
  shows "growing h b (mknode b (if ob then JSON_OBJECT else JSON_ARRAY) h) (b + 1) (Branch b ob [])"
proof -
  have "standalone (mknode b (if ob then JSON_OBJECT else JSON_ARRAY) h) (Branch b ob [])"
    by (simp add: standalone_def mknode_def holds_children_def children_def)
  then show ?thesis using assms by (auto simp: growing_def fresh_def mknode_def fun_eq_iff)
qed

lemma growing_bound:
  assumes "growing h0 b0 h b t" shows "3 * length (addrs t) \<le> 3 * b"
proof -
  have "distinct (addrs t)" "set (addrs t) \<subseteq> {b0 ..< b}" using assms by (auto simp: growing_def standalone_def)
  then have "length (addrs t) = card (set (addrs t))" by (simp add: distinct_card)
  also have "\<dots> \<le> card {b0 ..< b}" using \<open>set (addrs t) \<subseteq> _\<close> by (intro card_mono) auto
  finally show ?thesis by simp
qed

lemma failure_ok:
  assumes "growing h0 b0 h b t" shows "\<exists>b' \<ge> b0. hfailure (addr t) (h, b) = Inr (None, (h0, b'))"
proof -
  have "hjson_delete (3 * b) h (Some (addr t)) = Inr (\<lambda>x. if x \<in> set (addrs t) then None else h x)"
    using assms growing_bound [OF assms] delete_ok(1) [of h t "3 * b"] fuel_bound(1) [of t]
    by (auto simp: growing_def standalone_iff)
  then show ?thesis using assms by (auto simp: hfailure_def growing_def)
qed

lemma new_standalone:
  assumes "growing h0 b0 h b t" and "new_value h b w u m"
  shows "rep (fst m) t" and "standalone (fst m) u" and "distinct (addrs t @ addrs u)" and "growing h0 b0 (fst m) (snd m) t
    \<longleftrightarrow> h0 = (\<lambda>x. if x \<in> set (addrs t) then None else fst m x) \<and> fresh (fst m) (snd m)"
proof -
  have t: "rep h t" "distinct (addrs t)" "set (addrs t) \<subseteq> {b0 ..< b}" "unlinked h (addr t)" "b0 \<le> b"
    using assms(1) by (auto simp: growing_def standalone_iff)
  have u: "standalone (fst m) u" "set (addrs u) \<subseteq> {b ..< snd m}" "b \<le> snd m"
    and same: "\<And>x. x \<notin> set (addrs u) \<Longrightarrow> fst m x = h x"
    using assms(2) by (auto simp: new_value_def)
  have disj: "x \<notin> set (addrs u)" if "x \<in> set (addrs t)" for x using that t(3) u(2) by fastforce
  show r: "rep (fst m) t" by (rule rep_same [OF t(1)]) (use same disj in auto)
  show "standalone (fst m) u" by (rule u(1))
  show "distinct (addrs t @ addrs u)" using t(2) u(1) disj by (auto simp: standalone_iff)
  have "unlinked (fst m) (addr t)" using t(4) same [of "addr t"] disj [of "addr t"] by (simp add: unlinked_def)
  then show "growing h0 b0 (fst m) (snd m) t
    \<longleftrightarrow> h0 = (\<lambda>x. if x \<in> set (addrs t) then None else fst m x) \<and> fresh (fst m) (snd m)"
    using r t(2,3,5) u(3) by (auto simp: growing_def standalone_iff)
qed

text \<open>A child that was read goes to the end of the container.\<close>

lemma growing_add:
  assumes "growing h0 b0 h b (Branch a ob ts)" and "new_value h b w u m"
    and "relinked (fst m) r a ob ts (ts @ [(k, u)]) (addr u)"
  obtains h2 where "r = Inr h2" "growing h0 b0 h2 (snd m) (Branch a ob (ts @ [(k, u)]))"
proof -
  let ?t = "Branch a ob ts"
  let ?t' = "Branch a ob (ts @ [(k, u)])"
  note n = new_standalone [OF assms(1,2)]
  obtain h2 where h2: "r = Inr h2" "rep h2 ?t'" "same_links (fst m) h2 a"
    "\<And>x. x \<notin> set (addrs ?t) \<Longrightarrow> x \<noteq> addr u \<Longrightarrow> h2 x = fst m x"
    using assms(3) by (auto simp: relinked_def)
  have g: "set (addrs ?t) \<subseteq> {b0 ..< b}" "b0 \<le> b" "fresh h b" "h0 = (\<lambda>x. if x \<in> set (addrs ?t) then None else h x)"
    "unlinked h a" using assms(1) by (auto simp: growing_def standalone_iff)
  have u: "set (addrs u) \<subseteq> {b ..< snd m}" "b \<le> snd m" "\<And>x. x \<notin> set (addrs u) \<Longrightarrow> fst m x = h x"
    using assms(2) by (auto simp: new_value_def)
  have addrs: "set (addrs ?t') = set (addrs ?t) \<union> set (addrs u)" by auto
  have ur: "addr u \<in> set (addrs u)" by simp
  have "a \<notin> set (addrs u)" using n(3) by auto
  then have "unlinked (fst m) a" using g(5) u(3) by (simp add: unlinked_def)
  then have "unlinked h2 a" using h2(3) by (auto simp: unlinked_def same_links_def)
  then have "standalone h2 ?t'" using h2(2) n(3) by (simp add: standalone_iff)
  moreover have "set (addrs ?t') \<subseteq> {b0 ..< snd m}" unfolding addrs using g(1,2) u(1,2) by fastforce
  moreover have out: "h2 x = h x" if "x \<notin> set (addrs ?t')" for x
    using that h2(4) [of x] u(3) [of x] ur unfolding addrs by (metis UnCI)
  moreover have "fresh h2 (snd m)"
    unfolding fresh_def
  proof (intro allI impI)
    fix x
    assume "snd m \<le> x"
    then have "x \<notin> set (addrs ?t')" "b \<le> x" using \<open>set (addrs ?t') \<subseteq> _\<close> u(2) by (auto simp del: addrs.simps)
    then show "h2 x = None" using out [of x] g(3) by (simp add: fresh_def del: addrs.simps)
  qed
  moreover have "h0 = (\<lambda>x. if x \<in> set (addrs ?t') then None else h2 x)"
  proof
    fix x
    show "h0 x = (if x \<in> set (addrs ?t') then None else h2 x)"
    proof (cases "x \<in> set (addrs u)")
      case True
      then have "x \<ge> b" using u(1) by fastforce
      then have "h x = None" using g(3) by (simp add: fresh_def)
      then show ?thesis using True addrs g(4) by simp
    next
      case False
      then show ?thesis using out [of x] addrs g(4) by auto
    qed
  qed
  ultimately show ?thesis using h2(1) g(2) u(2) by (intro that) (simp_all add: growing_def)
qed

lemma spec_Reject: "b \<le> b' \<Longrightarrow> spec h b Reject (Inr (None, (h, b')))"
  by (simp add: spec_def)

lemma spec_failure: "growing h0 b0 h b t \<Longrightarrow> spec h0 b0 Reject (hfailure (addr t) (h, b))"
  using failure_ok [of h0 b0 h b t] by (simp add: spec_def)

lemma spec_done:
  "growing h0 b0 h b t \<Longrightarrow> w = erase t \<Longrightarrow> spec h0 b0 (Accept (Some w) s) (Inr (Some (addr t, s), (h, b)))"
  using growing_new [of h0 b0 h b t] by (auto simp: spec_def)

lemma spec_leaf:
  assumes "fresh h b" and "mk b h = Inr (h(b \<mapsto> n))" and "holds_leaf n v"
    and "parent n = None \<and> prev n = None \<and> nxt n = None \<and> nkey n = None"
  shows "spec h b (Accept (Some (erase_leaf v)) s) (leaf_node mk (h, b) s)"
proof -
  have "new_value h b (erase_leaf v) (Leaf b v) (h(b \<mapsto> n), b + 1)"
    using assms(3,4) by (simp add: new_value_def standalone_def)
  then show ?thesis using assms(2) unfolding spec_def leaf_node_def by (auto intro!: exI [of _ "Leaf b v"])
qed

section \<open>The parser and the builder in step\<close>

lemma spec_read1: "(\<And>c t. s = c # t \<Longrightarrow> spec h b (f c t) (g c t)) \<Longrightarrow> spec h b (read1 s f) (read1 s g)"
  by (cases s) (simp_all add: spec_def)

lemma spec_c_bind: "(\<And>v. x = Inr v \<Longrightarrow> spec h b (f v) (g v)) \<Longrightarrow> spec h b (c_bind x f) (c_bind x g)"
  by (cases x) (simp_all add: spec_def)

lemma spec_if:
  "(c \<Longrightarrow> spec h b x u) \<Longrightarrow> (\<not> c \<Longrightarrow> spec h b y v) \<Longrightarrow> spec h b (if c then x else y) (if c then u else v)"
  by simp

lemma spec_or_else:
  "spec h b Reject fail \<Longrightarrow> (\<And>v t. p = Accept v t \<Longrightarrow> spec h b (f v t) (g v t)) \<Longrightarrow>
     spec h b (p_bind p f) (or_else p fail g)"
  by (cases p rule: parse_cases) (simp_all add: spec_def or_else_def)

lemma growing_later: "growing h0 b0 h b t \<Longrightarrow> b \<le> b' \<Longrightarrow> growing h0 b0 h b' t"
  by (fastforce simp: growing_def fresh_def)

text \<open>A call for the next value while the container \<open>t\<close> is being filled.\<close>

lemma spec_call:
  assumes "spec h b p q" and "growing h0 b0 h b t"
    and "\<And>w s u m. p = Accept (Some w) s \<Longrightarrow> new_value h b w u m \<Longrightarrow> spec h0 b0 (f (Some w) s) (g m (addr u) s)"
  shows "spec h0 b0 (p_bind p f) (c_bind q (\<lambda>(r, m). case r of None \<Rightarrow> hfailure (addr t) m | Some (x, s) \<Rightarrow> g m x s))"
proof (cases p rule: parse_cases)
  case Reject
  then obtain b' where b': "b \<le> b'" "q = Inr (None, (h, b'))" using assms(1) by (auto simp: spec_def)
  show ?thesis using spec_failure [OF growing_later [OF assms(2) b'(1)]] by (simp add: Reject b'(2))
next
  case (Accept v s)
  then show ?thesis using assms(1) assms(3) by (auto simp: spec_def [of h b])
qed (simp add: spec_def)

section \<open>One step of each function\<close>

text \<open>
  What a call with the fuel \<open>n\<close> has to do: \<open>3\<close> calls may pass before the cursor moves, so a text of
  length \<open>l\<close> needs \<open>3 * l\<close> and the few steps at its end.
\<close>

definition ok_value :: "nat \<Rightarrow> parser_call \<Rightarrow> bool" where
  "ok_value n call \<longleftrightarrow> (\<forall>h b s. fresh h b \<longrightarrow> nulterm s \<longrightarrow> 3 * length s + 3 \<le> n \<longrightarrow>
     spec h b (parse_value True s) (call Value (h, b) s))"

definition ok_containers :: "nat \<Rightarrow> parser_call \<Rightarrow> bool" where
  "ok_containers n call \<longleftrightarrow> (\<forall>h b s. fresh h b \<longrightarrow> nulterm s \<longrightarrow> 3 * length s + 2 \<le> n \<longrightarrow>
     spec h b (parse_array True s) (call Array (h, b) s) \<and> spec h b (parse_object True s) (call Object (h, b) s))"

definition ok_loops :: "nat \<Rightarrow> parser_call \<Rightarrow> bool" where
  "ok_loops n call \<longleftrightarrow> (\<forall>h0 b0 h b a ts s. nulterm s \<longrightarrow> 3 * length s + 4 \<le> n \<longrightarrow>
     (growing h0 b0 h b (Branch a False ts) \<longrightarrow>
        spec h0 b0 (array_loop True (map snd (erase_all ts)) s) (call (ArrayLoop a) (h, b) s))
     \<and> (growing h0 b0 h b (Branch a True ts) \<longrightarrow>
        spec h0 b0 (object_loop True (erase_all ts) s) (call (ObjectLoop a) (h, b) s)))"

lemmas ok_calls = ok_value_def ok_containers_def ok_loops_def

lemma node_True [simp]: "node True j = Some j"
  by (simp add: node_def)

lemma value_ok:
  assumes "ok_containers n call" and "fresh h b" and "nulterm s" and "3 * length s + 2 \<le> n"
  shows "spec h b (parse_value True s) (hparse_value call (h, b) s)"
proof -
  note leaf = spec_leaf [OF assms(2)]
  have null: "spec h b (Accept (Some JNull) t) (leaf_node (\<lambda>a h. Inr (hjson_mknull a h)) (h, b) t)" for t
    using leaf [of "\<lambda>a h. Inr (hjson_mknull a h)" _ LNull t] by (simp add: hjson_mknull_def mknode_def)
  have bool: "spec h b (Accept (Some (JBool x)) t) (leaf_node (\<lambda>a. hjson_mkbool a x) (h, b) t)" for x t
    using leaf [of "\<lambda>a. hjson_mkbool a x" _ "LBool x" t]
    by (simp add: hjson_mkbool_def mknode_def modify_def bool_of_def)
  have string: "spec h b (Accept (map_option JString str) t) (leaf_node (\<lambda>a. hmkstring a str) (h, b) t)"
    if p: "parse_string True s = Accept str t" for str t
  proof -
    obtain x where x: "str = Some x" "utf8_text x" using parse_string_ok(2) [OF assms(3) p] by auto
    then show ?thesis using leaf [of "\<lambda>a. hmkstring a str" _ "LString x" t]
      by (simp add: hmkstring_def mknode_def modify_def string_of_def utf8_text_no_nul)
  qed
  have number: "spec h b (Accept (Some (JNumber x)) t) (leaf_node (\<lambda>a. hjson_mknumber a x) (h, b) t)" for x t
    using leaf [of "\<lambda>a. hjson_mknumber a x" _ "LNumber x" t]
    by (simp add: hjson_mknumber_def mknode_def modify_def)
  have num: "spec h b (Accept (map_option JNumber v) t) (case v of
      None \<Rightarrow> Inl BadPointer | Some num \<Rightarrow> leaf_node (\<lambda>a. hjson_mknumber a num) (h, b) t)"
    if "parse_number True s = Accept v t" for v t
    using that number by (auto simp: parse_number_def c_iff)
  have "spec h b (parse_array True s) (call Array (h, b) s)" "spec h b (parse_object True s) (call Object (h, b) s)"
    using assms by (simp_all add: ok_containers_def)
  then show ?thesis
    unfolding parse_value.simps [of _ s] hparse_value_def node_True
    by (intro spec_read1 spec_if spec_or_else spec_Reject order_refl null bool string num)
qed

lemma start_facts:
  assumes "fresh h b"
  shows "growing h b (mknode b JSON_ARRAY h) (b + 1) (Branch b False [])"
    and "growing h b (mknode b JSON_OBJECT h) (b + 1) (Branch b True [])"
  using growing_start [OF assms, of False] growing_start [OF assms, of True] by simp_all

lemma array_ok:
  assumes "ok_loops n call" and "fresh h b" and "nulterm s" and "3 * length s + 1 \<le> n"
  shows "spec h b (parse_array True s) (hparse_array call (h, b) s)"
proof -
  note g = start_facts(1) [OF assms(2)]
  have fail: "spec h b Reject (hfailure b (mknode b JSON_ARRAY h, b + 1))" using spec_failure [OF g] by simp
  have fin: "spec h b (Accept (Some (JArray [])) w) (Inr (Some (b, w), (mknode b JSON_ARRAY h, b + 1)))" for w
    using spec_done [OF g refl] by simp
  show ?thesis
    unfolding parse_array.simps [of _ s] hparse_array_def alloc_def prod.case node_True
  proof (intro spec_read1 spec_if spec_c_bind fail fin)
    fix c t v d w
    assume *: "s = c # t" "\<not> c \<noteq> 0x5B" "skip_space t = Inr v" "v = d # w"
    have "nulterm v" by (rule skip_space_nulterm [OF *(3)]) (use *(1,2) assms(3) in auto)
    moreover have "3 * length v + 4 \<le> n" using reads_length [OF skip_space_reads [OF *(3)]] assms(4) *(1) by simp
    ultimately show "spec h b (array_loop True [] v) (call (ArrayLoop b) (mknode b JSON_ARRAY h, b + 1) v)"
      using assms(1) g by (fastforce simp: ok_loops_def)
  qed
qed

lemma object_ok:
  assumes "ok_loops n call" and "fresh h b" and "nulterm s" and "3 * length s + 1 \<le> n"
  shows "spec h b (parse_object True s) (hparse_object call (h, b) s)"
proof -
  note g = start_facts(2) [OF assms(2)]
  have fail: "spec h b Reject (hfailure b (mknode b JSON_OBJECT h, b + 1))" using spec_failure [OF g] by simp
  have fin: "spec h b (Accept (Some (JObject [])) w) (Inr (Some (b, w), (mknode b JSON_OBJECT h, b + 1)))" for w
    using spec_done [OF g refl] by simp
  show ?thesis
    unfolding parse_object.simps [of _ s] hparse_object_def alloc_def prod.case node_True
  proof (intro spec_read1 spec_if spec_c_bind fail fin)
    fix c t v d w
    assume *: "s = c # t" "\<not> c \<noteq> 0x7B" "skip_space t = Inr v" "v = d # w"
    have "nulterm v" by (rule skip_space_nulterm [OF *(3)]) (use *(1,2) assms(3) in auto)
    moreover have "3 * length v + 4 \<le> n" using reads_length [OF skip_space_reads [OF *(3)]] assms(4) *(1) by simp
    ultimately show "spec h b (object_loop True [] v) (call (ObjectLoop b) (mknode b JSON_OBJECT h, b + 1) v)"
      using assms(1) g by (fastforce simp: ok_loops_def)
  qed
qed

lemma element_added:
  assumes "growing h0 b0 h b (Branch a False ts)" and "new_value h b w u m"
  obtains h2 where "hjson_append_element (fst m) (Some a) (Some (addr u)) = Inr h2"
    and "growing h0 b0 h2 (snd m) (Branch a False (ts @ [(None, u)]))"
proof -
  note n = new_standalone(1-3) [OF assms]
  have r: "relinked (fst m) (append_node (fst m) (Some a) (Some (addr u))) a False ts (ts @ [(None, u)]) (addr u)"
    by (rule append_relinked(1) [OF n]) simp_all
  obtain h2 where h2: "append_node (fst m) (Some a) (Some (addr u)) = Inr h2"
    "growing h0 b0 h2 (snd m) (Branch a False (ts @ [(None, u)]))" by (rule growing_add [OF assms r])
  then show ?thesis using assert_free_ok(1) [OF n(1,2)] by (intro that) (simp_all add: hjson_append_element_def)
qed

lemma member_added:
  assumes "growing h0 b0 h b (Branch a True ts)" and "new_value h b w u m" and "no_nul key"
  obtains h2 where "append_member (fst m) (Some a) key (Some (addr u)) = Inr h2"
    and "growing h0 b0 h2 (snd m) (Branch a True (ts @ [(Some key, u)]))"
proof -
  note n = new_standalone(1-3) [OF assms(1,2)]
  obtain h1 where h1: "modify (fst m) (Some (addr u)) (set_key key) = Inr h1"
    "relinked (fst m) (append_node h1 (Some a) (Some (addr u))) a True ts (ts @ [(Some key, u)]) (addr u)"
    using keyed_relinked [OF n assms(3)] by metis
  obtain h2 where "append_node h1 (Some a) (Some (addr u)) = Inr h2"
    "growing h0 b0 h2 (snd m) (Branch a True (ts @ [(Some key, u)]))" by (rule growing_add [OF assms(1,2) h1(2)])
  then show ?thesis using h1(1) by (intro that) (simp_all add: append_member_def)
qed

text \<open>After a value was added: the end of the container, a mistake, or the next round.\<close>

lemma after_value:
  assumes "growing h0 b0 h b t" and "nulterm s"
    and "\<And>v. nulterm v \<Longrightarrow> length v < length s \<Longrightarrow> spec h0 b0 (loop v) (call (h, b) v)"
  shows "spec h0 b0
    (read1 s (\<lambda>c s'. if c = k then Accept (node True (erase t)) s' else if c \<noteq> 0x2C then Reject
       else c_bind (skip_space s') (\<lambda>s. loop s)))
    (read1 s (\<lambda>c s'. if c = k then Inr (Some (addr t, s'), (h, b)) else if c \<noteq> 0x2C then hfailure (addr t) (h, b)
       else c_bind (skip_space s') (\<lambda>s. call (h, b) s)))"
  unfolding node_True
proof (intro spec_read1 spec_if spec_c_bind spec_failure [OF assms(1)] spec_done [OF assms(1) refl])
  fix c s' v
  assume *: "s = c # s'" "\<not> c \<noteq> 0x2C" "skip_space s' = Inr v"
  have "nulterm v" by (rule skip_space_nulterm [OF *(3)]) (use *(1,2) assms(2) in auto)
  moreover have "length v < length s" using reads_length [OF skip_space_reads [OF *(3)]] *(1) by simp
  ultimately show "spec h0 b0 (loop v) (call (h, b) v)" by (rule assms(3))
qed

text \<open>
  The common part of both loops, from the value on: \<open>add\<close> links the value to the container \<open>t\<close>, which
  becomes \<open>t'\<close>.
\<close>

lemma round_ok:
  assumes "spec h b (parse_value True s) q" and "growing h0 b0 h b t" and "nulterm s"
    and add: "\<And>w u m. new_value h b w u m \<Longrightarrow> \<exists>h2 t'. add (fst m) (Some (addr u)) = Inr h2
      \<and> growing h0 b0 h2 (snd m) t' \<and> addr t' = addr t \<and> erase t' = res (Some w)
      \<and> (\<forall>v. nulterm v \<longrightarrow> length v < length s \<longrightarrow> spec h0 b0 (loop (Some w) v) (call (h2, snd m) v))"
  shows "spec h0 b0
    (p_bind (parse_value True s) (\<lambda>e s. c_bind (skip_space s) (\<lambda>s. read1 s (\<lambda>c s'.
       if c = k then Accept (node True (res e)) s' else if c \<noteq> 0x2C then Reject
       else c_bind (skip_space s') (\<lambda>s. loop e s)))))
    (c_bind q (\<lambda>(r, m). case r of None \<Rightarrow> hfailure (addr t) m
     | Some (x, s) \<Rightarrow> c_bind (skip_space s) (\<lambda>s. c_bind (add (fst m) (Some x)) (\<lambda>h. read1 s (\<lambda>c s'.
         if c = k then Inr (Some (addr t, s'), (h, snd m))
         else if c \<noteq> 0x2C then hfailure (addr t) (h, snd m)
         else c_bind (skip_space s') (\<lambda>s. call (h, snd m) s))))))"
proof (rule spec_call [OF assms(1,2)], rule spec_c_bind)
  fix w r u m r2
  assume *: "parse_value True s = Accept (Some w) r" "new_value h b w u m" "skip_space r = Inr r2"
  have r2: "nulterm r2" by (rule skip_space_nulterm [OF *(3) parse_value_nulterm [OF *(1) assms(3)]])
  have len: "length r2 \<le> length s"
    using reads_length [OF skip_space_reads [OF *(3)]] reads_length [OF parsers_read(1) [OF *(1)]] by simp
  obtain h2 t' where h2: "add (fst m) (Some (addr u)) = Inr h2" "growing h0 b0 h2 (snd m) t'" "addr t' = addr t"
    "erase t' = res (Some w)"
    and step: "\<And>v. nulterm v \<Longrightarrow> length v < length s \<Longrightarrow> spec h0 b0 (loop (Some w) v) (call (h2, snd m) v)"
    using add [OF *(2)] by blast
  have next_round: "spec h0 b0 (loop (Some w) v) (call (h2, snd m) v)" if "nulterm v" "length v < length r2" for v
    by (rule step) (use that len in simp_all)
  show "spec h0 b0
    (read1 r2 (\<lambda>c s'. if c = k then Accept (node True (res (Some w))) s' else if c \<noteq> 0x2C then Reject
       else c_bind (skip_space s') (\<lambda>s. loop (Some w) s)))
    (c_bind (add (fst m) (Some (addr u))) (\<lambda>h. read1 r2 (\<lambda>c s'.
       if c = k then Inr (Some (addr t, s'), (h, snd m)) else if c \<noteq> 0x2C then hfailure (addr t) (h, snd m)
       else c_bind (skip_space s') (\<lambda>s. call (h, snd m) s))))"
    unfolding h2(1) c_bind_simps
    using after_value [where loop = "loop (Some w)" and call = call, OF h2(2) r2 next_round] by (simp only: h2(3,4))
qed

lemma array_loop_ok:
  assumes "ok_value n call" and "ok_loops n call" and "growing h0 b0 h b (Branch a False ts)"
    and "nulterm s" and "3 * length s + 3 \<le> n"
  shows "spec h0 b0 (array_loop True (map snd (erase_all ts)) s) (harray_loop call a (h, b) s)"
proof -
  have "spec h b (parse_value True s) (call Value (h, b) s)" using assms by (simp add: ok_value_def growing_def)
  then show ?thesis
    unfolding array_loop.simps [of _ _ s] harray_loop_def
  proof (rule round_ok [OF _ assms(3,4), unfolded addr.simps])
    fix w u m
    assume n: "new_value h b w u m"
    let ?t = "Branch a False (ts @ [(None, u)])"
    let ?es = "add_element (map snd (erase_all ts)) (Some w)"
    obtain h2 where h2: "hjson_append_element (fst m) (Some a) (Some (addr u)) = Inr h2" "growing h0 b0 h2 (snd m) ?t"
      by (rule element_added [OF assms(3) n])
    have es: "?es = map snd (erase_all (ts @ [(None, u)]))" using n by (simp add: new_value_def add_element_def)
    have "spec h0 b0 (array_loop True ?es v) (call (ArrayLoop a) (h2, snd m) v)"
      if "nulterm v" "length v < length s" for v
      unfolding es using assms(2,5) h2(2) that by (simp add: ok_loops_def del: erase_all_append)
    moreover have "erase ?t = JArray ?es" using es by simp
    ultimately show "\<exists>h2 t'. hjson_append_element (fst m) (Some a) (Some (addr u)) = Inr h2
        \<and> growing h0 b0 h2 (snd m) t' \<and> addr t' = a \<and> erase t' = JArray ?es
        \<and> (\<forall>v. nulterm v \<longrightarrow> length v < length s \<longrightarrow>
              spec h0 b0 (array_loop True ?es v) (call (ArrayLoop a) (h2, snd m) v))"
      using h2 by (intro exI [of _ h2] exI [of _ ?t]) simp
  qed
qed

lemma object_loop_ok:
  assumes "ok_value n call" and "ok_loops n call" and "growing h0 b0 h b (Branch a True ts)"
    and "nulterm s" and "3 * length s + 3 \<le> n"
  shows "spec h0 b0 (object_loop True (erase_all ts) s) (hobject_loop call a (h, b) s)"
proof -
  have fail: "spec h0 b0 Reject (hfailure a (h, b))" using spec_failure [OF assms(3)] by simp
  show ?thesis
    unfolding object_loop.simps [of _ _ s] hobject_loop_def
  proof (intro spec_or_else fail spec_c_bind spec_read1 spec_if, goal_cases)
    case (1 key s1 s2 c s3 s4)
    obtain k where k: "key = Some k" "no_nul k"
      using parse_string_ok(2) [OF assms(4) 1(1)] utf8_text_no_nul by auto
    have "nulterm s1" using 1(1) assms(4) parse_string_reads reads_nulterm by blast
    then have s4: "nulterm s4" using 1 by (auto dest!: skip_space_nulterm)
    have len: "length s4 \<le> length s"
      using reads_length [OF skip_space_reads [OF 1(5)]] reads_length [OF skip_space_reads [OF 1(2)]]
        reads_length [OF parse_string_reads [OF 1(1)]] 1(3) by simp
    have "spec h b (parse_value True s4) (call Value (h, b) s4)"
      using assms(1,3,5) s4 len by (simp add: ok_value_def growing_def)
    then show ?case
      unfolding k(1) option.case(2)
    proof (rule round_ok [OF _ assms(3) s4, unfolded addr.simps, where add = "\<lambda>h. append_member h (Some a) k"])
      fix w u m
      assume n: "new_value h b w u m"
      let ?t = "Branch a True (ts @ [(Some k, u)])"
      let ?ms = "add_member (erase_all ts) (Some k) (Some w)"
      obtain h2 where h2: "append_member (fst m) (Some a) k (Some (addr u)) = Inr h2" "growing h0 b0 h2 (snd m) ?t"
        by (rule member_added [OF assms(3) n k(2)])
      have ms: "?ms = erase_all (ts @ [(Some k, u)])" using n by (simp add: new_value_def add_member_def)
      have "spec h0 b0 (object_loop True ?ms v) (call (ObjectLoop a) (h2, snd m) v)"
        if "nulterm v" "length v < length s4" for v
        unfolding ms using assms(2,5) h2(2) len that by (simp add: ok_loops_def del: erase_all_append)
      moreover have "erase ?t = JObject ?ms" using ms by simp
      ultimately show "\<exists>h2 t'. append_member (fst m) (Some a) k (Some (addr u)) = Inr h2
          \<and> growing h0 b0 h2 (snd m) t' \<and> addr t' = a \<and> erase t' = JObject ?ms
          \<and> (\<forall>v. nulterm v \<longrightarrow> length v < length s4 \<longrightarrow>
                spec h0 b0 (object_loop True ?ms v) (call (ObjectLoop a) (h2, snd m) v))"
        using h2 by (intro exI [of _ h2] exI [of _ ?t]) simp
    qed
  qed
qed

section \<open>The whole parser\<close>

lemma hparse_ok: "ok_value n (hparse n) \<and> ok_containers n (hparse n) \<and> ok_loops n (hparse n)"
proof (induction n)
  case (Suc n)
  then have ih: "ok_value n (hparse n)" "ok_containers n (hparse n)" "ok_loops n (hparse n)" by auto
  show ?case
    using value_ok [OF ih(2)] array_ok [OF ih(3)] object_ok [OF ih(3)] array_loop_ok [OF ih(1,3)]
      object_loop_ok [OF ih(1,3)]
    by (simp add: ok_calls)
qed (simp add: ok_calls)

lemma new_growing: "new_value h b v t m \<Longrightarrow> fresh h b \<Longrightarrow> growing h b (fst m) (snd m) t"
  using new_fresh [of h b v t m] by (fastforce simp: growing_def new_value_def fresh_def)

text \<open>C12: \<open>json_decode\<close>, building linked nodes, implements the parser on values: on every C string it
  returns, with a standalone structure of new nodes for exactly the value that the text denotes, or
  with a null pointer and the memory as before, every node of a rejected text having been freed; no
  node that was there is changed.\<close>

theorem hjson_decode_builds:
  assumes "nulterm s" and "fresh h b" and "3 * length s + 3 \<le> fuel"
  shows "case json_decode s of Inl e \<Rightarrow> False
    | Inr None \<Rightarrow> \<exists>b' \<ge> b. hjson_decode fuel (h, b) s = Inr (None, (h, b'))
    | Inr (Some v) \<Rightarrow> \<exists>t m. hjson_decode fuel (h, b) s = Inr (Some (addr t), m) \<and> new_value h b v t m"
proof -
  obtain s1 where s1: "skip_space s = Inr s1" "nulterm s1" and ok: "result_ok True (parse_value True s1)"
    by (rule json_decode_cases [OF assms(1)])
  have "3 * length s1 + 3 \<le> fuel" using reads_length [OF skip_space_reads [OF s1(1)]] assms(3) by simp
  then have sp: "spec h b (parse_value True s1) (hparse fuel Value (h, b) s1)"
    using hparse_ok [of fuel] assms(2) s1(2) by (simp add: ok_value_def)
  show ?thesis
  proof (cases "parse_value True s1" rule: parse_cases)
    case (Fault e)
    then show ?thesis using ok by (simp add: result_ok_def)
  next
    case Reject
    then show ?thesis using sp by (auto simp: spec_def json_decode_def hjson_decode_def s1(1))
  next
    case (Accept v r)
    then obtain w t m where w: "v = Some w" "hparse fuel Value (h, b) s1 = Inr (Some (addr t, r), m)"
      "new_value h b w t m" using sp by (auto simp: spec_def)
    have "nulterm r" using Accept s1(2) by (rule parse_value_nulterm)
    then obtain r2 where r2: "skip_space r = Inr r2" "nulterm r2"
      using skip_space_returns skip_space_nulterm by (metis returnsE)
    then obtain c r3 where c: "r2 = c # r3" by (cases r2) auto
    obtain b' where b': "b \<le> b'" "hfailure (addr t) m = Inr (None, (h, b'))"
      using failure_ok [OF new_growing [OF w(3) assms(2)]] by auto
    show ?thesis
      using w b' by (auto simp: json_decode_def hjson_decode_def s1(1) Accept r2(1) c)
  qed
qed

theorem hjson_decode_builds_witness:
  "\<exists>t m. hjson_decode 60 (Map.empty, 0) (ascii ''{\"a\":[null]}'' @ [0]) = Inr (Some (addr t), m)
     \<and> new_value Map.empty 0 (JObject [(ascii ''a'', JArray [JNull])]) t m"
proof -
  have "json_decode (ascii ''{\"a\":[null]}'' @ [0]) = Inr (Some (JObject [(ascii ''a'', JArray [JNull])]))" by code_simp
  moreover have "nulterm (ascii ''{\"a\":[null]}'' @ [0])" by simp
  moreover have "fresh Map.empty 0" by (simp add: fresh_def)
  moreover have "3 * length (ascii ''{\"a\":[null]}'' @ [0]) + 3 \<le> (60 :: nat)" by (simp add: ascii_def)
  ultimately show ?thesis using hjson_decode_builds [of "ascii ''{\"a\":[null]}'' @ [0]" Map.empty 0 60] by simp
qed

end
