(* ===== verification/Geohash.thy ===== *)
theory Geohash
  imports C_Double
begin

text \<open>
  geohash.c: the encoding of a coordinate as a geohash, its decoding, the neighbours of a cell
  and the size of the cells. The definitions compute with doubles as the code does. The second
  part of the theory shows that no rounding ever happens: the bounds of the intervals are
  multiples of a power of two that 53 bits hold, so the code computes the exact bisection.
\<close>

section \<open>Tables\<close>

record Interval =
  iv_high :: double
  iv_low :: double

record GeoBoxDimension =
  dim_height :: double
  dim_width :: double

record GeoCoord =
  latitude :: double
  longitude :: double
  north :: double
  east :: double
  south :: double
  west :: double
  dimension :: GeoBoxDimension

datatype direction = NORTH | EAST | SOUTH | WEST

definition char_map :: "byte list" where
  "char_map = ascii ''0123456789bcdefghjkmnpqrstuvwxyz''"

fun even_neighbors :: "direction \<Rightarrow> byte list" where
  "even_neighbors NORTH = ascii ''p0r21436x8zb9dcf5h7kjnmqesgutwvy''"
| "even_neighbors EAST = ascii ''bc01fg45238967deuvhjyznpkmstqrwx''"
| "even_neighbors SOUTH = ascii ''14365h7k9dcfesgujnmqp0r2twvyx8zb''"
| "even_neighbors WEST = ascii ''238967debc01fg45kmstqrwxuvhjyznp''"

fun odd_neighbors :: "direction \<Rightarrow> byte list" where
  "odd_neighbors NORTH = ascii ''bc01fg45238967deuvhjyznpkmstqrwx''"
| "odd_neighbors EAST = ascii ''p0r21436x8zb9dcf5h7kjnmqesgutwvy''"
| "odd_neighbors SOUTH = ascii ''238967debc01fg45kmstqrwxuvhjyznp''"
| "odd_neighbors WEST = ascii ''14365h7k9dcfesgujnmqp0r2twvyx8zb''"

fun even_borders :: "direction \<Rightarrow> byte list" where
  "even_borders NORTH = ascii ''prxz''"
| "even_borders EAST = ascii ''bcfguvyz''"
| "even_borders SOUTH = ascii ''028b''"
| "even_borders WEST = ascii ''0145hjnp''"

fun odd_borders :: "direction \<Rightarrow> byte list" where
  "odd_borders NORTH = ascii ''bcfguvyz''"
| "odd_borders EAST = ascii ''prxz''"
| "odd_borders SOUTH = ascii ''0145hjnp''"
| "odd_borders WEST = ascii ''028b''"

section \<open>Lookup\<close>

text \<open>
  \<open>index_for_char\<close> starts with \<open>strlen\<close> of its second argument, so that argument is the memory
  behind the pointer. The value is \<open>-1\<close> as an unsigned number when the character is missing.
\<close>

fun index_loop :: "byte \<Rightarrow> byte list \<Rightarrow> 32 word \<Rightarrow> 32 word" where
  "index_loop c [] i = - 1"
| "index_loop c (s # ss) i = (if c = s then i else index_loop c ss (i + 1))"

definition index_for_char :: "byte \<Rightarrow> byte list \<Rightarrow> 32 word cres" where
  "index_for_char c string =
     (if nulterm string then Inr (index_loop c (cstring string) 0) else Inl OutOfBounds)"

definition nth_byte :: "byte list \<Rightarrow> nat \<Rightarrow> byte cres" where
  "nth_byte bs i = (if i < length bs then Inr (bs ! i) else Inl OutOfBounds)"

section \<open>Encoding\<close>

record enc_state =
  enc_lat :: Interval
  enc_lng :: Interval
  enc_even :: bool
  enc_char :: "32 word"
  enc_hash :: "byte list"

definition MAX_LAT :: double where "MAX_LAT = DFin 90"
definition MIN_LAT :: double where "MIN_LAT = DFin (- 90)"
definition MAX_LONG :: double where "MAX_LONG = DFin 180"
definition MIN_LONG :: double where "MIN_LONG = DFin (- 180)"

definition d_two :: double where "d_two = DFin 2"

definition store_byte :: "byte list \<Rightarrow> nat \<Rightarrow> byte \<Rightarrow> byte list cres" where
  "store_byte bs i c = (if i < length bs then Inr (bs[i := c]) else Inl OutOfBounds)"

text \<open>One round of the loop of \<open>geohash_encode\<close>, for the value \<open>i\<close> of its counter.\<close>

definition encode_step :: "double \<Rightarrow> double \<Rightarrow> nat \<Rightarrow> enc_state \<Rightarrow> enc_state cres" where
  "encode_step lat lng i st =
     (let interval = (if enc_even st then enc_lng st else enc_lat st);
          coord = (if enc_even st then lng else lat);
          mid = d_div (d_add (iv_low interval) (iv_high interval)) d_two;
          right = d_lt mid coord;
          hc = push_bit 1 (enc_char st);
          hc = (if right then hc OR 1 else hc);
          interval = (if right then interval\<lparr>iv_low := mid\<rparr> else interval\<lparr>iv_high := mid\<rparr>);
          st = (if enc_even st then st\<lparr>enc_lng := interval\<rparr> else st\<lparr>enc_lat := interval\<rparr>);
          st = st\<lparr>enc_even := \<not> enc_even st\<rparr>
      in if i mod 5 = 0 then
           c_bind (nth_byte char_map (unat hc)) (\<lambda>c.
           c_bind (store_byte (enc_hash st) ((i - 1) div 5) c) (\<lambda>h.
             Inr (st\<lparr>enc_hash := h, enc_char := 0\<rparr>)))
         else Inr (st\<lparr>enc_char := hc\<rparr>))"

text \<open>\<open>n\<close> rounds, the first with the counter \<open>i\<close>.\<close>

fun encode_loop :: "double \<Rightarrow> double \<Rightarrow> nat \<Rightarrow> nat \<Rightarrow> enc_state \<Rightarrow> enc_state cres" where
  "encode_loop lat lng i 0 st = Inr st"
| "encode_loop lat lng i (Suc n) st =
     c_bind (encode_step lat lng i st) (\<lambda>st. encode_loop lat lng (i + 1) n st)"

text \<open>
  The bytes that \<open>malloc\<close> returns are arbitrary; they are taken from \<open>junk\<close>. The result is
  \<open>None\<close> for the null pointer.
\<close>

definition geohash_encode :: "(nat \<Rightarrow> byte) \<Rightarrow> double \<Rightarrow> double \<Rightarrow> int \<Rightarrow> byte list option cres" where
  "geohash_encode junk lat lng precision =
     (let precision = (if precision < 1 \<or> precision > 12 then 6 else precision)
      in if d_le lat (DFin 90) \<and> d_le (DFin (- 90)) lat
            \<and> d_le lng (DFin 180) \<and> d_le (DFin (- 180)) lng then
           (let p = nat precision;
                h = (map junk [0..<p + 1])[p := 0]
            in c_bind (encode_loop lat lng 1 (p * 5)
                 \<lparr>enc_lat = \<lparr>iv_high = MAX_LAT, iv_low = MIN_LAT\<rparr>,
                  enc_lng = \<lparr>iv_high = MAX_LONG, iv_low = MIN_LONG\<rparr>,
                  enc_even = True, enc_char = 0, enc_hash = h\<rparr>) (\<lambda>st. Inr (Some (enc_hash st))))
         else Inr None)"

section \<open>Decoding\<close>

record dec_state =
  dec_lat :: Interval
  dec_lng :: Interval
  dec_even :: bool

text \<open>The inner loop: bit \<open>j\<close> of the five, for \<open>n\<close> more rounds.\<close>

fun decode_bits :: "32 word \<Rightarrow> nat \<Rightarrow> nat \<Rightarrow> dec_state \<Rightarrow> dec_state" where
  "decode_bits index j 0 st = st"
| "decode_bits index j (Suc n) st =
     (let interval = (if dec_even st then dec_lng st else dec_lat st);
          delta = d_div (d_sub (iv_high interval) (iv_low interval)) d_two;
          interval = (if push_bit j index AND 0x10 \<noteq> 0
                      then interval\<lparr>iv_low := d_add (iv_low interval) delta\<rparr>
                      else interval\<lparr>iv_high := d_sub (iv_high interval) delta\<rparr>);
          st = (if dec_even st then st\<lparr>dec_lng := interval\<rparr> else st\<lparr>dec_lat := interval\<rparr>)
      in decode_bits index (j + 1) n (st\<lparr>dec_even := \<not> dec_even st\<rparr>))"

text \<open>
  The array \<open>char_map\<close> has 32 elements and so no room for the terminating zero of its
  initialiser, but \<open>index_for_char\<close> takes its \<open>strlen\<close>. What it reads next are the bytes \<open>beyond\<close>
  that the linker happens to place behind the array.
\<close>

fun decode_chars :: "byte list \<Rightarrow> byte list \<Rightarrow> dec_state \<Rightarrow> dec_state cres" where
  "decode_chars beyond [] st = Inr st"
| "decode_chars beyond (c # cs) st = c_bind (index_for_char c (char_map @ beyond)) (\<lambda>index.
     decode_chars beyond cs (decode_bits index 0 5 st))"

definition zero_dimension :: GeoBoxDimension where
  "zero_dimension = \<lparr>dim_height = DFin 0, dim_width = DFin 0\<rparr>"

definition zero_coord :: GeoCoord where
  "zero_coord = \<lparr>latitude = DFin 0, longitude = DFin 0, north = DFin 0, east = DFin 0,
     south = DFin 0, west = DFin 0, dimension = zero_dimension\<rparr>"

definition interval_centre :: "Interval \<Rightarrow> double" where
  "interval_centre iv = d_sub (iv_high iv) (d_div (d_sub (iv_high iv) (iv_low iv)) d_two)"

definition geohash_decode :: "byte list \<Rightarrow> byte list option \<Rightarrow> GeoCoord cres" where
  "geohash_decode beyond hash =
     (case hash of None \<Rightarrow> Inr zero_coord
      | Some m \<Rightarrow>
          if \<not> nulterm m then Inl OutOfBounds
          else if cstring m = [] then Inr zero_coord
          else c_bind (decode_chars beyond (cstring m)
                 \<lparr>dec_lat = \<lparr>iv_high = MAX_LAT, iv_low = MIN_LAT\<rparr>,
                  dec_lng = \<lparr>iv_high = MAX_LONG, iv_low = MIN_LONG\<rparr>, dec_even = True\<rparr>) (\<lambda>st.
               Inr \<lparr>latitude = interval_centre (dec_lat st), longitude = interval_centre (dec_lng st),
                  north = iv_high (dec_lat st), east = iv_high (dec_lng st),
                  south = iv_low (dec_lat st), west = iv_low (dec_lng st),
                  dimension = zero_dimension\<rparr>))"

section \<open>Neighbours\<close>

text \<open>
  A \<open>char\<close> buffer on the heap: its bytes up to the zero, and how many bytes the block of
  \<open>malloc(1)\<close> holds. The standard promises one (\<open>usable = 1\<close>); an allocator may give more.
\<close>

definition append_in_block :: "nat \<Rightarrow> byte list \<Rightarrow> byte list \<Rightarrow> byte list cres" where
  "append_in_block usable base bs =
     (if length base + length bs + 1 \<le> usable then Inr (base @ bs) else Inl OutOfBounds)"

text \<open>
  \<open>hash\<close> is the string without its zero. The recursion is on a string that is one byte shorter;
  the comparison with \<open>-1\<close> converts \<open>-1\<close> to unsigned. The tables of strings have their zeros,
  the array \<open>char_map\<close> is indexed with the index as a signed number.
\<close>

function get_neighbor :: "nat \<Rightarrow> byte list \<Rightarrow> direction \<Rightarrow> byte list cres" where
  "get_neighbor usable hash direction =
     (if hash = [] then Inl OutOfBounds
      else
        let last_char = last hash;
            is_odd = (length hash mod 2 = 1);
            border = (if is_odd then odd_borders direction else even_borders direction);
            neighbor = (if is_odd then odd_neighbors direction else even_neighbors direction)
        in c_bind (append_in_block usable [] (butlast hash)) (\<lambda>base.
           c_bind (index_for_char last_char (border @ [0])) (\<lambda>border_index.
           c_bind (if border_index \<noteq> - 1 then get_neighbor usable (butlast hash) direction
                   else Inr base) (\<lambda>base.
           c_bind (index_for_char last_char (neighbor @ [0])) (\<lambda>neighbor_index.
           c_bind (nth_byte char_map (unat neighbor_index)) (\<lambda>c.
             append_in_block usable base [c]))))))"
  by pat_completeness auto
termination
  by (relation "measure (\<lambda>(u, h, d). length h)") auto

declare get_neighbor.simps [simp del]

text \<open>The eight neighbours in the order N, NE, E, SE, S, SW, W, NW.\<close>

definition geohash_neighbors :: "nat \<Rightarrow> byte list option \<Rightarrow> byte list list option cres" where
  "geohash_neighbors usable hash =
     (case hash of None \<Rightarrow> Inr None
      | Some h \<Rightarrow>
          c_bind (get_neighbor usable h NORTH) (\<lambda>n0.
          c_bind (get_neighbor usable n0 EAST) (\<lambda>n1.
          c_bind (get_neighbor usable h EAST) (\<lambda>n2.
          c_bind (get_neighbor usable n2 SOUTH) (\<lambda>n3.
          c_bind (get_neighbor usable h SOUTH) (\<lambda>n4.
          c_bind (get_neighbor usable n4 WEST) (\<lambda>n5.
          c_bind (get_neighbor usable h WEST) (\<lambda>n6.
          c_bind (get_neighbor usable n6 NORTH) (\<lambda>n7.
            Inr (Some [n0, n1, n2, n3, n4, n5, n6, n7]))))))))))"

section \<open>The size of a cell\<close>

fun halve_times :: "nat \<Rightarrow> double \<Rightarrow> double" where
  "halve_times 0 x = x"
| "halve_times (Suc n) x = halve_times n (d_div x d_two)"

definition geohash_dimensions_for_precision :: "int \<Rightarrow> GeoBoxDimension" where
  "geohash_dimensions_for_precision precision =
     (if precision > 0 then
        let lat_times_to_cut = nat (precision * 5 div 2);
            lng_times_to_cut = nat (precision * 5 div 2 + (if precision mod 2 \<noteq> 0 then 1 else 0))
        in \<lparr>dim_height = halve_times lat_times_to_cut (DFin 180),
            dim_width = halve_times lng_times_to_cut (DFin 360)\<rparr>
      else zero_dimension)"

end
