(* ===== verification/Geohash_Exact.thy ===== *)
theory Geohash_Exact
  imports Geohash
begin

text \<open>
  The meaning of a geohash. A hash is a list of bits, five per character, that bisect the
  longitudes and the latitudes in turn; a cell is a column and a row of the grid this makes of
  the earth. The lemmas show that the doubles of geohash.c hold exactly the corners of the cell.
\<close>

section \<open>Exact arithmetic on dyadic numbers\<close>

lemma representable_dyadic:
  assumes "\<bar>m\<bar> < 2 ^ 53" and "n \<le> 1074"
  shows "representable (of_int m / 2 ^ n)"
proof -
  have "of_int m / 2 ^ n = of_int m * pow_int 2 (- int n)"
    by (simp add: pow_int_def)
  then show ?thesis using assms unfolding representable_def by (intro exI [of _ m] exI [of _ "- int n"]) auto
qed

lemma d_add_exact: "representable (x + y) \<Longrightarrow> d_add (DFin x) (DFin y) = DFin (x + y)"
  by (simp add: round_double_exact)

lemma d_sub_exact: "representable (x - y) \<Longrightarrow> d_sub (DFin x) (DFin y) = DFin (x - y)"
  by (simp add: d_sub_def round_double_exact)

lemma d_half_exact: "representable (x / 2) \<Longrightarrow> d_div (DFin x) d_two = DFin (x / 2)"
  by (simp add: d_div_def d_two_def d_zero_def round_double_exact)

section \<open>The grid\<close>

text \<open>The border \<open>j\<close> of the \<open>2 ^ n\<close> parts of the range from \<open>- c\<close> to \<open>c\<close>.\<close>

definition grid :: "nat \<Rightarrow> nat \<Rightarrow> nat \<Rightarrow> rat" where
  "grid c n j = of_nat c * (2 * of_nat j / 2 ^ n - 1)"

lemma grid_double: "grid c (Suc n) (2 * j) = grid c n j"
  by (simp add: grid_def)

lemma grid_mid: "grid c (Suc n) (2 * j + 1) = (grid c n j + grid c n (j + 1)) / 2"
  by (simp add: grid_def field_simps)

lemma grid_width: "grid c n (j + 1) - grid c n j = 2 * of_nat c / 2 ^ n"
  by (simp add: grid_def field_simps)

lemma grid_mono: "0 < c \<Longrightarrow> grid c n i < grid c n j \<longleftrightarrow> i < j"
  by (simp add: grid_def divide_less_cancel)

lemma grid_int: "grid c n j = of_int (int c * (2 * int j - 2 ^ n)) / 2 ^ n"
  by (simp add: grid_def field_simps)

lemma grid_num:
  assumes "j \<le> 2 ^ n" and "n \<le> 31" and "c \<le> 180"
  shows "\<bar>int c * (2 * int j - 2 ^ n)\<bar> < 2 ^ 53"
proof -
  have "int j \<le> 2 ^ n" using assms(1) by (metis of_nat_le_iff of_nat_numeral of_nat_power)
  moreover have "(2 :: int) ^ n \<le> 2 ^ 31" using assms(2) by (intro power_increasing) auto
  ultimately have "\<bar>2 * int j - 2 ^ n\<bar> \<le> 2 ^ 31" by linarith
  then have "int c * \<bar>2 * int j - 2 ^ n\<bar> \<le> 180 * 2 ^ 31" using assms(3) by (intro mult_mono) auto
  then show ?thesis by (simp add: abs_mult)
qed

lemma grid_representable: "j \<le> 2 ^ n \<Longrightarrow> n \<le> 31 \<Longrightarrow> c \<le> 180 \<Longrightarrow> representable (grid c n j)"
  unfolding grid_int by (intro representable_dyadic grid_num) simp_all

text \<open>An interval of the code that is the part \<open>k\<close> of the grid.\<close>

definition on_grid :: "nat \<Rightarrow> nat \<times> nat \<Rightarrow> Interval \<Rightarrow> bool" where
  "on_grid c p iv \<longleftrightarrow> (case p of (n, k) \<Rightarrow> k < 2 ^ n
     \<and> iv_low iv = DFin (grid c n k) \<and> iv_high iv = DFin (grid c n (k + 1)))"

definition refine :: "bool \<Rightarrow> nat \<times> nat \<Rightarrow> nat \<times> nat" where
  "refine b p = (case p of (n, k) \<Rightarrow> (Suc n, 2 * k + of_bool b))"

text \<open>The two ways in which the code halves an interval.\<close>

definition mid_of :: "Interval \<Rightarrow> double" where
  "mid_of iv = d_div (d_add (iv_low iv) (iv_high iv)) d_two"

definition delta_of :: "Interval \<Rightarrow> double" where
  "delta_of iv = d_div (d_sub (iv_high iv) (iv_low iv)) d_two"

lemma mid_exact:
  assumes g: "on_grid c (n, k) iv" and n: "n \<le> 30" and c: "c \<le> 180"
  shows "mid_of iv = DFin (grid c (Suc n) (2 * k + 1))"
proof -
  have k: "k < 2 ^ n" and iv: "iv_low iv = DFin (grid c n k)" "iv_high iv = DFin (grid c n (k + 1))"
    using g by (simp_all add: on_grid_def)
  have m: "2 * k + 1 \<le> 2 ^ Suc n" using k by simp
  have r: "representable (grid c (Suc n) (2 * k + 1))" using m n c by (intro grid_representable) auto
  have sum: "grid c n k + grid c n (k + 1) = of_int (int c * (2 * int (2 * k + 1) - 2 ^ Suc n)) / 2 ^ n"
    by (simp add: grid_def field_simps)
  have "representable (grid c n k + grid c n (k + 1))"
    unfolding sum using n c m by (intro representable_dyadic grid_num) simp_all
  then have add: "d_add (iv_low iv) (iv_high iv) = DFin (grid c n k + grid c n (k + 1))"
    unfolding iv by (rule d_add_exact)
  have "d_div (DFin (grid c n k + grid c n (k + 1))) d_two = DFin ((grid c n k + grid c n (k + 1)) / 2)"
    by (rule d_half_exact) (use r in \<open>simp only: grid_mid\<close>)
  then show ?thesis by (simp only: mid_of_def add grid_mid)
qed

lemma delta_exact:
  assumes g: "on_grid c (n, k) iv" and n: "n \<le> 30" and c: "c \<le> 180"
  shows "delta_of iv = DFin (of_nat c / 2 ^ n)"
proof -
  have iv: "iv_low iv = DFin (grid c n k)" "iv_high iv = DFin (grid c n (k + 1))"
    using g by (simp_all add: on_grid_def)
  have "representable (2 * of_nat c / 2 ^ n)" "representable (of_nat c / 2 ^ n)"
    using representable_dyadic [of "2 * int c" n] representable_dyadic [of "int c" n] n c by auto
  then show ?thesis
    using grid_width [of c n k] by (simp add: delta_of_def iv d_sub_exact d_half_exact)
qed

lemma on_grid_half:
  assumes "on_grid c (n, k) iv"
  shows "on_grid c (refine True (n, k)) (iv\<lparr>iv_low := DFin (grid c (Suc n) (2 * k + 1))\<rparr>)"
    and "on_grid c (refine False (n, k)) (iv\<lparr>iv_high := DFin (grid c (Suc n) (2 * k + 1))\<rparr>)"
  using assms grid_double [of c n k] grid_double [of c n "k + 1"]
  by (auto simp: on_grid_def refine_def)

lemma low_plus_delta:
  assumes g: "on_grid c (n, k) iv" and n: "n \<le> 30" and c: "c \<le> 180"
  shows "d_add (iv_low iv) (delta_of iv) = DFin (grid c (Suc n) (2 * k + 1))"
    and "d_sub (iv_high iv) (delta_of iv) = DFin (grid c (Suc n) (2 * k + 1))"
proof -
  have k: "k < 2 ^ n" and iv: "iv_low iv = DFin (grid c n k)" "iv_high iv = DFin (grid c n (k + 1))"
    using g by (simp_all add: on_grid_def)
  have r: "representable (grid c (Suc n) (2 * k + 1))" using k n c by (intro grid_representable) auto
  have "grid c n k + of_nat c / 2 ^ n = grid c (Suc n) (2 * k + 1)"
    "grid c n (k + 1) - of_nat c / 2 ^ n = grid c (Suc n) (2 * k + 1)"
    by (simp_all add: grid_def field_simps)
  with r show "d_add (iv_low iv) (delta_of iv) = DFin (grid c (Suc n) (2 * k + 1))"
    and "d_sub (iv_high iv) (delta_of iv) = DFin (grid c (Suc n) (2 * k + 1))"
    by (simp_all add: iv delta_exact [OF assms] d_add_exact d_sub_exact del: d_add.simps)
qed

section \<open>Bits and cells\<close>

text \<open>The five bits of a character, first the most significant, and the bits of a hash.\<close>

definition char_index :: "byte \<Rightarrow> nat" where
  "char_index c = length (takeWhile (\<lambda>x. x \<noteq> c) char_map)"

definition five_bits :: "nat \<Rightarrow> bool list" where
  "five_bits i = map (\<lambda>j. bit i (4 - j)) [0..<5]"

definition hash_bits :: "byte list \<Rightarrow> bool list" where
  "hash_bits h = concat (map (five_bits \<circ> char_index) h)"

definition valid_hash :: "byte list \<Rightarrow> bool" where
  "valid_hash h \<longleftrightarrow> h \<noteq> [] \<and> length h \<le> 12 \<and> set h \<subseteq> set char_map"

text \<open>
  A cell: whether the next bit halves the longitudes, the column and the row with the number
  of bits they have.
\<close>

type_synonym cell = "bool \<times> (nat \<times> nat) \<times> (nat \<times> nat)"

definition step_cell :: "cell \<Rightarrow> bool \<Rightarrow> cell" where
  "step_cell s b = (case s of (e, g, t) \<Rightarrow> (\<not> e, if e then refine b g else g, if e then t else refine b t))"

definition world :: cell where "world = (True, (0, 0), (0, 0))"

definition cell_of :: "bool list \<Rightarrow> cell" where
  "cell_of bs = foldl step_cell world bs"

definition balanced :: "cell \<Rightarrow> bool" where
  "balanced s \<longleftrightarrow> (case s of (e, (ng, kg), (nt, kt)) \<Rightarrow> ng = nt + of_bool (\<not> e))"

definition depth :: "cell \<Rightarrow> nat" where
  "depth s = (case s of (e, (ng, kg), (nt, kt)) \<Rightarrow> ng + nt)"

lemma step_cell_balanced: "balanced s \<Longrightarrow> balanced (step_cell s b)"
  by (auto simp: balanced_def step_cell_def refine_def split: prod.splits)

lemma step_cell_depth: "depth (step_cell s b) = depth s + 1"
  by (auto simp: depth_def step_cell_def refine_def split: prod.splits)

lemma cell_of_snoc [simp]: "cell_of (bs @ [b]) = step_cell (cell_of bs) b"
  by (simp add: cell_of_def)

lemma cell_of_Nil [simp]: "cell_of [] = world"
  by (simp add: cell_of_def)

lemma cell_of_balanced: "balanced (cell_of bs) \<and> depth (cell_of bs) = length bs"
proof (induction bs rule: rev_induct)
  case (snoc b bs)
  then show ?case by (simp add: step_cell_balanced step_cell_depth)
qed (simp add: world_def balanced_def depth_def)

section \<open>Decoding\<close>

definition dec_on :: "cell \<Rightarrow> dec_state \<Rightarrow> bool" where
  "dec_on s st \<longleftrightarrow> (case s of (e, g, t) \<Rightarrow> dec_even st = e \<and> on_grid 180 g (dec_lng st)
     \<and> on_grid 90 t (dec_lat st))"

lemma decode_bits_step:
  assumes "dec_on s st" and "balanced s" and "depth s < 60"
    and "(push_bit j index AND 0x10 \<noteq> 0) = b"
  shows "\<exists>st'. decode_bits index j (Suc n) st = decode_bits index (j + 1) n st' \<and> dec_on (step_cell s b) st'"
proof -
  obtain e ng kg nt kt where s: "s = (e, (ng, kg), (nt, kt))" by (cases s) auto
  have n: "e \<Longrightarrow> ng \<le> 30" "\<not> e \<Longrightarrow> nt \<le> 30"
    using assms(2,3) by (auto simp: s balanced_def depth_def)
  have on: "dec_even st = e" "on_grid 180 (ng, kg) (dec_lng st)" "on_grid 90 (nt, kt) (dec_lat st)"
    using assms(1) by (simp_all add: s dec_on_def)
  let ?iv = "if e then dec_lng st else dec_lat st"
  let ?new = "if b then ?iv\<lparr>iv_low := d_add (iv_low ?iv) (delta_of ?iv)\<rparr>
              else ?iv\<lparr>iv_high := d_sub (iv_high ?iv) (delta_of ?iv)\<rparr>"
  let ?st = "(if e then st\<lparr>dec_lng := ?new\<rparr> else st\<lparr>dec_lat := ?new\<rparr>)\<lparr>dec_even := \<not> e\<rparr>"
  have "decode_bits index j (Suc n) st = decode_bits index (j + 1) n ?st"
    using assms(4) on(1) by (auto simp: Let_def delta_of_def)
  moreover have "dec_on (step_cell s b) ?st"
  proof (cases e)
    case True
    then show ?thesis
      using on(2,3) low_plus_delta [OF on(2)] n(1) on_grid_half [OF on(2)]
      by (cases b) (auto simp: s dec_on_def step_cell_def)
  next
    case False
    then show ?thesis
      using on(2,3) low_plus_delta [OF on(3)] n(2) on_grid_half [OF on(3)]
      by (cases b) (auto simp: s dec_on_def step_cell_def)
  qed
  ultimately show ?thesis by blast
qed

lemma decode_bits_cell:
  assumes "dec_on s st" and "balanced s" and "depth s + length bs \<le> 60"
    and "\<forall>q < length bs. (push_bit (j + q) index AND 0x10 \<noteq> 0) = bs ! q"
  shows "dec_on (foldl step_cell s bs) (decode_bits index j (length bs) st)"
  using assms
proof (induction bs arbitrary: s st j)
  case (Cons b bs)
  have b: "(push_bit j index AND 0x10 \<noteq> 0) = b" using Cons.prems(4) by force
  obtain st' where st': "decode_bits index j (Suc (length bs)) st = decode_bits index (j + 1) (length bs) st'"
    "dec_on (step_cell s b) st'"
    using decode_bits_step [OF Cons.prems(1,2) _ b] Cons.prems(3) by auto
  have "dec_on (foldl step_cell (step_cell s b) bs) (decode_bits index (j + 1) (length bs) st')"
  proof (rule Cons.IH [OF st'(2)])
    show "balanced (step_cell s b)" using Cons.prems(2) by (rule step_cell_balanced)
    show "depth (step_cell s b) + length bs \<le> 60" using Cons.prems(3) by (simp add: step_cell_depth)
    show "\<forall>q < length bs. (push_bit (j + 1 + q) index AND 0x10 \<noteq> 0) = bs ! q"
    proof (intro allI impI)
      fix q assume "q < length bs"
      then show "(push_bit (j + 1 + q) index AND 0x10 \<noteq> 0) = bs ! q"
        using Cons.prems(4) [rule_format, of "Suc q"] by simp
    qed
  qed
  then show ?case using st'(1) by simp
qed simp

lemma bit_from_push: "j \<le> 4 \<Longrightarrow> push_bit j (w :: 32 word) AND 0x10 \<noteq> 0 \<longleftrightarrow> bit w (4 - j)"
  using and_exp_eq_0_iff_not_bit [of "push_bit j w" 4] by (auto simp: bit_simps)

lemma five_bits_word:
  "q < 5 \<Longrightarrow> (push_bit q (of_nat i :: 32 word) AND 0x10 \<noteq> 0) = five_bits i ! q"
  by (auto simp: bit_from_push five_bits_def bit_simps)

lemma five_bits_length [simp]: "length (five_bits i) = 5"
  by (simp add: five_bits_def)

lemma index_loop_In: "c \<in> set s \<Longrightarrow> index_loop c s i = i + of_nat (length (takeWhile (\<lambda>x. x \<noteq> c) s))"
  by (induction s arbitrary: i) auto

lemma char_map_no_nul [simp]: "no_nul char_map"
  by code_simp

lemma char_map_length [simp]: "length char_map = 32"
  by code_simp

lemma char_map_distinct: "distinct char_map"
  by code_simp

lemma cstring_append: "no_nul s \<Longrightarrow> cstring (s @ t) = s @ cstring t"
  by (induction s) (auto simp: cstring_def)

lemma index_for_char_map:
  assumes "c \<in> set char_map" and "nulterm beyond"
  shows "index_for_char c (char_map @ beyond) = Inr (of_nat (char_index c))"
  using assms by (simp add: index_for_char_def cstring_append index_loop_In char_index_def)

lemma decode_chars_cell:
  assumes "nulterm beyond" and "set h \<subseteq> set char_map" and "dec_on s st" and "balanced s"
    and "depth s + 5 * length h \<le> 60"
  shows "\<exists>st'. decode_chars beyond h st = Inr st' \<and> dec_on (foldl step_cell s (hash_bits h)) st'"
  using assms(2-)
proof (induction h arbitrary: s st)
  case (Cons c h)
  let ?bs = "five_bits (char_index c)"
  let ?st = "decode_bits (of_nat (char_index c)) 0 5 st"
  have "dec_on (foldl step_cell s ?bs) (decode_bits (of_nat (char_index c)) 0 (length ?bs) st)"
    using Cons.prems by (intro decode_bits_cell) (auto simp: five_bits_word)
  then have on: "dec_on (foldl step_cell s ?bs) ?st" by simp
  have b: "balanced (foldl step_cell s bs) \<and> depth (foldl step_cell s bs) = depth s + length bs" for bs
    using Cons.prems(3) by (induction bs rule: rev_induct) (simp_all add: step_cell_balanced step_cell_depth)
  have "\<exists>st'. decode_chars beyond h ?st = Inr st' \<and>
      dec_on (foldl step_cell (foldl step_cell s ?bs) (hash_bits h)) st'"
    using Cons.prems on b [of ?bs] by (intro Cons.IH) auto
  then show ?case
    using Cons.prems(1) assms(1) by (simp add: index_for_char_map hash_bits_def)
qed (simp add: hash_bits_def)

section \<open>Encoding\<close>

text \<open>The part of the grid a number lies in: the borders belong to the part below them.\<close>

definition in_part :: "nat \<Rightarrow> nat \<times> nat \<Rightarrow> rat \<Rightarrow> bool" where
  "in_part c p x \<longleftrightarrow> (case p of (n, k) \<Rightarrow>
     (k = 0 \<or> grid c n k < x) \<and> - of_nat c \<le> x \<and> x \<le> grid c n (k + 1))"

definition in_cell :: "cell \<Rightarrow> rat \<Rightarrow> rat \<Rightarrow> bool" where
  "in_cell s lat lng \<longleftrightarrow> (case s of (e, g, t) \<Rightarrow> in_part 180 g lng \<and> in_part 90 t lat)"

lemma in_part_refine:
  "in_part c (n, k) x \<Longrightarrow> in_part c (refine (grid c (Suc n) (2 * k + 1) < x) (n, k)) x"
  using grid_double [of c n k] grid_double [of c n "k + 1"] by (auto simp: in_part_def refine_def)

lemma in_part_parent:
  assumes "0 < c" and "in_part c (refine b (n, k)) x"
  shows "in_part c (n, k) x"
proof -
  have "grid c (Suc n) (2 * k) < grid c (Suc n) (2 * k + 1)"
    "grid c (Suc n) (2 * k + 1) < grid c (Suc n) (2 * (k + 1))"
    using assms(1) by (simp_all add: grid_mono)
  then show ?thesis
    using assms(2) grid_double [of c n k] grid_double [of c n "k + 1"]
    by (cases b) (auto simp: in_part_def refine_def)
qed

lemma in_part_unique:
  assumes "0 < c" and "in_part c (n, k) x" and "in_part c (n, k') x"
  shows "k = k'"
proof -
  have "\<not> i < j" if "in_part c (n, i) x" "in_part c (n, j) x" for i j
  proof
    assume "i < j"
    with that have "grid c n j < grid c n (i + 1)" by (auto simp: in_part_def)
    then have "j < i + 1" using assms(1) by (simp add: grid_mono)
    with \<open>i < j\<close> show False by simp
  qed
  from this [OF assms(2,3)] this [OF assms(3,2)] show ?thesis by simp
qed

lemma in_cell_parent: "in_cell (step_cell s b) lat lng \<Longrightarrow> in_cell s lat lng"
  by (auto simp: in_cell_def step_cell_def split: prod.splits if_splits dest: in_part_parent [rotated])

lemma in_cell_unique:
  "length bs = length bs' \<Longrightarrow> in_cell (cell_of bs) lat lng \<Longrightarrow> in_cell (cell_of bs') lat lng \<Longrightarrow> bs = bs'"
proof (induction bs arbitrary: bs' rule: rev_induct)
  case (snoc b bs)
  then obtain b' cs where bs': "bs' = cs @ [b']" by (metis append_is_Nil_conv length_0_conv rev_exhaust snoc_eq_iff_butlast)
  with snoc.prems have "length bs = length cs" "in_cell (cell_of bs) lat lng" "in_cell (cell_of cs) lat lng"
    by (auto dest: in_cell_parent)
  then have eq: "bs = cs" by (rule snoc.IH)
  obtain e ng kg nt kt where s: "cell_of bs = (e, (ng, kg), (nt, kt))" by (cases "cell_of bs") auto
  have "of_bool b = (of_bool b' :: nat)"
  proof (cases e)
    case True
    with snoc.prems(2,3) have "in_part 180 (Suc ng, 2 * kg + of_bool b) lng" "in_part 180 (Suc ng, 2 * kg + of_bool b') lng"
      by (cases b; cases b'; simp add: bs' s step_cell_def in_cell_def refine_def flip: eq)+
    then have "2 * kg + of_bool b = 2 * kg + of_bool b'" by (intro in_part_unique) simp_all
    then show ?thesis by simp
  next
    case False
    with snoc.prems(2,3) have "in_part 90 (Suc nt, 2 * kt + of_bool b) lat" "in_part 90 (Suc nt, 2 * kt + of_bool b') lat"
      by (cases b; cases b'; simp add: bs' s step_cell_def in_cell_def refine_def flip: eq)+
    then have "2 * kt + of_bool b = 2 * kt + of_bool b'" by (intro in_part_unique) simp_all
    then show ?thesis by simp
  qed
  then have "b = b'" by (cases b; cases b') simp_all
  with eq bs' show ?case by simp
qed simp

text \<open>The number that a list of bits stands for.\<close>

definition bits_value :: "bool list \<Rightarrow> nat" where
  "bits_value bs = foldl (\<lambda>v b. 2 * v + of_bool b) 0 bs"

lemma bits_value_snoc [simp]: "bits_value (bs @ [b]) = 2 * bits_value bs + of_bool b"
  by (simp add: bits_value_def)

lemma bits_value_less: "bits_value bs < 2 ^ length bs"
  by (induction bs rule: rev_induct) (auto simp: bits_value_def)

lemma five_bits_value:
  assumes "length bs = 5" shows "five_bits (bits_value bs) = bs"
proof -
  have "list_all (\<lambda>bs. five_bits (bits_value bs) = bs) (List.n_lists 5 [False, True])" by code_simp
  moreover have "bs \<in> set (List.n_lists 5 [False, True])" using assms by (auto simp: set_n_lists)
  ultimately show ?thesis by (simp only: list_all_iff)
qed

lemma char_index_nth: "i < 32 \<Longrightarrow> char_index (char_map ! i) = i"
proof -
  have "list_all (\<lambda>i. char_index (char_map ! i) = i) [0..<32]" by code_simp
  then show "i < 32 \<Longrightarrow> ?thesis" by (simp add: list_all_iff)
qed

lemma d_lt_finite: "finite_value d = Some x \<Longrightarrow> d_lt (DFin m) d \<longleftrightarrow> m < x"
  by (cases d) (auto simp: d_lt_def)

definition enc_on :: "bool list \<Rightarrow> rat \<Rightarrow> rat \<Rightarrow> nat \<Rightarrow> enc_state \<Rightarrow> bool" where
  "enc_on bs lat lng p st \<longleftrightarrow> (case cell_of bs of (e, g, t) \<Rightarrow> enc_even st = e
     \<and> on_grid 180 g (enc_lng st) \<and> on_grid 90 t (enc_lat st) \<and> in_part 180 g lng \<and> in_part 90 t lat)
   \<and> (\<exists>h r rest. bs = hash_bits h @ r \<and> length r < 5 \<and> set h \<subseteq> set char_map
     \<and> enc_hash st = h @ rest @ [0] \<and> length h + length rest = p \<and> enc_char st = of_nat (bits_value r))"

lemma hash_bits_length [simp]: "length (hash_bits h) = 5 * length h"
  by (induction h) (simp_all add: hash_bits_def)

lemma next_char: "(if b then push_bit 1 (of_nat v) OR 1 else push_bit 1 (of_nat v) :: 32 word)
    = of_nat (2 * v + of_bool b)"
  by (simp add: push_bit_eq_mult or_one_eq)

lemma half_step:
  assumes "on_grid c (n, k) iv" and "n \<le> 30" and "c \<le> 180" and "in_part c (n, k) v"
    and "finite_value coord = Some v"
  shows "d_lt (mid_of iv) coord = (grid c (Suc n) (2 * k + 1) < v)"
    and "on_grid c (refine (d_lt (mid_of iv) coord) (n, k))
      (if d_lt (mid_of iv) coord then iv\<lparr>iv_low := mid_of iv\<rparr> else iv\<lparr>iv_high := mid_of iv\<rparr>)"
    and "in_part c (refine (d_lt (mid_of iv) coord) (n, k)) v"
proof -
  note mid = mid_exact [OF assms(1-3)]
  show right: "d_lt (mid_of iv) coord = (grid c (Suc n) (2 * k + 1) < v)"
    unfolding mid using assms(5) by (rule d_lt_finite)
  show "on_grid c (refine (d_lt (mid_of iv) coord) (n, k))
      (if d_lt (mid_of iv) coord then iv\<lparr>iv_low := mid_of iv\<rparr> else iv\<lparr>iv_high := mid_of iv\<rparr>)"
    using on_grid_half [OF assms(1)] by (cases "d_lt (mid_of iv) coord") (simp_all add: mid)
  show "in_part c (refine (d_lt (mid_of iv) coord) (n, k)) v"
    unfolding right using assms(4) by (rule in_part_refine)
qed

text \<open>What the step does to the hash, once the bit is known.\<close>

definition put_bit :: "nat \<Rightarrow> bool \<Rightarrow> enc_state \<Rightarrow> enc_state cres" where
  "put_bit i b st =
     (let hc = (if b then push_bit 1 (enc_char st) OR 1 else push_bit 1 (enc_char st))
      in if i mod 5 = 0 then
           c_bind (nth_byte char_map (unat hc)) (\<lambda>c.
           c_bind (store_byte (enc_hash st) ((i - 1) div 5) c) (\<lambda>h.
             Inr (st\<lparr>enc_hash := h, enc_char := 0\<rparr>)))
         else Inr (st\<lparr>enc_char := hc\<rparr>))"

lemma encode_step_split:
  "encode_step lat lng i st =
     (let iv = (if enc_even st then enc_lng st else enc_lat st);
          b = d_lt (mid_of iv) (if enc_even st then lng else lat);
          iv = (if b then iv\<lparr>iv_low := mid_of iv\<rparr> else iv\<lparr>iv_high := mid_of iv\<rparr>);
          st = (if enc_even st then st\<lparr>enc_lng := iv\<rparr> else st\<lparr>enc_lat := iv\<rparr>)
      in put_bit i b (st\<lparr>enc_even := \<not> enc_even st\<rparr>))"
  by (simp add: encode_step_def put_bit_def mid_of_def Let_def)

definition hash_on :: "bool list \<Rightarrow> nat \<Rightarrow> enc_state \<Rightarrow> bool" where
  "hash_on bs p st \<longleftrightarrow> (\<exists>h r rest. bs = hash_bits h @ r \<and> length r < 5 \<and> set h \<subseteq> set char_map
     \<and> enc_hash st = h @ rest @ [0] \<and> length h + length rest = p \<and> enc_char st = of_nat (bits_value r))"

lemma hash_bits_snoc: "hash_bits (h @ [c]) = hash_bits h @ five_bits (char_index c)"
  by (simp add: hash_bits_def)

lemma put_bit_on:
  assumes "hash_on bs p st" and "length bs < 5 * p"
  shows "\<exists>st'. put_bit (length bs + 1) b st = Inr st' \<and> hash_on (bs @ [b]) p st'
    \<and> enc_even st' = enc_even st \<and> enc_lat st' = enc_lat st \<and> enc_lng st' = enc_lng st"
proof -
  obtain h r rest where h: "bs = hash_bits h @ r" "length r < 5" "set h \<subseteq> set char_map"
    "enc_hash st = h @ rest @ [0]" "length h + length rest = p" "enc_char st = of_nat (bits_value r)"
    using assms(1) unfolding hash_on_def by blast
  have hc: "(if b then push_bit 1 (enc_char st) OR 1 else push_bit 1 (enc_char st)) = of_nat (bits_value (r @ [b]))"
    using next_char [of b "bits_value r"] by (simp only: h(6) bits_value_snoc)
  have len: "length bs = 5 * length h + length r" by (simp add: h(1))
  show ?thesis
  proof (cases "length r = 4")
    case False
    with len h(2) have "(length bs + 1) mod 5 \<noteq> 0" by presburger
    then have "put_bit (length bs + 1) b st = Inr (st\<lparr>enc_char := of_nat (bits_value (r @ [b]))\<rparr>)"
      by (simp only: put_bit_def hc Let_def if_False)
    moreover have "hash_on (bs @ [b]) p (st\<lparr>enc_char := of_nat (bits_value (r @ [b]))\<rparr>)"
      unfolding hash_on_def using h False
      by (intro exI [of _ h] exI [of _ "r @ [b]"] exI [of _ rest]) auto
    ultimately show ?thesis by simp
  next
    case True
    let ?v = "bits_value (r @ [b])"
    let ?c = "char_map ! ?v"
    have v: "?v < 32" using bits_value_less [of "r @ [b]"] True by simp
    then have u: "unat (of_nat ?v :: 32 word) = ?v"
      by (simp only: unat_of_nat) (simp del: bits_value_snoc)
    obtain x rest' where rest: "rest = x # rest'" using h(5) len assms(2) True by (cases rest) auto
    have m: "(length bs + 1) mod 5 = 0" "(length bs + 1 - 1) div 5 = length h"
      using len True by presburger+
    have store: "store_byte (enc_hash st) (length h) ?c = Inr ((h @ [?c]) @ rest' @ [0])"
      by (simp add: store_byte_def h(4) rest)
    have "put_bit (length bs + 1) b st = Inr (st\<lparr>enc_hash := (h @ [?c]) @ rest' @ [0], enc_char := 0\<rparr>)"
      using v by (simp only: put_bit_def hc Let_def m if_True nth_byte_def u char_map_length
        c_bind_simps store simp_thms)
    moreover have "hash_on (bs @ [b]) p (st\<lparr>enc_hash := (h @ [?c]) @ rest' @ [0], enc_char := 0\<rparr>)"
      unfolding hash_on_def
    proof (intro exI conjI)
      show "bs @ [b] = hash_bits (h @ [?c]) @ []"
        using True five_bits_value [of "r @ [b]"] v by (simp add: hash_bits_snoc char_index_nth h(1))
      show "set (h @ [?c]) \<subseteq> set char_map" using h(3) v by simp
    qed (use h(5) rest in \<open>simp_all add: bits_value_def\<close>)
    ultimately show ?thesis by simp
  qed
qed

definition cell_on :: "cell \<Rightarrow> rat \<Rightarrow> rat \<Rightarrow> enc_state \<Rightarrow> bool" where
  "cell_on s lat lng st \<longleftrightarrow> (case s of (e, g, t) \<Rightarrow> enc_even st = e
     \<and> on_grid 180 g (enc_lng st) \<and> on_grid 90 t (enc_lat st) \<and> in_part 180 g lng \<and> in_part 90 t lat)"

lemma encode_step_on:
  assumes "cell_on (cell_of bs) y x st" and "hash_on bs p st"
    and "finite_value lat = Some y" and "finite_value lng = Some x"
    and "length bs < 5 * p" and "p \<le> 12"
  shows "\<exists>st' b. encode_step lat lng (length bs + 1) st = Inr st'
    \<and> cell_on (cell_of (bs @ [b])) y x st' \<and> hash_on (bs @ [b]) p st'"
proof -
  obtain e ng kg nt kt where s: "cell_of bs = (e, (ng, kg), (nt, kt))" by (cases "cell_of bs") auto
  have n: "e \<Longrightarrow> ng \<le> 30" "\<not> e \<Longrightarrow> nt \<le> 30"
    using cell_of_balanced [of bs] assms(5,6) by (auto simp: s balanced_def depth_def)
  have on: "enc_even st = e" "on_grid 180 (ng, kg) (enc_lng st)" "on_grid 90 (nt, kt) (enc_lat st)"
    "in_part 180 (ng, kg) x" "in_part 90 (nt, kt) y"
    using assms(1) by (simp_all add: s cell_on_def)
  let ?iv = "if e then enc_lng st else enc_lat st"
  let ?b = "d_lt (mid_of ?iv) (if e then lng else lat)"
  let ?new = "if ?b then ?iv\<lparr>iv_low := mid_of ?iv\<rparr> else ?iv\<lparr>iv_high := mid_of ?iv\<rparr>"
  let ?st = "(if e then st\<lparr>enc_lng := ?new\<rparr> else st\<lparr>enc_lat := ?new\<rparr>)\<lparr>enc_even := \<not> e\<rparr>"
  have "hash_on bs p ?st" using assms(2) by (simp add: hash_on_def)
  then obtain st' where st': "put_bit (length bs + 1) ?b ?st = Inr st'" "hash_on (bs @ [?b]) p st'"
    "enc_even st' = enc_even ?st" "enc_lat st' = enc_lat ?st" "enc_lng st' = enc_lng ?st"
    using put_bit_on [OF _ assms(5)] by blast
  have "encode_step lat lng (length bs + 1) st = Inr st'"
    using st'(1) on(1) by (auto simp: encode_step_split Let_def split: if_splits)
  moreover have "cell_on (cell_of (bs @ [?b])) y x st'"
  proof (cases e)
    case True
    then show ?thesis
      using on half_step(2,3) [OF on(2) _ _ on(4) assms(4)] n(1) st'(3-5)
      by (auto simp: s cell_on_def step_cell_def)
  next
    case False
    then show ?thesis
      using on half_step(2,3) [OF on(3) _ _ on(5) assms(3)] n(2) st'(3-5)
      by (auto simp: s cell_on_def step_cell_def)
  qed
  ultimately show ?thesis using st'(2) by blast
qed

lemma encode_loop_on:
  assumes "finite_value lat = Some y" and "finite_value lng = Some x" and "p \<le> 12"
  shows "cell_on (cell_of bs) y x st \<Longrightarrow> hash_on bs p st \<Longrightarrow> length bs + n = 5 * p \<Longrightarrow>
    \<exists>st' bs'. encode_loop lat lng (length bs + 1) n st = Inr st'
    \<and> length bs' = 5 * p \<and> cell_on (cell_of bs') y x st' \<and> hash_on bs' p st'"
proof (induction n arbitrary: bs st)
  case 0
  then show ?case by auto
next
  case (Suc n)
  then have "length bs < 5 * p" by simp
  from encode_step_on [OF Suc.prems(1,2) assms(1,2) this assms(3)] obtain st1 b where
    st1: "encode_step lat lng (length bs + 1) st = Inr st1"
    "cell_on (cell_of (bs @ [b])) y x st1" "hash_on (bs @ [b]) p st1" by blast
  from Suc.IH [OF st1(2,3)] Suc.prems(3) obtain st' bs' where
    "encode_loop lat lng (length (bs @ [b]) + 1) n st1 = Inr st'" "length bs' = 5 * p"
    "cell_on (cell_of bs') y x st'" "hash_on bs' p st'" by auto
  then show ?case using st1(1) by auto
qed

section \<open>Whole hashes\<close>

definition clamp_precision :: "int \<Rightarrow> nat" where
  "clamp_precision precision = (if precision < 1 \<or> precision > 12 then 6 else nat precision)"

lemma clamp_range: "1 \<le> clamp_precision p" "clamp_precision p \<le> 12"
  by (auto simp: clamp_precision_def)

text \<open>The coordinates that are accepted: numbers in range, so neither infinities nor NaN.\<close>

definition in_range :: "double \<Rightarrow> rat \<Rightarrow> rat \<Rightarrow> bool" where
  "in_range d c v \<longleftrightarrow> finite_value d = Some v \<and> - c \<le> v \<and> v \<le> c"

lemma range_iff: "d_le d (DFin c) \<and> d_le (DFin (- c)) d \<longleftrightarrow> (\<exists>v. in_range d c v)"
proof (cases d)
  case (DInf n)
  then show ?thesis by (cases n) (auto simp: in_range_def)
qed (auto simp: in_range_def)

lemma initial_on_grid:
  "on_grid 90 (0, 0) \<lparr>iv_high = MAX_LAT, iv_low = MIN_LAT\<rparr>"
  "on_grid 180 (0, 0) \<lparr>iv_high = MAX_LONG, iv_low = MIN_LONG\<rparr>"
  by (simp_all add: on_grid_def grid_def MAX_LAT_def MIN_LAT_def MAX_LONG_def MIN_LONG_def)

lemma encode_in_range:
  assumes lat: "in_range lat 90 y" and lng: "in_range lng 180 x"
  shows "\<exists>h. geohash_encode junk lat lng precision = Inr (Some (h @ [0]))
    \<and> length h = clamp_precision precision \<and> set h \<subseteq> set char_map \<and> in_cell (cell_of (hash_bits h)) y x"
proof -
  define p where "p = clamp_precision precision"
  have p: "p \<le> 12" using clamp_range by (simp add: p_def)
  let ?h = "(map junk [0..<p + 1])[p := 0]"
  have h: "?h = map junk [0..<p] @ [0]" by (simp add: list_update_append)
  let ?st = "\<lparr>enc_lat = \<lparr>iv_high = MAX_LAT, iv_low = MIN_LAT\<rparr>,
     enc_lng = \<lparr>iv_high = MAX_LONG, iv_low = MIN_LONG\<rparr>, enc_even = True, enc_char = 0, enc_hash = ?h\<rparr>"
  have "cell_on (cell_of []) y x ?st"
    using lat lng by (simp add: cell_on_def world_def initial_on_grid in_part_def in_range_def grid_def)
  moreover have "hash_on [] p ?st"
    unfolding hash_on_def enc_state.simps h
    by (intro exI [of _ "[]"] exI [of _ "map junk [0..<p]"]) (simp add: hash_bits_def bits_value_def)
  ultimately obtain st' bs where st': "encode_loop lat lng 1 (p * 5) ?st = Inr st'"
    "length bs = 5 * p" "cell_on (cell_of bs) y x st'" "hash_on bs p st'"
    using encode_loop_on [of lat y lng x p "[]" ?st "p * 5"] lat lng p by (auto simp: in_range_def)
  obtain h r rest where r: "bs = hash_bits h @ r" "length r < 5" "set h \<subseteq> set char_map"
    "enc_hash st' = h @ rest @ [0]" "length h + length rest = p"
    using st'(4) unfolding hash_on_def by blast
  have "5 * length h + length r = 5 * p" using st'(2) r(1) by simp
  with r(2,5) have "length h = p" "r = []" "rest = []" by auto
  moreover have "nat (if precision < 1 \<or> 12 < precision then 6 else precision) = p"
    by (simp add: p_def clamp_precision_def)
  then have "geohash_encode junk lat lng precision = c_bind (encode_loop lat lng 1 (p * 5) ?st) (\<lambda>st. Inr (Some (enc_hash st)))"
    using range_iff [of lat 90] range_iff [of lng 180] lat lng
    by (auto simp: geohash_encode_def Let_def)
  ultimately show ?thesis
    using st'(1,3) r by (auto simp: p_def in_cell_def cell_on_def split: prod.splits)
qed

lemma encode_out_of_range:
  "\<not> ((\<exists>y. in_range lat 90 y) \<and> (\<exists>x. in_range lng 180 x)) \<Longrightarrow> geohash_encode junk lat lng precision = Inr None"
  using range_iff [of lat 90] range_iff [of lng 180] by (auto simp: geohash_encode_def Let_def)

definition box_of :: "cell \<Rightarrow> GeoCoord" where
  "box_of s = (case s of (e, (ng, kg), (nt, kt)) \<Rightarrow>
     \<lparr>latitude = DFin (grid 90 (Suc nt) (2 * kt + 1)), longitude = DFin (grid 180 (Suc ng) (2 * kg + 1)),
      north = DFin (grid 90 nt (kt + 1)), east = DFin (grid 180 ng (kg + 1)),
      south = DFin (grid 90 nt kt), west = DFin (grid 180 ng kg), dimension = zero_dimension\<rparr>)"

lemma decode_box:
  assumes "valid_hash h" and "nulterm beyond"
  shows "geohash_decode beyond (Some (h @ 0 # t)) = Inr (box_of (cell_of (hash_bits h)))"
proof -
  have v: "h \<noteq> []" "length h \<le> 12" "set h \<subseteq> set char_map" using assms(1) by (auto simp: valid_hash_def)
  have "no_nul h" using v(3) char_map_no_nul by (auto simp: no_nul_def)
  then have c: "cstring (h @ 0 # t) = h" by simp
  let ?st = "\<lparr>dec_lat = \<lparr>iv_high = MAX_LAT, iv_low = MIN_LAT\<rparr>,
     dec_lng = \<lparr>iv_high = MAX_LONG, iv_low = MIN_LONG\<rparr>, dec_even = True\<rparr>"
  have "dec_on world ?st" by (simp add: dec_on_def world_def initial_on_grid)
  moreover have "balanced world \<and> depth world = 0" by (simp add: world_def balanced_def depth_def)
  ultimately obtain st where st: "decode_chars beyond h ?st = Inr st" "dec_on (cell_of (hash_bits h)) st"
    using decode_chars_cell [OF assms(2) v(3), of world ?st] v(2) by (auto simp: cell_of_def)
  obtain e ng kg nt kt where s: "cell_of (hash_bits h) = (e, (ng, kg), (nt, kt))"
    by (cases "cell_of (hash_bits h)") auto
  have n: "ng \<le> 30" "nt \<le> 30"
    using cell_of_balanced [of "hash_bits h"] v(2) by (auto simp: s balanced_def depth_def split: if_splits)
  have on: "on_grid 180 (ng, kg) (dec_lng st)" "on_grid 90 (nt, kt) (dec_lat st)"
    using st(2) by (simp_all add: s dec_on_def)
  have centre: "interval_centre iv = d_sub (iv_high iv) (delta_of iv)" for iv
    by (simp add: interval_centre_def delta_of_def)
  have "interval_centre (dec_lng st) = DFin (grid 180 (Suc ng) (2 * kg + 1))"
    "interval_centre (dec_lat st) = DFin (grid 90 (Suc nt) (2 * kt + 1))"
    unfolding centre using low_plus_delta(2) [OF on(1) n(1)] low_plus_delta(2) [OF on(2) n(2)] by simp_all
  then show ?thesis
    using on v(1) by (simp add: geohash_decode_def c st(1) s box_of_def on_grid_def)
qed

lemma cell_counts:
  assumes "cell_of (hash_bits h) = (e, (ng, kg), (nt, kt))"
  shows "nt = 5 * length h div 2" and "ng = 5 * length h div 2 + length h mod 2"
proof -
  have n: "ng = nt + of_bool (\<not> e)" and "ng + nt = 5 * length h"
    using cell_of_balanced [of "hash_bits h"] assms by (simp_all add: balanced_def depth_def)
  then have sum: "5 * length h = 2 * nt + of_bool (\<not> e)" by simp
  then show nt: "nt = 5 * length h div 2" by (cases e) simp_all
  have "length h mod 2 = 5 * length h mod 2" by presburger
  also have "\<dots> = of_bool (\<not> e)" unfolding sum by (cases e) simp_all
  finally show "ng = 5 * length h div 2 + length h mod 2" using n nt by simp
qed

lemma halve_times_exact:
  "\<bar>m\<bar> < 2 ^ 53 \<Longrightarrow> n + k \<le> 1074 \<Longrightarrow> halve_times n (DFin (of_int m / 2 ^ k)) = DFin (of_int m / 2 ^ (n + k))"
proof (induction n arbitrary: k)
  case (Suc n)
  have "d_div (DFin (of_int m / 2 ^ k)) d_two = DFin (of_int m / 2 ^ Suc k)"
    using d_half_exact [of "of_int m / 2 ^ k"] representable_dyadic [of m "Suc k"] Suc.prems by (simp add: field_simps)
  then show ?case using Suc.IH [of "Suc k"] Suc.prems by simp
qed simp

lemma dimensions_exact:
  assumes "1 \<le> p" and "p \<le> 12"
  shows "geohash_dimensions_for_precision (int p) =
    \<lparr>dim_height = DFin (180 / 2 ^ (5 * p div 2)), dim_width = DFin (360 / 2 ^ (5 * p div 2 + p mod 2))\<rparr>"
proof -
  have "int p * 5 div 2 = int (5 * p div 2)" by (simp add: zdiv_int mult.commute)
  moreover have "(if int p mod 2 \<noteq> 0 then 1 else 0) = int (p mod 2)" by (cases "even p") presburger+
  ultimately have "nat (int p * 5 div 2) = 5 * p div 2"
    "nat (int p * 5 div 2 + (if int p mod 2 \<noteq> 0 then 1 else 0)) = 5 * p div 2 + p mod 2"
    by (simp_all only: nat_int flip: of_nat_add)
  moreover have "5 * p div 2 + p mod 2 \<le> 1074" using assms(2) by presburger
  ultimately show ?thesis
    using assms halve_times_exact [of 180 "5 * p div 2" 0] halve_times_exact [of 360 "5 * p div 2 + p mod 2" 0]
    by (simp add: geohash_dimensions_for_precision_def Let_def)
qed

text \<open>Where a character is missing, \<open>index_for_char\<close> gives \<open>-1\<close>, whose last five bits are those of \<open>z\<close>.\<close>

lemma index_loop_missing: "c \<notin> set s \<Longrightarrow> index_loop c s i = - 1"
  by (induction s arbitrary: i) auto

lemma decode_bits_cong:
  "(\<And>q. j \<le> q \<Longrightarrow> q < j + n \<Longrightarrow> (push_bit q a AND 0x10 \<noteq> 0) = (push_bit q b AND 0x10 \<noteq> 0)) \<Longrightarrow>
   decode_bits a j n st = decode_bits b j n st"
proof (induction n arbitrary: j st)
  case (Suc n)
  have "decode_bits a (j + 1) n st' = decode_bits b (j + 1) n st'" for st'
    by (rule Suc.IH) (rule Suc.prems; simp)
  moreover have "(push_bit j a AND 0x10 \<noteq> 0) = (push_bit j b AND 0x10 \<noteq> 0)" by (rule Suc.prems) simp_all
  ultimately show ?case by (simp only: decode_bits.simps Let_def)
qed simp

lemma minus_one_is_z: "decode_bits (- 1) 0 5 st = decode_bits 31 0 5 st"
proof (rule decode_bits_cong)
  fix q :: nat
  assume "q < 0 + 5"
  moreover have "list_all (\<lambda>q. push_bit q (- 1 :: 32 word) AND 0x10 \<noteq> 0 \<and> push_bit q (31 :: 32 word) AND 0x10 \<noteq> 0) [0..<5]"
    by code_simp
  ultimately show "(push_bit q (- 1 :: 32 word) AND 0x10 \<noteq> 0) = (push_bit q (31 :: 32 word) AND 0x10 \<noteq> 0)"
    by (simp add: list_all_iff)
qed

definition to_valid :: "byte \<Rightarrow> byte" where
  "to_valid c = (if c \<in> set char_map then c else 0x7A)"

lemma z_char: "0x7A \<in> set char_map" "char_index 0x7A = 31"
  by code_simp+

lemma decode_chars_to_valid:
  assumes "nulterm beyond"
  shows "\<forall>c \<in> set h. c \<in> set char_map \<or> c \<notin> set (cstring beyond) \<Longrightarrow>
    decode_chars beyond h st = decode_chars beyond (map to_valid h) st"
proof (induction h arbitrary: st)
  case (Cons c h)
  have "c_bind (index_for_char c (char_map @ beyond)) (\<lambda>i. decode_chars beyond (map to_valid h) (decode_bits i 0 5 st))
      = c_bind (index_for_char (to_valid c) (char_map @ beyond)) (\<lambda>i. decode_chars beyond (map to_valid h) (decode_bits i 0 5 st))"
  proof (cases "c \<in> set char_map")
    case False
    with Cons.prems have "c \<notin> set (cstring (char_map @ beyond))" by (simp add: cstring_append)
    then have "index_for_char c (char_map @ beyond) = Inr (- 1)"
      using assms by (simp add: index_for_char_def index_loop_missing)
    moreover have "index_for_char (to_valid c) (char_map @ beyond) = Inr 31"
      using False z_char index_for_char_map [OF z_char(1) assms] by (simp add: to_valid_def)
    ultimately show ?thesis by (simp add: minus_one_is_z)
  qed (simp add: to_valid_def)
  then show ?case using Cons by simp
qed simp

lemma cell_index_bounds: "case cell_of bs of (e, (ng, kg), (nt, kt)) \<Rightarrow> kg < 2 ^ ng \<and> kt < 2 ^ nt"
proof (induction bs rule: rev_induct)
  case (snoc b bs)
  have "2 * k + of_bool c < 2 * 2 ^ n" if "k < 2 ^ n" for k n :: nat and c
    using that by (cases c) auto
  with snoc show ?case by (auto simp: step_cell_def refine_def split: prod.splits)
qed (simp add: world_def)

lemma grid_inner:
  assumes "k < 2 ^ n" and "0 < c"
  shows "grid c n k < grid c (Suc n) (2 * k + 1)" and "grid c (Suc n) (2 * k + 1) < grid c n (k + 1)"
    and "- of_nat c \<le> grid c (Suc n) (2 * k + 1)" and "grid c (Suc n) (2 * k + 1) \<le> of_nat c"
proof -
  show lo: "grid c n k < grid c (Suc n) (2 * k + 1)" and hi: "grid c (Suc n) (2 * k + 1) < grid c n (k + 1)"
  proof -
    have "grid c (Suc n) (2 * k) < grid c (Suc n) (2 * k + 1)"
      "grid c (Suc n) (2 * k + 1) < grid c (Suc n) (2 * (k + 1))"
      using assms(2) by (simp_all add: grid_mono)
    then show "grid c n k < grid c (Suc n) (2 * k + 1)" "grid c (Suc n) (2 * k + 1) < grid c n (k + 1)"
      by (simp_all only: grid_double)
  qed
  have "grid c n 0 \<le> grid c n k" "grid c n (k + 1) \<le> grid c n (2 ^ n)"
    using assms grid_mono [of c n k 0] grid_mono [of c n "2 ^ n" "k + 1"] by (auto simp: not_less [symmetric])
  with lo hi show "- of_nat c \<le> grid c (Suc n) (2 * k + 1)" "grid c (Suc n) (2 * k + 1) \<le> of_nat c"
    by (simp_all add: grid_def [of c n 0] grid_def [of c n "2 ^ n"])
qed

lemma char_map_nth_index:
  assumes "c \<in> set char_map"
  shows "char_map ! char_index c = c" and "char_index c < 32"
proof -
  obtain xs ys where s: "char_map = xs @ c # ys" "c \<notin> set xs" using split_list_first [OF assms] by blast
  have "takeWhile (\<lambda>x. x \<noteq> c) (xs @ c # ys) = xs" using s(2) by (induction xs) auto
  then have i: "char_index c = length xs" by (simp add: char_index_def s(1))
  show "char_map ! char_index c = c" unfolding i s(1) by simp
  have "length xs < length char_map" unfolding s(1) by simp
  then show "char_index c < 32" by (simp add: i)
qed

lemma value_five_bits: "i < 32 \<Longrightarrow> bits_value (five_bits i) = i"
proof -
  have "list_all (\<lambda>i. bits_value (five_bits i) = i) [0..<32]" by code_simp
  then show "i < 32 \<Longrightarrow> ?thesis" by (simp add: list_all_iff)
qed

lemma five_bits_char_inject:
  assumes "five_bits (char_index c) = five_bits (char_index d)" and "c \<in> set char_map" and "d \<in> set char_map"
  shows "c = d"
  using assms value_five_bits char_map_nth_index by metis

lemma hash_bits_inject:
  "length h = length h' \<Longrightarrow> set h \<subseteq> set char_map \<Longrightarrow> set h' \<subseteq> set char_map \<Longrightarrow> hash_bits h = hash_bits h' \<Longrightarrow> h = h'"
  by (induction h h' rule: list_induct2) (auto simp: hash_bits_def dest: five_bits_char_inject)

section \<open>What the callers rely on\<close>




text \<open>C28: encoding the centre of a decoded hash, with the length of the hash as precision, gives
  the hash back; so no two hashes of a length share a cell.\<close>

theorem geohash_encode_decode:
  assumes "valid_hash h" and "nulterm beyond"
  shows "\<exists>g. geohash_decode beyond (Some (h @ 0 # t)) = Inr g \<and>
    geohash_encode junk (latitude g) (longitude g) (int (length h)) = Inr (Some (h @ [0]))"
proof -
  let ?s = "cell_of (hash_bits h)"
  have v: "1 \<le> length h" "length h \<le> 12" using assms(1) by (auto simp: valid_hash_def Suc_le_eq)
  obtain e ng kg nt kt where s: "?s = (e, (ng, kg), (nt, kt))" by (cases ?s) auto
  have k: "kg < 2 ^ ng" "kt < 2 ^ nt"
    using cell_index_bounds [of "hash_bits h"] by (simp_all add: s)
  define y where "y = grid 90 (Suc nt) (2 * kt + 1)"
  define x where "x = grid 180 (Suc ng) (2 * kg + 1)"
  have y: "grid 90 nt kt < y" "y < grid 90 nt (kt + 1)" "- 90 \<le> y" "y \<le> 90"
    and x: "grid 180 ng kg < x" "x < grid 180 ng (kg + 1)" "- 180 \<le> x" "x \<le> 180"
    using grid_inner [OF k(2), of 90] grid_inner [OF k(1), of 180] by (simp_all add: x_def y_def)
  have inside: "in_cell ?s y x" using x y by (simp add: s in_cell_def in_part_def)
  have r: "in_range (DFin y) 90 y" "in_range (DFin x) 180 x" using x y by (simp_all add: in_range_def)
  have p: "clamp_precision (int (length h)) = length h" using v by (cases h) (auto simp: clamp_precision_def)
  from encode_in_range [OF r, of junk "int (length h)"] obtain h' where
    h': "geohash_encode junk (DFin y) (DFin x) (int (length h)) = Inr (Some (h' @ [0]))"
    "length h' = length h" "set h' \<subseteq> set char_map" "in_cell (cell_of (hash_bits h')) y x"
    unfolding p by blast
  have "hash_bits h' = hash_bits h" using h'(2,4) inside by (intro in_cell_unique) simp_all
  then have "h' = h" using h'(2,3) assms(1) by (intro hash_bits_inject) (auto simp: valid_hash_def)
  then show ?thesis
    using h'(1) decode_box [OF assms] by (simp add: s box_of_def x_def y_def)
qed

theorem geohash_encode_decode_witness:
  "\<exists>g. geohash_decode [0] (Some (ascii ''u0dm'' @ 0 # [])) = Inr g \<and>
    geohash_encode (\<lambda>_. 0) (latitude g) (longitude g) (int (length (ascii ''u0dm''))) = Inr (Some (ascii ''u0dm'' @ [0]))"
proof (rule geohash_encode_decode)
  show "valid_hash (ascii ''u0dm'')" by code_simp
qed simp

text \<open>\<open>geohash_decode\<close> has no error: a character outside the alphabet is read as \<open>z\<close>, unless
  it happens to occur in the memory behind \<open>char_map\<close>. (The check of the code is commented out, an
  unsigned index is never negative.)\<close>

theorem geohash_decode_unknown_char:
  assumes "no_nul h" and "nulterm beyond"
    and "\<forall>c \<in> set h. c \<in> set char_map \<or> c \<notin> set (cstring beyond)"
  shows "geohash_decode beyond (Some (h @ [0])) = geohash_decode beyond (Some (map to_valid h @ [0]))"
proof -
  have "no_nul (map to_valid h)"
    using assms(1) char_map_no_nul by (auto simp: no_nul_def to_valid_def)
  then show ?thesis
    using assms(1) decode_chars_to_valid [OF assms(2,3)] by (simp add: geohash_decode_def)
qed

theorem geohash_decode_unknown_char_witness:
  "geohash_decode [0] (Some (ascii ''u0!'' @ [0])) = geohash_decode [0] (Some (map to_valid (ascii ''u0!'') @ [0]))
   \<and> map to_valid (ascii ''u0!'') = ascii ''u0z''"
proof
  show "geohash_decode [0] (Some (ascii ''u0!'' @ [0])) = geohash_decode [0] (Some (map to_valid (ascii ''u0!'') @ [0]))"
    by (rule geohash_decode_unknown_char) (code_simp, simp, simp add: cstring_def)
  show "map to_valid (ascii ''u0!'') = ascii ''u0z''" by code_simp
qed

text \<open>C40: two undefined behaviours. Every call of \<open>get_neighbor\<close> writes behind the one byte that
  \<open>malloc(1)\<close> promises (or, for the empty string, reads before its start); and
  \<open>geohash_decode\<close> of any non-empty string takes the \<open>strlen\<close> of an array without a zero, so that
  it leaves the array.\<close>

theorem geohash_overruns:
  "get_neighbor 1 h direction = Inl OutOfBounds \<and> geohash_neighbors 1 (Some h) = Inl OutOfBounds
   \<and> (if cstring m = [] then True else geohash_decode [] (Some m) = Inl OutOfBounds)"
proof -
  have n: "get_neighbor 1 h d = Inl OutOfBounds" for h d
  proof -
    have empty: "get_neighbor 1 [] d = Inl OutOfBounds" by (simp add: get_neighbor.simps)
    consider "h = []" | c where "h = [c]" | a b t where "h = a # b # t"
      by (cases h; cases "tl h") auto
    then show ?thesis
    proof cases
      case (2 c)
      then show ?thesis
        by (subst get_neighbor.simps)
          (auto simp: 2 Let_def append_in_block_def index_for_char_def nth_byte_def empty
            simp del: One_nat_def)
    next
      case (3 a b t)
      then show ?thesis by (subst get_neighbor.simps) (simp add: Let_def append_in_block_def)
    qed (simp add: empty del: One_nat_def)
  qed
  have "\<not> nulterm char_map" by code_simp
  then have "index_for_char c (char_map @ []) = Inl OutOfBounds" for c by (simp add: index_for_char_def)
  then have "geohash_decode [] (Some m) = Inl OutOfBounds" if "cstring m \<noteq> []"
    using that by (cases "cstring m") (auto simp: geohash_decode_def)
  with n show ?thesis by (simp add: geohash_neighbors_def)
qed

end
