(* ===== verification/Geo.thy ===== *)
theory Geo
  imports Json_Roundtrip
begin

text \<open>
  geo.c: the reverse geocoding of a point by one of two web services. libcurl is not part of the
  program: the parameter \<open>perform\<close> is \<open>curl_easy_perform\<close> on a handle whose options the code has
  set; it gets the URL and the state \<open>'n\<close> of the network and answers with the chunks it passes
  to the write callback, its result code and the HTTP status.

  The code writes into UT_strings of its caller, here the record \<open>geo_bufs\<close>, and into two static
  ones, here in \<open>geo_state\<close> with the network.
\<close>

section \<open>State\<close>

record geo_bufs =
  g_addr :: utstring
  g_rawdata :: utstring
  g_locality :: utstring
  g_cc :: utstring
  g_tzname :: utstring

record curl_reply =
  curl_chunks :: "byte list list"
  curl_res :: int
  curl_http_code :: int

type_synonym 'n curl = "byte list \<Rightarrow> 'n \<Rightarrow> curl_reply \<times> 'n"

record 'n geo_state =
  url_buf :: "utstring option"
  curl_buf :: "utstring option"
  network :: 'n

definition CURLE_OK :: int where "CURLE_OK = 0"

section \<open>Decoding the answers\<close>

text \<open>\<open>elsize\<close> and \<open>nmemb\<close> are of 64 bits, their product wraps around.\<close>

definition writemem :: "byte list \<Rightarrow> 64 word \<Rightarrow> 64 word \<Rightarrow> utstring \<Rightarrow> (64 word \<times> utstring) cres" where
  "writemem contents elsize nmemb userp =
     (let realsize = elsize * nmemb
      in if length contents < unat realsize then Inl OutOfBounds
         else c_bind (utstring_bincpy userp (take (unat realsize) contents)) (\<lambda>b. Inr (realsize, b)))"

text \<open>\<open>if ((j != NULL) && (j->tag == JSON_STRING)) utstring_printf(buf, "%s", j->string_);\<close>\<close>

definition print_member :: "utstring \<Rightarrow> json option \<Rightarrow> utstring cres" where
  "print_member buf j = (case j of Some (JString s) \<Rightarrow> utstring_printf buf s | _ \<Rightarrow> Inr buf)"

fun print_upper :: "utstring \<Rightarrow> byte list \<Rightarrow> utstring cres" where
  "print_upper cc [] = Inr cc"
| "print_upper cc (bp # rest) =
     (let ch = (if islower bp then toupper bp else bp)
      in c_bind (utstring_printf cc [ch]) (\<lambda>cc. print_upper cc rest))"

definition print_country_code :: "utstring \<Rightarrow> json option \<Rightarrow> utstring cres" where
  "print_country_code cc j = (case j of Some (JString s) \<Rightarrow> print_upper cc s | _ \<Rightarrow> Inr cc)"

text \<open>\<open>country_code\<close> and \<open>city\<close> of the object that holds them.\<close>

definition print_place :: "geo_bufs \<Rightarrow> json option \<Rightarrow> geo_bufs cres" where
  "print_place g j =
     (if j = None then Inr g
      else c_bind (print_country_code (g_cc g) (json_find_member j (ascii ''country_code''))) (\<lambda>cc.
           c_bind (print_member (g_locality g) (json_find_member j (ascii ''city''))) (\<lambda>loc.
             Inr (g\<lparr>g_cc := cc, g_locality := loc\<rparr>))))"

definition locationiq_decode :: "utstring \<Rightarrow> geo_bufs \<Rightarrow> (bool \<times> geo_bufs) cres" where
  "locationiq_decode geodata g =
     c_bind (utstring_clear (g_rawdata g)) (\<lambda>raw.
     c_bind (json_decode (utstring_body geodata)) (\<lambda>json.
       let g = g\<lparr>g_rawdata := raw\<rparr>
       in if json = None then Inr (False, g)
          else c_bind (print_member (g_addr g) (json_find_member json (ascii ''display_name''))) (\<lambda>addr.
               c_bind (print_place (g\<lparr>g_addr := addr\<rparr>) (json_find_member json (ascii ''address''))) (\<lambda>g.
                 Inr (True, g)))))"

text \<open>The name of the time zone is printed without a look at the tag of its node.\<close>

definition print_unchecked :: "utstring \<Rightarrow> json option \<Rightarrow> utstring cres" where
  "print_unchecked buf j = (case j of None \<Rightarrow> Inr buf | Some (JString s) \<Rightarrow> utstring_printf buf s
     | Some _ \<Rightarrow> Inl BadPointer)"

definition opencage_results :: "geo_bufs \<Rightarrow> json \<Rightarrow> geo_bufs cres" where
  "opencage_results g results =
     c_bind (json_stringify results None) (\<lambda>js.
     c_bind (utstring_printf (g_rawdata g) js) (\<lambda>raw.
     let zeroth = json_find_element (Some results) 0
     in c_bind (if zeroth \<noteq> None then print_member (g_addr g) (json_find_member zeroth (ascii ''formatted''))
                else Inr (g_addr g)) (\<lambda>addr.
        let annotations = json_find_member zeroth (ascii ''annotations'');
            timezone = json_find_member annotations (ascii ''timezone'')
        in c_bind (if annotations \<noteq> None \<and> timezone \<noteq> None
                   then print_unchecked (g_tzname g) (json_find_member timezone (ascii ''name''))
                   else Inr (g_tzname g)) (\<lambda>tz.
           print_place (g\<lparr>g_rawdata := raw, g_addr := addr, g_tzname := tz\<rparr>)
             (json_find_member zeroth (ascii ''components''))))))"

definition opencage_decode :: "utstring \<Rightarrow> geo_bufs \<Rightarrow> (bool \<times> geo_bufs) cres" where
  "opencage_decode geodata g =
     c_bind (utstring_clear (g_rawdata g)) (\<lambda>raw.
     c_bind (json_decode (utstring_body geodata)) (\<lambda>json.
       let g = g\<lparr>g_rawdata := raw\<rparr>
       in if json = None then Inr (False, g)
          else (case json_find_member json (ascii ''results'') of
                  None \<Rightarrow> Inr (True, g)
                | Some results \<Rightarrow> c_bind (opencage_results g results) (\<lambda>g. Inr (True, g)))))"

section \<open>Fetching\<close>

fun write_chunks :: "byte list list \<Rightarrow> utstring \<Rightarrow> utstring cres" where
  "write_chunks [] buf = Inr buf"
| "write_chunks (c # cs) buf =
     c_bind (writemem c 1 (of_nat (length c)) buf) (\<lambda>(_, buf). write_chunks cs buf)"

definition http_get :: "'n curl \<Rightarrow> byte list \<Rightarrow> utstring \<Rightarrow> 'n \<Rightarrow> ((bool \<times> utstring) \<times> 'n) cres" where
  "http_get perform url buf n =
     (case perform url n of (reply, n) \<Rightarrow>
        c_bind (write_chunks (curl_chunks reply) buf) (\<lambda>buf.
          if curl_res reply \<noteq> CURLE_OK \<or> curl_http_code reply \<noteq> 200 then Inr ((False, buf), n)
          else Inr ((True, buf), n)))"

definition opencage_url :: "byte list \<Rightarrow> double \<Rightarrow> double \<Rightarrow> byte list" where
  "opencage_url apikey lat lon =
     ascii ''https://api.opencagedata.com/geocode/v1/json?q='' @ fmt_lf lat @ ascii ''+'' @ fmt_lf lon
     @ ascii ''&key='' @ apikey @ ascii ''&abbrv=1&no_record=1&limit=1&format=json''"

definition locationiq_url :: "byte list \<Rightarrow> double \<Rightarrow> double \<Rightarrow> byte list" where
  "locationiq_url apikey lat lon =
     ascii ''https://eu1.locationiq.com/v1/reverse?key='' @ apikey @ ascii ''&lat='' @ fmt_lf lat
     @ ascii ''&lon='' @ fmt_lf lon @ ascii ''&normalize_address=1&normalizecity=1&format=json''"

definition revgeo_getdata ::
  "'n curl \<Rightarrow> byte list \<Rightarrow> byte list \<Rightarrow> double \<Rightarrow> double \<Rightarrow> geo_bufs \<Rightarrow> 'n geo_state
     \<Rightarrow> ((bool \<times> geo_bufs) \<times> 'n geo_state) cres" where
  "revgeo_getdata perform apikey api_provider lat lon g st =
     (if d_eq lat (DFin 0) \<and> d_eq lon (DFin 0) then
        c_bind (utstring_printf (g_addr g)
            (ascii ''Unknown ('' @ fmt_lf lat @ ascii '','' @ fmt_lf lon @ ascii '')'')) (\<lambda>addr.
          Inr ((False, g\<lparr>g_addr := addr\<rparr>), st))
      else
        c_bind (utstring_renew (url_buf st)) (\<lambda>url.
        c_bind (utstring_renew (curl_buf st)) (\<lambda>buf.
        c_bind (utstring_clear (g_rawdata g)) (\<lambda>raw.
        let opencage = (api_provider = ascii ''opencage'')
        in c_bind (utstring_printf url (if opencage then opencage_url apikey lat lon
                                        else locationiq_url apikey lat lon)) (\<lambda>url.
           c_bind (http_get perform (cstring (utstring_body url)) buf (network st)) (\<lambda>((bf, buf), n).
             let st = st\<lparr>url_buf := Some url, curl_buf := Some buf, network := n\<rparr>;
                 g = g\<lparr>g_rawdata := raw\<rparr>
             in if bf then
                  c_bind (if opencage then opencage_decode buf g else locationiq_decode buf g) (\<lambda>r.
                    Inr (r, st))
                else Inr ((False, g), st)))))))"

end
