(* ===== verification/Lmdb.thy ===== *)
theory Lmdb
  imports Prelude "HOL-Library.List_Lexorder"
begin

text \<open>
  The interface to LMDB, the library that db.c stores its records with. Its code is not part
  of the program: the functions of db.c take it as the parameter \<open>L\<close>, a record of the library
  calls they make, over a state \<open>'l\<close> of the library. Environments, transactions and cursors are
  handles, zero is the null pointer. A call with a dead handle may be a fault.

  The locale \<open>lmdb_laws\<close> states what the documentation of LMDB promises of those calls, in terms of
  four views of the state: the records on \<open>disk\<close> at a path, the environments that are open, the
  records that a live transaction sees, and what a cursor has yet to return. Any call may
  report an error; \<open>healthy\<close> states are those where no call fails for want of memory, disk
  space or reader slots. The model is of one process with one transaction at a time, which is
  how db.c works: every function opens a transaction and ends it before it returns.

  The last section is an instance of the interface, an association list in memory. It models no
  code; it shows that the laws can hold and gives the witnesses something to run.
\<close>

section \<open>The calls\<close>

type_synonym record_map = "byte list \<rightharpoonup> byte list"

type_synonym ('l, 'a) lmdb_call = "'l \<Rightarrow> ('a \<times> 'l) cres"

record 'l lmdb =
  db_malloc :: "'l \<Rightarrow> bool"
  mdb_env_create :: "('l, int \<times> nat) lmdb_call"
  mdb_env_set_mapsize :: "nat \<Rightarrow> nat \<Rightarrow> ('l, int) lmdb_call"
  mdb_env_set_maxdbs :: "nat \<Rightarrow> nat \<Rightarrow> ('l, int) lmdb_call"
  mdb_env_open :: "nat \<Rightarrow> byte list \<Rightarrow> 32 word \<Rightarrow> nat \<Rightarrow> ('l, int) lmdb_call"
  mdb_env_close :: "nat \<Rightarrow> 'l \<Rightarrow> 'l cres"
  mdb_env_stat :: "nat \<Rightarrow> ('l, int \<times> nat) lmdb_call"
  mdb_env_get_path :: "nat \<Rightarrow> ('l, int \<times> byte list) lmdb_call"
  mdb_txn_begin :: "nat \<Rightarrow> 32 word \<Rightarrow> ('l, int \<times> nat) lmdb_call"
  mdb_txn_commit :: "nat \<Rightarrow> ('l, int) lmdb_call"
  mdb_txn_abort :: "nat \<Rightarrow> 'l \<Rightarrow> 'l cres"
  mdb_dbi_open :: "nat \<Rightarrow> byte list option \<Rightarrow> 32 word \<Rightarrow> ('l, int \<times> nat) lmdb_call"
  mdb_get :: "nat \<Rightarrow> nat \<Rightarrow> byte list \<Rightarrow> ('l, int \<times> byte list) lmdb_call"
  mdb_put :: "nat \<Rightarrow> nat \<Rightarrow> byte list \<Rightarrow> byte list \<Rightarrow> 32 word \<Rightarrow> ('l, int) lmdb_call"
  mdb_del :: "nat \<Rightarrow> nat \<Rightarrow> byte list \<Rightarrow> ('l, int) lmdb_call"
  mdb_cursor_open :: "nat \<Rightarrow> nat \<Rightarrow> ('l, int \<times> nat) lmdb_call"
  mdb_cursor_get :: "nat \<Rightarrow> ('l, int \<times> byte list \<times> byte list) lmdb_call"
  mdb_cursor_close :: "nat \<Rightarrow> 'l \<Rightarrow> 'l cres"

text \<open>The constants of lmdb.h that db.c names.\<close>

definition MDB_NOTLS :: "32 word" where "MDB_NOTLS = 0x200000"
definition MDB_RDONLY :: "32 word" where "MDB_RDONLY = 0x20000"
definition MDB_CREATE :: "32 word" where "MDB_CREATE = 0x40000"
definition MDB_NOTFOUND :: int where "MDB_NOTFOUND = - 30798"

section \<open>The contract\<close>

datatype env_status = Created | Opened "byte list"

text \<open>A key has between one and 511 bytes.\<close>

definition valid_key :: "byte list \<Rightarrow> bool" where
  "valid_key k \<longleftrightarrow> k \<noteq> [] \<and> length k \<le> 511"

text \<open>The records in the order of their keys: lexicographic, shorter keys first.\<close>

definition in_key_order :: "(byte list \<times> byte list) list \<Rightarrow> bool" where
  "in_key_order kvs \<longleftrightarrow> sorted_wrt (<) (map fst kvs)"

lemma in_key_order_simps [simp]:
  "in_key_order []"
  "in_key_order (kv # kvs) \<longleftrightarrow> (\<forall>x \<in> set kvs. fst kv < fst x) \<and> in_key_order kvs"
  by (simp_all add: in_key_order_def)

locale lmdb_laws =
  fixes L :: "'l lmdb"
    and disk :: "'l \<Rightarrow> byte list \<Rightarrow> record_map"
    and env :: "'l \<Rightarrow> nat \<Rightarrow> env_status option"
    and txn :: "'l \<Rightarrow> nat \<Rightarrow> (byte list \<times> record_map) option"
    and cursor :: "'l \<Rightarrow> nat \<Rightarrow> (byte list \<times> byte list) list option"
    and healthy :: "'l \<Rightarrow> bool"
    and main :: nat
  assumes finite_disk: "finite (dom (disk l p))"
    and malloc_law: "healthy l \<Longrightarrow> db_malloc L l"
    and create_law: "\<exists>rc e l'. mdb_env_create L l = Inr ((rc, e), l')
      \<and> disk l' = disk l \<and> (healthy l \<longrightarrow> rc = 0 \<and> healthy l')
      \<and> (rc = 0 \<longrightarrow> env l' e = Some Created)"
    and mapsize_law: "env l e = Some Created \<Longrightarrow> \<exists>rc l'. mdb_env_set_mapsize L e n l = Inr (rc, l')
      \<and> disk l' = disk l \<and> env l' e = Some Created \<and> (healthy l \<longrightarrow> healthy l')"
    and maxdbs_law: "env l e = Some Created \<Longrightarrow> \<exists>rc l'. mdb_env_set_maxdbs L e n l = Inr (rc, l')
      \<and> disk l' = disk l \<and> env l' e = Some Created \<and> (healthy l \<longrightarrow> rc = 0 \<and> healthy l')"
    and open_law: "env l e = Some Created \<Longrightarrow> \<exists>rc l'. mdb_env_open L e p fl pm l = Inr (rc, l')
      \<and> disk l' = disk l \<and> (healthy l \<longrightarrow> rc = 0 \<and> healthy l')
      \<and> env l' e = Some (if rc = 0 then Opened p else Created)"
    and close_law: "env l e = Some s \<Longrightarrow> \<exists>l'. mdb_env_close L e l = Inr l'
      \<and> disk l' = disk l \<and> (healthy l \<longrightarrow> healthy l') \<and> env l' e = None"
    and stat_law: "env l e = Some (Opened p) \<Longrightarrow> \<exists>rc n. mdb_env_stat L e l = Inr ((rc, n), l)
      \<and> (healthy l \<longrightarrow> rc = 0) \<and> (rc = 0 \<longrightarrow> n = card (dom (disk l p)))"
    and path_law: "env l e = Some (Opened p) \<Longrightarrow> mdb_env_get_path L e l = Inr ((0, p), l)"
    and begin_law: "env l e = Some (Opened p) \<Longrightarrow> \<exists>rc t l'. mdb_txn_begin L e fl l = Inr ((rc, t), l')
      \<and> disk l' = disk l \<and> env l' = env l \<and> (healthy l \<longrightarrow> rc = 0 \<and> healthy l')
      \<and> (rc = 0 \<longrightarrow> txn l' t = Some (p, disk l p))"
    and commit_law: "txn l t = Some (p, m) \<Longrightarrow> \<exists>rc l'. mdb_txn_commit L t l = Inr (rc, l')
      \<and> disk l' = (if rc = 0 then (disk l)(p := m) else disk l) \<and> env l' = env l
      \<and> (healthy l \<longrightarrow> rc = 0 \<and> healthy l') \<and> txn l' t = None"
    and abort_law: "txn l t = Some (p, m) \<Longrightarrow> \<exists>l'. mdb_txn_abort L t l = Inr l'
      \<and> disk l' = disk l \<and> env l' = env l \<and> (healthy l \<longrightarrow> healthy l') \<and> txn l' t = None"
    and abort_dead_law: "txn l t = None \<Longrightarrow> mdb_txn_abort L t l = Inl BadPointer"
    and dbi_law: "txn l t = Some (p, m) \<Longrightarrow> \<exists>rc i l'. mdb_dbi_open L t None fl l = Inr ((rc, i), l')
      \<and> disk l' = disk l \<and> env l' = env l \<and> (healthy l \<longrightarrow> rc = 0 \<and> healthy l')
      \<and> txn l' t = Some (p, m) \<and> (rc = 0 \<longrightarrow> i = main)"
    and get_law: "txn l t = Some (p, m) \<Longrightarrow> \<exists>rc v. mdb_get L t main k l = Inr ((rc, v), l)
      \<and> (rc = 0 \<longrightarrow> m k = Some v) \<and> (rc = MDB_NOTFOUND \<longrightarrow> m k = None)
      \<and> (healthy l \<and> valid_key k \<longrightarrow> rc = 0 \<or> rc = MDB_NOTFOUND)"
    and put_law: "txn l t = Some (p, m) \<Longrightarrow> \<exists>rc l'. mdb_put L t main k v 0 l = Inr (rc, l')
      \<and> disk l' = disk l \<and> env l' = env l \<and> (healthy l \<longrightarrow> healthy l')
      \<and> (rc = 0 \<longrightarrow> valid_key k) \<and> (healthy l \<and> valid_key k \<longrightarrow> rc = 0)
      \<and> txn l' t = Some (p, if rc = 0 then m(k \<mapsto> v) else m)"
    and del_law: "txn l t = Some (p, m) \<Longrightarrow> \<exists>rc l'. mdb_del L t main k l = Inr (rc, l')
      \<and> disk l' = disk l \<and> env l' = env l \<and> (healthy l \<longrightarrow> healthy l')
      \<and> (rc = 0 \<longrightarrow> k \<in> dom m) \<and> (rc = MDB_NOTFOUND \<longrightarrow> k \<notin> dom m)
      \<and> (healthy l \<and> valid_key k \<longrightarrow> rc = 0 \<or> rc = MDB_NOTFOUND)
      \<and> txn l' t = Some (p, if rc = 0 then m(k := None) else m)"
    and cursor_open_law: "txn l t = Some (p, m) \<Longrightarrow> \<exists>rc c l'. mdb_cursor_open L t main l = Inr ((rc, c), l')
      \<and> disk l' = disk l \<and> env l' = env l \<and> txn l' t = Some (p, m) \<and> (healthy l \<longrightarrow> rc = 0 \<and> healthy l')
      \<and> (if rc = 0 then \<exists>kvs. cursor l' c = Some kvs \<and> in_key_order kvs \<and> map_of kvs = m
         else cursor l' c = None)"
    and cursor_end_law: "cursor l c = Some [] \<Longrightarrow> \<exists>rc kv l'. mdb_cursor_get L c l = Inr ((rc, kv), l')
      \<and> rc \<noteq> 0 \<and> disk l' = disk l \<and> env l' = env l \<and> txn l' = txn l \<and> (healthy l \<longrightarrow> healthy l')
      \<and> cursor l' c = Some []"
    and cursor_next_law: "cursor l c = Some (kv # kvs) \<Longrightarrow> \<exists>l'. mdb_cursor_get L c l = Inr ((0, kv), l')
      \<and> disk l' = disk l \<and> env l' = env l \<and> txn l' = txn l \<and> (healthy l \<longrightarrow> healthy l')
      \<and> cursor l' c = Some kvs"
    and cursor_dead_law: "cursor l c = None \<Longrightarrow> mdb_cursor_get L c l = Inl BadPointer"
    and cursor_close_law: "cursor l c = Some kvs \<Longrightarrow> \<exists>l'. mdb_cursor_close L c l = Inr l'
      \<and> disk l' = disk l \<and> env l' = env l \<and> txn l' = txn l \<and> (healthy l \<longrightarrow> healthy l')"

section \<open>A store in memory\<close>

text \<open>One environment (handle 1), one transaction (2) and one cursor (3).\<close>

record mem =
  mem_disk :: "(byte list \<times> (byte list \<times> byte list) list) list"
  mem_env :: "env_status option"
  mem_txn :: "(byte list \<times> (byte list \<times> byte list) list) option"
  mem_cursor :: "(byte list \<times> byte list) list option"
  mem_full :: bool

definition mem_empty :: mem where
  "mem_empty = \<lparr>mem_disk = [], mem_env = None, mem_txn = None, mem_cursor = None, mem_full = False\<rparr>"

fun insert_record ::
  "byte list \<Rightarrow> byte list \<Rightarrow> (byte list \<times> byte list) list \<Rightarrow> (byte list \<times> byte list) list" where
  "insert_record k v [] = [(k, v)]"
| "insert_record k v ((k', v') # kvs) =
     (if k < k' then (k, v) # (k', v') # kvs
      else if k = k' then (k, v) # kvs else (k', v') # insert_record k v kvs)"

definition delete_record ::
  "byte list \<Rightarrow> (byte list \<times> byte list) list \<Rightarrow> (byte list \<times> byte list) list" where
  "delete_record k kvs = filter (\<lambda>kv. fst kv \<noteq> k) kvs"

definition disk_of :: "mem \<Rightarrow> byte list \<Rightarrow> (byte list \<times> byte list) list" where
  "disk_of l p = (case map_of (mem_disk l) p of None \<Rightarrow> [] | Some kvs \<Rightarrow> kvs)"

lemma map_of_insert_record [simp]:
  "map_of (insert_record k v kvs) = (map_of kvs)(k \<mapsto> v)"
  by (induction kvs) (auto simp: fun_eq_iff)

lemma set_insert_record: "set (insert_record k v kvs) \<subseteq> insert (k, v) (set kvs)"
  by (induction kvs) (auto split: if_splits)

lemma in_key_order_insert [simp]: "in_key_order kvs \<Longrightarrow> in_key_order (insert_record k v kvs)"
proof (induction kvs)
  case (Cons kv kvs)
  show ?case
  proof (cases "k < fst kv \<or> k = fst kv")
    case True
    with Cons.prems show ?thesis by (cases kv) auto
  next
    case False
    then have "fst kv < k" by auto
    then have "\<forall>x \<in> set (insert_record k v kvs). fst kv < fst x"
      using set_insert_record [of k v kvs] Cons.prems by auto
    with False Cons show ?thesis by (cases kv) auto
  qed
qed simp

lemma map_of_delete_record [simp]: "map_of (delete_record k kvs) = (map_of kvs)(k := None)"
  by (induction kvs) (auto simp: delete_record_def fun_eq_iff)

lemma in_key_order_delete [simp]: "in_key_order kvs \<Longrightarrow> in_key_order (delete_record k kvs)"
  by (induction kvs) (auto simp: delete_record_def)

text \<open>The list that a cursor walks along: sorted, one record per key.\<close>

definition canon :: "(byte list \<times> byte list) list \<Rightarrow> (byte list \<times> byte list) list" where
  "canon kvs = foldr (\<lambda>kv. insert_record (fst kv) (snd kv)) kvs []"

lemma in_key_order_canon [simp]: "in_key_order (canon kvs)"
  by (induction kvs) (simp_all add: canon_def)

lemma map_of_canon [simp]: "map_of (canon kvs) = map_of kvs"
  by (induction kvs) (auto simp: canon_def fun_eq_iff)

definition mem_call :: "bool \<Rightarrow> ('a \<times> mem) \<Rightarrow> ('a \<times> mem) cres" where
  "mem_call live r = (if live then Inr r else Inl BadPointer)"

lemma mem_call_simps [simp]:
  "mem_call True r = Inr r"
  "mem_call False r = Inl BadPointer"
  by (simp_all add: mem_call_def)

definition mem_end :: "bool \<Rightarrow> mem \<Rightarrow> mem cres" where
  "mem_end live l = (if live then Inr l else Inl BadPointer)"

definition mem_records :: "mem \<Rightarrow> (byte list \<times> byte list) list" where
  "mem_records l = (case mem_txn l of None \<Rightarrow> [] | Some (p, kvs) \<Rightarrow> kvs)"

definition mem_set :: "(byte list \<times> byte list) list \<Rightarrow> mem \<Rightarrow> mem" where
  "mem_set kvs l = l\<lparr>mem_txn := map_option (\<lambda>(p, _). (p, kvs)) (mem_txn l)\<rparr>"

definition mem_commit :: "mem \<Rightarrow> int \<times> mem" where
  "mem_commit l = (if mem_full l then (28, l\<lparr>mem_txn := None\<rparr>)
     else (0, l\<lparr>mem_txn := None,
       mem_disk := (case mem_txn l of None \<Rightarrow> mem_disk l | Some r \<Rightarrow> r # mem_disk l)\<rparr>))"

definition mem_path :: "mem \<Rightarrow> byte list" where
  "mem_path l = (case mem_env l of Some (Opened p) \<Rightarrow> p | _ \<Rightarrow> [])"

definition mem_next :: "mem \<Rightarrow> (int \<times> byte list \<times> byte list) \<times> mem" where
  "mem_next l = (case mem_cursor l of
     Some (kv # kvs) \<Rightarrow> ((0, kv), l\<lparr>mem_cursor := Some kvs\<rparr>)
   | _ \<Rightarrow> ((MDB_NOTFOUND, [], []), l))"

definition mem_lmdb :: "mem lmdb" where
  "mem_lmdb = \<lparr>
     db_malloc = (\<lambda>l. True),
     mdb_env_create = (\<lambda>l. Inr ((0, 1), l\<lparr>mem_env := Some Created\<rparr>)),
     mdb_env_set_mapsize = (\<lambda>e n l. mem_call (e = 1 \<and> mem_env l = Some Created) (0, l)),
     mdb_env_set_maxdbs = (\<lambda>e n l. mem_call (e = 1 \<and> mem_env l = Some Created) (0, l)),
     mdb_env_open = (\<lambda>e p fl pm l. mem_call (e = 1 \<and> mem_env l = Some Created)
       (0, l\<lparr>mem_env := Some (Opened p)\<rparr>)),
     mdb_env_close = (\<lambda>e l. mem_end (e = 1 \<and> mem_env l \<noteq> None) (l\<lparr>mem_env := None\<rparr>)),
     mdb_env_stat = (\<lambda>e l. mem_call (e = 1 \<and> mem_env l \<noteq> None)
       ((0, length (canon (disk_of l (mem_path l)))), l)),
     mdb_env_get_path = (\<lambda>e l. mem_call (e = 1 \<and> mem_env l \<noteq> None) ((0, mem_path l), l)),
     mdb_txn_begin = (\<lambda>e fl l. mem_call (e = 1 \<and> mem_env l \<noteq> None)
       ((0, 2), l\<lparr>mem_txn := Some (mem_path l, disk_of l (mem_path l))\<rparr>)),
     mdb_txn_commit = (\<lambda>t l. mem_call (t = 2 \<and> mem_txn l \<noteq> None) (mem_commit l)),
     mdb_txn_abort = (\<lambda>t l. mem_end (t = 2 \<and> mem_txn l \<noteq> None) (l\<lparr>mem_txn := None\<rparr>)),
     mdb_dbi_open = (\<lambda>t name fl l. mem_call (t = 2 \<and> mem_txn l \<noteq> None) ((0, 1), l)),
     mdb_get = (\<lambda>t i k l. mem_call (t = 2 \<and> mem_txn l \<noteq> None)
       ((case map_of (mem_records l) k of None \<Rightarrow> (MDB_NOTFOUND, []) | Some v \<Rightarrow> (0, v)), l)),
     mdb_put = (\<lambda>t i k v fl l. mem_call (t = 2 \<and> mem_txn l \<noteq> None)
       (if valid_key k then (0, mem_set (insert_record k v (mem_records l)) l) else (- 30781, l))),
     mdb_del = (\<lambda>t i k l. mem_call (t = 2 \<and> mem_txn l \<noteq> None)
       (if map_of (mem_records l) k = None then (MDB_NOTFOUND, l)
        else (0, mem_set (delete_record k (mem_records l)) l))),
     mdb_cursor_open = (\<lambda>t i l. mem_call (t = 2 \<and> mem_txn l \<noteq> None)
       ((0, 3), l\<lparr>mem_cursor := Some (canon (mem_records l))\<rparr>)),
     mdb_cursor_get = (\<lambda>c l. mem_call (c = 3 \<and> mem_cursor l \<noteq> None) (mem_next l)),
     mdb_cursor_close = (\<lambda>c l. mem_end (c = 3 \<and> mem_cursor l \<noteq> None) (l\<lparr>mem_cursor := None\<rparr>))\<rparr>"

definition mem_disk_view :: "mem \<Rightarrow> byte list \<Rightarrow> record_map" where
  "mem_disk_view l p = map_of (disk_of l p)"

definition mem_env_view :: "mem \<Rightarrow> nat \<Rightarrow> env_status option" where
  "mem_env_view l e = (if e = 1 then mem_env l else None)"

definition mem_txn_view :: "mem \<Rightarrow> nat \<Rightarrow> (byte list \<times> record_map) option" where
  "mem_txn_view l t = (if t = 2 then map_option (\<lambda>(p, kvs). (p, map_of kvs)) (mem_txn l) else None)"

definition mem_cursor_view :: "mem \<Rightarrow> nat \<Rightarrow> (byte list \<times> byte list) list option" where
  "mem_cursor_view l c = (if c = 3 then mem_cursor l else None)"

definition mem_healthy :: "mem \<Rightarrow> bool" where
  "mem_healthy l \<longleftrightarrow> \<not> mem_full l"

lemmas mem_views = mem_disk_view_def mem_env_view_def mem_txn_view_def mem_cursor_view_def
  mem_healthy_def disk_of_def mem_path_def mem_records_def mem_set_def mem_commit_def mem_next_def
  mem_end_def

lemma mem_disk_view_cong: "mem_disk l' = mem_disk l \<Longrightarrow> mem_disk_view l' = mem_disk_view l"
  by (simp add: mem_disk_view_def disk_of_def fun_eq_iff)

lemma in_key_order_distinct: "in_key_order kvs \<Longrightarrow> distinct (map fst kvs)"
  by (induction kvs) auto

lemma card_canon: "card (dom (map_of kvs)) = length (canon kvs)"
proof -
  have "card (fst ` set (canon kvs)) = length (canon kvs)"
    using distinct_card [OF in_key_order_distinct [OF in_key_order_canon, of kvs]] by simp
  then show ?thesis using dom_map_of_conv_image_fst [of "canon kvs"] by simp
qed

lemma ex_other: "(\<exists>x. x \<noteq> a \<and> (x \<noteq> a \<longrightarrow> Q x)) \<longleftrightarrow> (\<exists>x. x \<noteq> a \<and> Q x)"
  by blast

interpretation mem: lmdb_laws mem_lmdb mem_disk_view mem_env_view mem_txn_view mem_cursor_view
  mem_healthy 1
proof (unfold_locales, goal_cases)
  case (1 l p)
  show ?case by (simp add: mem_disk_view_def finite_dom_map_of)
next
  case (8 l e p)
  then show ?case by (auto simp: mem_lmdb_def mem_views card_canon split: if_splits)
qed (auto simp: mem_lmdb_def mem_views fun_eq_iff MDB_NOTFOUND_def ex_other
    split: if_splits option.splits)

end
