(* ===== verification/Db.thy ===== *)
theory Db
  imports Lmdb C_Format
begin

text \<open>
  db.c: the records of the program in LMDB, on top of the library calls of the parameter \<open>L\<close>.
  A \<open>struct db *\<close> is a \<open>db option\<close>, \<open>None\<close> the null pointer. Keys and payloads are the bytes of a
  C string before its zero; the record that \<open>db_put\<close> stores ends in the zero. A buffer that a
  function fills is passed with its contents and returned.

  The locale \<open>kv_store\<close> is what revgeod.c relies on: a finite map with a buffer-filling lookup.
  In \<open>open_store\<close>, LMDB with an open environment, the functions of db.c provide it.
\<close>

record db =
  db_env :: nat
  db_dbi :: nat

section \<open>Opening and closing\<close>

definition LMDB_DB_SIZE :: nat where "LMDB_DB_SIZE = 10 * 1024 * 1024 * 1024"

text \<open>
  The code after the environment is open. The result of \<open>mdb_txn_begin\<close> is not stored: the
  comparison that follows it looks at the zero of \<open>mdb_env_open\<close>.
\<close>

definition open_dbi :: "'l lmdb \<Rightarrow> nat \<Rightarrow> byte list option \<Rightarrow> 32 word \<Rightarrow> 32 word \<Rightarrow> ('l, db option) lmdb_call" where
  "open_dbi L e dbname flags dbiflags l =
     c_bind (mdb_txn_begin L e flags l) (\<lambda>((_, txn), l).
     c_bind (mdb_dbi_open L txn dbname dbiflags l) (\<lambda>((rc, dbi), l).
       if rc \<noteq> 0 then
         c_bind (mdb_txn_abort L txn l) (\<lambda>l. c_bind (mdb_env_close L e l) (\<lambda>l. Inr (None, l)))
       else c_bind (mdb_txn_commit L txn l) (\<lambda>(rc, l).
         if rc \<noteq> 0 then c_bind (mdb_env_close L e l) (\<lambda>l. Inr (None, l))
         else Inr (Some \<lparr>db_env = e, db_dbi = dbi\<rparr>, l))))"

definition db_open :: "'l lmdb \<Rightarrow> byte list \<Rightarrow> byte list option \<Rightarrow> bool \<Rightarrow> ('l, db option) lmdb_call" where
  "db_open L path dbname rdonly l =
     (if \<not> db_malloc L l then Inr (None, l)
      else
        let flags = (if rdonly then MDB_NOTLS OR MDB_RDONLY else MDB_NOTLS);
            dbiflags = (if rdonly then 0 else MDB_CREATE);
            perms = 436
        in c_bind (mdb_env_create L l) (\<lambda>((rc, e), l).
           if rc \<noteq> 0 then Inr (None, l)
           else c_bind (mdb_env_set_mapsize L e LMDB_DB_SIZE l) (\<lambda>(_, l).
                c_bind (mdb_env_set_maxdbs L e 10 l) (\<lambda>(rc, l).
           if rc \<noteq> 0 then Inr (None, l)
           else c_bind (mdb_env_open L e path flags perms l) (\<lambda>(rc, l).
           if rc \<noteq> 0 then Inr (None, l)
           else open_dbi L e dbname flags dbiflags l)))))"

definition db_close :: "'l lmdb \<Rightarrow> db option \<Rightarrow> 'l \<Rightarrow> 'l cres" where
  "db_close L db l = (case db of None \<Rightarrow> Inr l | Some d \<Rightarrow> mdb_env_close L (db_env d) l)"

section \<open>Records\<close>

text \<open>\<open>db->env\<close> when \<open>db\<close> may be null.\<close>

definition with_db :: "db option \<Rightarrow> (db \<Rightarrow> 'a cres) \<Rightarrow> 'a cres" where
  "with_db db k = (case db of None \<Rightarrow> Inl BadPointer | Some d \<Rightarrow> k d)"

lemma with_db_simps [simp]:
  "with_db (Some d) k = k d"
  "with_db None k = Inl BadPointer"
  by (simp_all add: with_db_def)

text \<open>A failed commit is followed by \<open>mdb_txn_abort\<close> on the same handle.\<close>

definition commit_or_abort :: "'l lmdb \<Rightarrow> nat \<Rightarrow> ('l, int) lmdb_call" where
  "commit_or_abort L txn l =
     c_bind (mdb_txn_commit L txn l) (\<lambda>(rc, l).
       if rc \<noteq> 0 then c_bind (mdb_txn_abort L txn l) (\<lambda>l. Inr (rc, l)) else Inr (rc, l))"

definition db_del :: "'l lmdb \<Rightarrow> db option \<Rightarrow> byte list \<Rightarrow> ('l, int) lmdb_call" where
  "db_del L db keystr l = with_db db (\<lambda>db.
     c_bind (mdb_txn_begin L (db_env db) 0 l) (\<lambda>((rc, txn), l).
       if rc \<noteq> 0 then Inr (rc, l)
       else c_bind (mdb_del L txn (db_dbi db) keystr l) (\<lambda>(krc, l).
            c_bind (commit_or_abort L txn l) (\<lambda>(_, l). Inr (if krc \<noteq> 0 then 1 else 0, l)))))"

definition db_put :: "'l lmdb \<Rightarrow> db option \<Rightarrow> byte list \<Rightarrow> byte list \<Rightarrow> ('l, int) lmdb_call" where
  "db_put L db keystr payload l = c_assert (db \<noteq> None)
     (if payload = ascii ''DELETE'' then db_del L db keystr l
      else with_db db (\<lambda>db.
        c_bind (mdb_txn_begin L (db_env db) 0 l) (\<lambda>((rc, txn), l).
          if rc \<noteq> 0 then Inr (- 1, l)
          else c_bind (mdb_put L txn (db_dbi db) keystr (payload @ [0]) 0 l) (\<lambda>(_, l).
               commit_or_abort L txn l))))"

definition db_get :: "'l lmdb \<Rightarrow> db option \<Rightarrow> byte list \<Rightarrow> byte list \<Rightarrow> ('l, int \<times> byte list) lmdb_call" where
  "db_get L db k buf l =
     (case db of None \<Rightarrow> Inr ((- 1, buf), l)
      | Some db \<Rightarrow>
          c_bind (mdb_txn_begin L (db_env db) MDB_RDONLY l) (\<lambda>((rc, txn), l).
            if rc \<noteq> 0 then Inr ((- 1, buf), l)
            else c_bind (mdb_get L txn (db_dbi db) k l) (\<lambda>((rc, data), l).
              let len = (if length data < length buf then length data else length buf);
                  r = (if rc \<noteq> 0 then (- 1, buf) else (int len, take len data @ drop len buf))
              in c_bind (mdb_txn_commit L txn l) (\<lambda>(_, l). Inr (r, l)))))"

section \<open>Enumeration\<close>

text \<open>
  The callback gets the bytes of the key and of the record and the globals \<open>'a\<close> it works on; it
  returns whether to stop. The loop ends when the cursor does, which only the laws of LMDB can
  tell: a loop that does not end is \<open>None\<close>.
\<close>

type_synonym 'a visitor = "byte list \<Rightarrow> byte list \<Rightarrow> 'a \<Rightarrow> (int \<times> 'a) cres"

partial_function (option) enum_loop ::
  "'l lmdb \<Rightarrow> nat \<Rightarrow> 'a visitor \<Rightarrow> 'a \<Rightarrow> 'l \<Rightarrow> ('a \<times> 'l) cres option" where
  "enum_loop L cursor func a l =
     (case mdb_cursor_get L cursor l of
        Inl e \<Rightarrow> Some (Inl e)
      | Inr ((rc, key, data), l) \<Rightarrow>
          if rc \<noteq> 0 then Some (Inr (a, l))
          else (case func key data a of
                  Inl e \<Rightarrow> Some (Inl e)
                | Inr (stop, a) \<Rightarrow>
                    if stop = 1 then Some (Inr (a, l)) else enum_loop L cursor func a l))"

definition enum_all :: "'l lmdb \<Rightarrow> nat \<Rightarrow> 'a visitor \<Rightarrow> 'a \<Rightarrow> ('l, 'a) lmdb_call" where
  "enum_all L cursor func a l =
     (case enum_loop L cursor func a l of None \<Rightarrow> Inl NoReturn | Some r \<Rightarrow> r)"

text \<open>The result of \<open>mdb_cursor_open\<close> is not looked at.\<close>

definition db_enum :: "'l lmdb \<Rightarrow> db option \<Rightarrow> 'a visitor \<Rightarrow> 'a \<Rightarrow> ('l, int \<times> 'a) lmdb_call" where
  "db_enum L db func a l = with_db db (\<lambda>db.
     c_bind (mdb_txn_begin L (db_env db) MDB_RDONLY l) (\<lambda>((rc, txn), l).
       if rc \<noteq> 0 then Inr ((rc, a), l)
       else c_bind (mdb_cursor_open L txn (db_dbi db) l) (\<lambda>((_, cursor), l).
            c_bind (enum_all L cursor func a l) (\<lambda>(a, l).
            c_bind (mdb_cursor_close L cursor l) (\<lambda>l.
            c_bind (mdb_txn_commit L txn l) (\<lambda>(rc, l). Inr ((rc, a), l)))))))"

definition db_list :: "'l lmdb \<Rightarrow> byte list \<Rightarrow> byte list option \<Rightarrow> 'a visitor \<Rightarrow> 'a \<Rightarrow> ('l, 'a) lmdb_call" where
  "db_list L path lmdbname func a l =
     c_bind (db_open L path lmdbname True l) (\<lambda>(db, l).
       case db of None \<Rightarrow> Inr (a, l)
       | Some d \<Rightarrow>
           c_bind (mdb_txn_begin L (db_env d) MDB_RDONLY l) (\<lambda>((rc, txn), l).
             if rc \<noteq> 0 then c_bind (db_close L db l) (\<lambda>l. Inr (a, l))
             else c_bind (mdb_cursor_open L txn (db_dbi d) l) (\<lambda>((_, cursor), l).
                  c_bind (enum_all L cursor func a l) (\<lambda>(a, l).
                  c_bind (mdb_cursor_close L cursor l) (\<lambda>l.
                  c_bind (mdb_txn_commit L txn l) (\<lambda>(_, l).
                  c_bind (db_close L db l) (\<lambda>l. Inr (a, l))))))))"

text \<open>
  \<open>%*.*s\<close>: at most \<open>prec\<close> bytes of the string at \<open>m\<close>, all of it when \<open>prec\<close> is negative, padded with
  blanks to the width, on the right when that is negative.
\<close>

definition fmt_str :: "int \<Rightarrow> int \<Rightarrow> byte list \<Rightarrow> byte list cres" where
  "fmt_str width prec m =
     (if \<not> nulterm m \<and> (prec < 0 \<or> int (length m) < prec) then Inl OutOfBounds
      else
        let s = (if prec < 0 then cstring m else cstring (take (nat prec) m));
            pad = replicate (nat \<bar>width\<bar> - length s) 0x20
        in Inr (if width < 0 then s @ pad else pad @ s))"

definition dump_line :: "(byte list) visitor" where
  "dump_line key data out =
     c_bind (fmt_str (int (length key)) (int (length key)) key) (\<lambda>k.
     c_bind (fmt_str (int (length data) - 1) (int (length data) - 1) data) (\<lambda>d.
       Inr (0, out @ k @ [0x20] @ d @ [0x0A])))"

text \<open>\<open>out\<close> is what is on the standard output.\<close>

definition db_dump :: "'l lmdb \<Rightarrow> byte list \<Rightarrow> byte list option \<Rightarrow> byte list \<Rightarrow> ('l, byte list) lmdb_call" where
  "db_dump L path lmdbname out l = db_list L path lmdbname dump_line out l"

section \<open>Loading\<close>

text \<open>\<open>if ((bp = strchr(buf, c)) != NULL) *bp = 0;\<close>\<close>

definition cut_at :: "byte \<Rightarrow> byte list \<Rightarrow> byte list" where
  "cut_at c s = takeWhile (\<lambda>b. b \<noteq> c) s"

definition load_line :: "'l lmdb \<Rightarrow> db option \<Rightarrow> byte list \<Rightarrow> 'l \<Rightarrow> 'l cres" where
  "load_line L db buf l =
     (let s = cut_at 0x0A (cut_at 0x0D (cstring buf))
      in if 0x20 \<in> set s then
           c_bind (db_put L db (cut_at 0x20 s) (drop (length (cut_at 0x20 s) + 1) s) l) (\<lambda>(_, l). Inr l)
         else Inr l)"

function load_loop :: "'l lmdb \<Rightarrow> db option \<Rightarrow> byte list \<Rightarrow> 'l \<Rightarrow> 'l cres" where
  "load_loop L db inp l =
     (if inp = [] then Inr l
      else c_bind (load_line L db (take (fgets_len 8192 inp) inp) l) (\<lambda>l.
             load_loop L db (drop (fgets_len 8192 inp) inp) l))"
  by pat_completeness auto
termination
  by (relation "measure (\<lambda>(L, db, inp, l). length inp)")
    (use fgets_len_pos [of _ 8192] in auto)

declare load_loop.simps [simp del]

text \<open>\<open>inp\<close> is what the standard input still holds.\<close>

definition db_load :: "'l lmdb \<Rightarrow> byte list \<Rightarrow> byte list option \<Rightarrow> byte list \<Rightarrow> 'l \<Rightarrow> 'l cres" where
  "db_load L path lmdbname inp l =
     c_bind (db_open L path lmdbname False l) (\<lambda>(db, l).
       case db of None \<Rightarrow> Inr l
       | Some _ \<Rightarrow> c_bind (load_loop L db inp l) (\<lambda>l. db_close L db l))"

section \<open>Size and place\<close>

definition db_numentries :: "'l lmdb \<Rightarrow> db option \<Rightarrow> ('l, 64 word) lmdb_call" where
  "db_numentries L db l = (case db of None \<Rightarrow> Inl AssertFail
     | Some d \<Rightarrow> c_bind (mdb_env_stat L (db_env d) l) (\<lambda>((rc, n), l).
         Inr (if rc \<noteq> 0 then - 1 else of_nat n, l)))"

definition db_getpath :: "'l lmdb \<Rightarrow> db option \<Rightarrow> ('l, byte list option) lmdb_call" where
  "db_getpath L db l = (case db of None \<Rightarrow> Inl AssertFail
     | Some d \<Rightarrow> c_bind (mdb_env_get_path L (db_env d) l) (\<lambda>((rc, path), l).
         Inr (if rc \<noteq> 0 then None else Some path, l)))"

end
