(* ===== verification/Uptime.thy ===== *)
theory Uptime
  imports C_Format "HOL-Library.Signed_Division"
begin

text \<open>
  uptime.c: a number of seconds as days, hours and minutes. The three variables are of type
  \<open>int\<close>, the arithmetic before the assignments is that of \<open>time_t\<close>, here the integers: C's
  division rounds towards zero (\<open>sdiv\<close>) and the assignment keeps 32 bits.
\<close>

definition to_int :: "int \<Rightarrow> int" where
  "to_int i = sint (word_of_int i :: 32 word)"

lemma to_int_small: "- (2 ^ 31) \<le> i \<Longrightarrow> i < 2 ^ 31 \<Longrightarrow> to_int i = i"
  unfolding to_int_def by (rule signed_take_bit_int_eq_self [THEN trans [OF sint_sbintrunc']])
    simp_all

definition uptime_days :: "int \<Rightarrow> int" where
  "uptime_days seconds = to_int (seconds sdiv 86400)"

definition uptime_hours :: "int \<Rightarrow> int" where
  "uptime_hours seconds = to_int (seconds sdiv 3600 - to_int (uptime_days seconds * 24))"

definition uptime_mins :: "int \<Rightarrow> int" where
  "uptime_mins seconds = to_int (seconds sdiv 60 - to_int (uptime_days seconds * 24 * 60)
     - to_int (uptime_hours seconds * 60))"

text \<open>What \<open>snprintf\<close> leaves in \<open>dest\<close> before the zero, in a buffer of \<open>destlen\<close> bytes.\<close>

definition uptime :: "int \<Rightarrow> nat \<Rightarrow> byte list" where
  "uptime seconds destlen = take (destlen - 1)
     (fmt_d (uptime_days seconds) @ ascii '' days, '' @ fmt_d (uptime_hours seconds) @ ascii '' hours, ''
      @ fmt_d (uptime_mins seconds) @ ascii '' mins'')"

lemma sdiv_pos: "0 \<le> a \<Longrightarrow> 0 < b \<Longrightarrow> a sdiv b = a div (b :: int)"
  by (cases "a = 0") (simp_all add: signed_divide_int_def sgn_if)

lemma quotients:
  fixes s :: int
  shows "s div 86400 = s div 3600 div 24" and "s div 3600 = s div 60 div 60"
  by (simp_all add: zdiv_zmult2_eq [symmetric])

lemma uptime_parts:
  assumes "0 \<le> s" and "s < 86400 * 2 ^ 20"
  shows "uptime_days s = s div 86400" "uptime_hours s = s div 3600 mod 24"
    "uptime_mins s = s div 60 mod 60"
proof -
  define M H D where "M = s div 60" and "H = M div 60" and "D = H div 24"
  have H: "s div 3600 = H" and D: "s div 86400 = D"
    by (simp_all only: quotients M_def H_def D_def)
  have eM: "H * 60 + M mod 60 = M" and eH: "D * 24 + H mod 24 = H"
    by (simp_all add: H_def D_def)
  have bM: "0 \<le> M mod 60" "M mod 60 < 60" and bH: "0 \<le> H mod 24" "H mod 24 < 24" by simp_all
  have q: "0 \<le> D" "D < 2 ^ 20"
    using assms unfolding D [symmetric] by (simp_all add: pos_imp_zdiv_nonneg_iff div_less_iff_less_mult)
  then have d: "uptime_days s = D"
    using assms(1) by (simp add: uptime_days_def sdiv_pos to_int_small D)
  have h: "uptime_hours s = H mod 24"
    using assms(1) q bH eH by (simp add: uptime_hours_def d sdiv_pos to_int_small H)
  have "M - D * 24 * 60 - H mod 24 * 60 = M mod 60" using eM eH by linarith
  then have "uptime_mins s = M mod 60"
    using assms(1) q bH bM
    by (simp add: uptime_mins_def d h sdiv_pos to_int_small flip: M_def)
  with d h show "uptime_days s = s div 86400" "uptime_hours s = s div 3600 mod 24"
    "uptime_mins s = s div 60 mod 60" by (simp_all add: D H M_def)
qed

lemma uptime_sum:
  fixes s :: int
  shows "s div 86400 * 86400 + s div 3600 mod 24 * 3600 + s div 60 mod 60 * 60 + s mod 60 = s"
proof -
  have "s div 60 * 60 + s mod 60 = s" by simp
  moreover have "s div 60 div 60 * 60 + s div 60 mod 60 = s div 60" by simp
  moreover have "s div 3600 div 24 * 24 + s div 3600 mod 24 = s div 3600" by simp
  ultimately show ?thesis unfolding quotients by linarith
qed



end
