(* ===== verification/Revgeod.thy ===== *)
theory Revgeod
  imports Geo Geohash Db Uptime
begin

text \<open>
  revgeod.c: the HTTP handlers of the daemon, for the build without \<open>STATSD\<close>. The globals of the
  program and the states of the libraries behind it are the record \<open>server\<close>; a handler maps a
  request and a server to what it returns to libmicrohttpd, what it has queued as the answer, and
  the new server, or to a fault.

  Parameters stand for what is not part of the program: \<open>libs\<close> holds LMDB, libcurl and the version
  text of libmicrohttpd; \<open>moment\<close> what the surroundings answer during one request: the clock, the
  size of the data file, whether libmicrohttpd has memory for a response and what it says to the
  response queued, and the bytes of memory that nobody has written yet.

  \<open>appcache\<close> is the hash table of uthash.h as the list of its elements in the order in which they
  were added, which is the order of \<open>HASH_ITER\<close>.
\<close>

section \<open>State\<close>

record statistics =
  launchtime :: int
  requests :: "64 word"
  geofail :: "64 word"
  opencage :: "64 word"
  locationiq :: "64 word"
  lmdb_hits :: "64 word"
  stats :: "64 word"

record ('l, 'n) server =
  apikey :: "byte list"
  api_provider :: "byte list"
  the_db :: "db option"
  appcache :: "(byte list \<times> 64 word) list"
  stat_counts :: statistics
  geo_texts :: "geo_bufs option"
  geo_static :: "'n geo_state"
  records :: 'l

record ('l, 'n) libs =
  lib_lmdb :: "'l lmdb"
  lib_curl :: "'n curl"
  lib_mhd_version :: "byte list"

record reply =
  status_code :: int
  content_type :: "byte list"
  page :: "byte list"

record moment =
  m_time :: "nat \<Rightarrow> int"
  m_stat :: "int option"
  m_heap :: "nat \<Rightarrow> byte"
  m_stack :: "byte list"
  m_beyond :: "byte list"
  m_create :: "byte list \<Rightarrow> bool"
  m_queue :: "reply \<Rightarrow> int"

record request =
  rq_method :: "byte list"
  rq_url :: "byte list"
  rq_arg :: "byte list \<Rightarrow> byte list option"

type_synonym answer = "int \<times> reply option"

type_synonym ('l, 'n) handled = "(answer \<times> ('l, 'n) server) cres"

definition GEOHASH_PRECISION :: int where "GEOHASH_PRECISION = 8"
definition JSON_SPACE :: "byte list" where "JSON_SPACE = ascii ''    ''"
definition NOT_ACCEPTABLE :: int where "NOT_ACCEPTABLE = 406"
definition MHD_NO :: int where "MHD_NO = 0"
definition MHD_HTTP_OK :: int where "MHD_HTTP_OK = 200"

section \<open>Answering\<close>

text \<open>The string at a pointer, found with \<open>strlen\<close>.\<close>

definition string_at :: "byte list \<Rightarrow> byte list cres" where
  "string_at m = (if nulterm m then Inr (cstring m) else Inl OutOfBounds)"

definition respond :: "moment \<Rightarrow> byte list \<Rightarrow> byte list \<Rightarrow> int \<Rightarrow> answer" where
  "respond M body ctype code =
     (if \<not> m_create M body then (MHD_NO, None)
      else let r = \<lparr>status_code = code, content_type = ctype, page = body\<rparr>
           in (m_queue M r, Some r))"

definition send_content :: "moment \<Rightarrow> byte list \<Rightarrow> byte list \<Rightarrow> int \<Rightarrow> answer cres" where
  "send_content M buf ctype code = c_bind (string_at buf) (\<lambda>body. Inr (respond M body ctype code))"

definition send_page :: "moment \<Rightarrow> byte list \<Rightarrow> int \<Rightarrow> answer cres" where
  "send_page M buf code = send_content M buf (ascii ''text/plain'') code"

text \<open>
  \<open>json_stringify\<close> never returns the null pointer, so that the branch for it has no counterpart
  here or in \<open>get_stats\<close> and \<open>get_dumpall\<close>.
\<close>

definition send_json :: "moment \<Rightarrow> json \<Rightarrow> answer cres" where
  "send_json M json = c_bind (json_stringify json (Some JSON_SPACE)) (\<lambda>js.
     Inr (respond M js (ascii ''application/json'') MHD_HTTP_OK))"

text \<open>A literal in the code, and a row of \<open>json_append_member\<close>.\<close>

definition lit :: "string \<Rightarrow> byte list" where "lit s = ascii s @ [0]"

fun append_members :: "json \<Rightarrow> (string \<times> json) list \<Rightarrow> json cres" where
  "append_members object [] = Inr object"
| "append_members object ((k, v) # kvs) =
     c_bind (json_append_member object (ascii k) v) (\<lambda>object. append_members object kvs)"

text \<open>\<open>json_mkstring\<close> of a pointer that may be null, \<open>json_mknumber\<close> of an integer.\<close>

definition mkstring :: "byte list option \<Rightarrow> json cres" where
  "mkstring s = (case s of None \<Rightarrow> Inl BadPointer | Some t \<Rightarrow> Inr (JString t))"

definition mkcount :: "64 word \<Rightarrow> json" where
  "mkcount n = JNumber (d_of_int (uint n))"

definition mkint :: "int \<Rightarrow> json" where
  "mkint i = JNumber (d_of_int i)"

section \<open>/stats\<close>

fun append_apps :: "json \<Rightarrow> (byte list \<times> 64 word) list \<Rightarrow> json cres" where
  "append_apps apps [] = Inr apps"
| "append_apps apps ((appname, queries) # rest) =
     c_bind (json_append_member apps appname (mkcount queries)) (\<lambda>apps. append_apps apps rest)"

definition get_stats :: "('l, 'n) libs \<Rightarrow> moment \<Rightarrow> ('l, 'n) server \<Rightarrow> ('l, 'n) handled" where
  "get_stats W M s =
     (let st = (stat_counts s)\<lparr>stats := stats (stat_counts s) + 1\<rparr>;
          s = s\<lparr>stat_counts := st\<rparr>
      in c_bind (append_members json_mkobject
           [(''_whoami'', JString (ascii ''revgeod.c'')),
            (''_version'', JString (ascii ''0.3.8'')),
            (''_mhdversion'', JString (lib_mhd_version W)),
            (''stats'', mkcount (stats st)),
            (''requests'', mkcount (requests st)),
            (''geocode_failed'', mkcount (geofail st)),
            (''locationiq'', mkcount (locationiq st)),
            (''opencage'', mkcount (opencage st)),
            (''lmdb'', mkcount (lmdb_hits st))]) (\<lambda>counters.
         c_bind (append_apps json_mkobject (appcache s)) (\<lambda>apps.
         c_bind (db_getpath (lib_lmdb W) (the_db s) (records s)) (\<lambda>(path, l).
         c_bind (mkstring path) (\<lambda>db_path.
         c_bind (db_numentries (lib_lmdb W) (the_db s) l) (\<lambda>(entries, l).
         c_bind (append_members json_mkobject
           ([(''stats'', counters),
             (''apps'', apps),
             (''uptime'', mkint (m_time M 1 - launchtime st)),
             (''uptime_s'', JString (uptime (m_time M 0 - launchtime st) 8192)),
             (''tst'', mkint (m_time M 2)),
             (''db_path'', db_path),
             (''db_entries'', mkcount entries)]
            @ (case m_stat M of None \<Rightarrow> [] | Some sz \<Rightarrow> [(''db_size'', mkint sz)]))) (\<lambda>json.
         c_bind (json_stringify json (Some JSON_SPACE)) (\<lambda>js.
         c_bind (send_content M (js @ [0]) (ascii ''application/json'') MHD_HTTP_OK) (\<lambda>a.
           Inr (a, s\<lparr>records := l\<rparr>))))))))))"

section \<open>/rev\<close>

fun find_app :: "(byte list \<times> 64 word) list \<Rightarrow> byte list \<Rightarrow> 64 word option" where
  "find_app [] appname = None"
| "find_app ((name, queries) # rest) appname =
     (if name = appname then Some queries else find_app rest appname)"

fun set_app :: "(byte list \<times> 64 word) list \<Rightarrow> byte list \<Rightarrow> 64 word \<Rightarrow> (byte list \<times> 64 word) list" where
  "set_app [] appname q = []"
| "set_app ((name, queries) # rest) appname q =
     (if name = appname then (name, q) # rest else (name, queries) # set_app rest appname q)"

definition count_app :: "(byte list \<times> 64 word) list \<Rightarrow> byte list \<Rightarrow> (byte list \<times> 64 word) list" where
  "count_app cache appname = (case find_app cache appname of
     None \<Rightarrow> cache @ [(appname, 1)]
   | Some queries \<Rightarrow> set_app cache appname (queries + 1))"

text \<open>\<open>utstring_renew\<close> of the five static strings.\<close>

definition renew_texts :: "geo_bufs option \<Rightarrow> geo_bufs cres" where
  "renew_texts g =
     c_bind (utstring_renew (map_option g_addr g)) (\<lambda>addr.
     c_bind (utstring_renew (map_option g_rawdata g)) (\<lambda>rawdata.
     c_bind (utstring_renew (map_option g_locality g)) (\<lambda>locality.
     c_bind (utstring_renew (map_option g_cc g)) (\<lambda>cc.
     c_bind (utstring_renew (map_option g_tzname g)) (\<lambda>tzname.
       Inr \<lparr>g_addr = addr, g_rawdata = rawdata, g_locality = locality, g_cc = cc,
         g_tzname = tzname\<rparr>)))))"

definition ub :: "utstring \<Rightarrow> byte list" where
  "ub b = cstring (utstring_body b)"

text \<open>The members of \<open>from\<close> with the names given that are strings are added to \<open>obj\<close>.\<close>

fun copy_strings :: "json option \<Rightarrow> json \<Rightarrow> string list \<Rightarrow> json cres" where
  "copy_strings j obj [] = Inr obj"
| "copy_strings j obj (e # es) =
     (case json_find_member j (ascii e) of
        Some (JString t) \<Rightarrow> c_bind (json_append_member obj (ascii e) (JString t)) (\<lambda>obj. copy_strings j obj es)
      | _ \<Rightarrow> copy_strings j obj es)"

definition elems :: "string list" where
  "elems = [''village'', ''locality'', ''cc'', ''tzname'']"

text \<open>The address as it is found in the database; a record that is not JSON is printed to the log.\<close>

definition stored_address :: "byte list \<Rightarrow> json cres" where
  "stored_address apbuf = c_bind (json_decode apbuf) (\<lambda>address_obj.
     case address_obj of
       None \<Rightarrow> c_bind (string_at apbuf) (\<lambda>_. append_members json_mkobject
         [(''village'', JString (ascii ''unknown'')), (''locality'', JString (ascii ''unknown'')),
          (''cc'', JString (ascii ''??'')), (''tzname'', JNull)])
     | Some _ \<Rightarrow> copy_strings address_obj json_mkobject elems)"

text \<open>The record stored for an address, and the address of the answer to the request that got it.\<close>

definition address_record :: "geo_bufs \<Rightarrow> json cres" where
  "address_record g = append_members json_mkobject
     ([(''village'', JString (ub (g_addr g))), (''cc'', JString (ub (g_cc g)))]
      @ (if utstring_len (g_locality g) > 0 then [(''locality'', JString (ub (g_locality g)))] else [])
      @ (if utstring_len (g_tzname g) > 0 then [(''tzname'', JString (ub (g_tzname g)))] else []))"

definition fresh_address :: "byte list \<Rightarrow> geo_bufs \<Rightarrow> byte list \<Rightarrow> json cres" where
  "fresh_address ap g source = append_members json_mkobject
     ([(''village'', JString ap)]
      @ (if utstring_len (g_locality g) > 0 then [(''locality'', JString (ub (g_locality g)))] else [])
      @ [(''cc'', JString (ub (g_cc g))),
         (''tzname'', if utstring_len (g_tzname g) > 0 then JString (ub (g_tzname g)) else JNull),
         (''s'', JString source)])"

text \<open>The counter of the service that is asked.\<close>

definition count_service :: "('l, 'n) server \<Rightarrow> statistics" where
  "count_service s = (let st = stat_counts s in
     if api_provider s = ascii ''opencage'' then st\<lparr>opencage := opencage st + 1\<rparr>
     else st\<lparr>locationiq := locationiq st + 1\<rparr>)"

text \<open>The part of the handler behind a lookup that found nothing.\<close>

definition reverse_fresh ::
  "('l, 'n) libs \<Rightarrow> moment \<Rightarrow> double \<Rightarrow> double \<Rightarrow> byte list \<Rightarrow> geo_bufs \<Rightarrow> ('l, 'n) server \<Rightarrow> ('l, 'n) handled" where
  "reverse_fresh W M lat lon geohash g s =
     (let st = count_service s
      in c_bind (revgeo_getdata (lib_curl W) (apikey s) (api_provider s) lat lon g (geo_static s)) (\<lambda>((ok, g), gs).
         let s = s\<lparr>geo_static := gs, geo_texts := Some g\<rparr>
         in c_bind (if ok then
                      c_bind (address_record g) (\<lambda>address_obj.
                      c_bind (json_stringify address_obj (Some JSON_SPACE)) (\<lambda>js.
                      c_bind (db_put (lib_lmdb W) (the_db s) geohash js (records s)) (\<lambda>(_, l).
                        Inr (s\<lparr>stat_counts := st, records := l\<rparr>))))
                    else Inr (s\<lparr>stat_counts := st\<lparr>geofail := geofail st + 1\<rparr>\<rparr>)) (\<lambda>s.
            c_bind (fresh_address (if ok then ub (g_addr g) else ascii ''unknown address'') g (api_provider s)) (\<lambda>obj.
            c_bind (append_members json_mkobject [(''address'', obj)]) (\<lambda>json.
            c_bind (send_json M json) (\<lambda>a. Inr (a, s)))))))"

definition reverse_cached ::
  "moment \<Rightarrow> byte list \<Rightarrow> ('l, 'n) server \<Rightarrow> ('l, 'n) handled" where
  "reverse_cached M apbuf s =
     c_bind (stored_address apbuf) (\<lambda>obj.
     c_bind (append_members obj [(''s'', JString (ascii ''lmdb''))]) (\<lambda>obj.
     c_bind (append_members json_mkobject [(''address'', obj)]) (\<lambda>json.
     let st = stat_counts s; s = s\<lparr>stat_counts := st\<lparr>lmdb_hits := lmdb_hits st + 1\<rparr>\<rparr>
     in c_bind (send_json M json) (\<lambda>a. Inr (a, s)))))"

definition reverse_point ::
  "('l, 'n) libs \<Rightarrow> moment \<Rightarrow> double \<Rightarrow> double \<Rightarrow> ('l, 'n) server \<Rightarrow> ('l, 'n) handled" where
  "reverse_point W M lat lon s =
     c_bind (geohash_encode (m_heap M) lat lon GEOHASH_PRECISION) (\<lambda>h.
       case h of
         None \<Rightarrow> c_bind (send_page M (lit ''Cannot encode to geohash'') NOT_ACCEPTABLE) (\<lambda>a. Inr (a, s))
       | Some mem \<Rightarrow>
           c_bind (string_at mem) (\<lambda>geohash.
           c_bind (renew_texts (geo_texts s)) (\<lambda>g.
           c_bind (db_get (lib_lmdb W) (the_db s) geohash (m_stack M) (records s)) (\<lambda>((len, apbuf), l).
             let s = s\<lparr>geo_texts := Some g, records := l\<rparr>
             in if len > 0 then reverse_cached M apbuf s
                else reverse_fresh W M lat lon geohash g s))))"

definition get_reversegeo ::
  "('l, 'n) libs \<Rightarrow> moment \<Rightarrow> request \<Rightarrow> ('l, 'n) server \<Rightarrow> ('l, 'n) handled" where
  "get_reversegeo W M rq s =
     (let st = stat_counts s;
          s = s\<lparr>stat_counts := st\<lparr>requests := requests st + 1\<rparr>\<rparr>;
          s_app = rq_arg rq (ascii ''app'');
          s = (if s_app \<noteq> None \<and> s_app \<noteq> Some [] then s\<lparr>appcache := count_app (appcache s) (the s_app)\<rparr> else s);
          s_lat = rq_arg rq (ascii ''lat'');
          s_lon = rq_arg rq (ascii ''lon'')
      in if s_lat = None \<or> s_lon = None \<or> s_lat = Some [] \<or> s_lon = Some [] then
           c_bind (send_page M (lit ''One of lat or lon missing'') NOT_ACCEPTABLE) (\<lambda>a. Inr (a, s))
         else reverse_point W M (atof (the s_lat)) (atof (the s_lon)) s)"

section \<open>/dump\<close>

text \<open>\<open>data\<close> is the memory of the record; \<open>jarray\<close> is the global the callback appends to.\<close>

definition enumhelper :: "byte list \<Rightarrow> json visitor" where
  "enumhelper beyond key data jarray =
     (let glen = min (length key) 11;
          geohash = take glen key @ [0]
      in c_bind (geohash_decode beyond (Some geohash)) (\<lambda>g.
         c_bind (append_members json_mkobject
           [(''lat'', JNumber (latitude g)), (''lon'', JNumber (longitude g)),
            (''ghash'', JString (cstring geohash))]) (\<lambda>o1.
         c_bind (json_decode data) (\<lambda>j.
         c_bind (if j \<noteq> None then copy_strings j o1 elems else Inr o1) (\<lambda>o2.
         c_bind (json_append_element jarray o2) (\<lambda>jarray. Inr (0, jarray)))))))"

definition get_dumpall :: "('l, 'n) libs \<Rightarrow> moment \<Rightarrow> ('l, 'n) server \<Rightarrow> ('l, 'n) handled" where
  "get_dumpall W M s =
     c_bind (db_enum (lib_lmdb W) (the_db s) (enumhelper (m_beyond M)) json_mkarray (records s)) (\<lambda>((_, jarray), l).
     c_bind (json_stringify jarray (Some JSON_SPACE)) (\<lambda>js.
     c_bind (send_content M (js @ [0]) (ascii ''application/json'') MHD_HTTP_OK) (\<lambda>a.
       Inr (a, s\<lparr>records := l\<rparr>))))"

section \<open>/kill and /lookup\<close>

definition get_kill :: "('l, 'n) libs \<Rightarrow> moment \<Rightarrow> request \<Rightarrow> ('l, 'n) server \<Rightarrow> ('l, 'n) handled" where
  "get_kill W M rq s =
     (case rq_arg rq (ascii ''geohash'') of
        None \<Rightarrow> c_bind (send_page M (lit ''Missing geohash'') 422) (\<lambda>a. Inr (a, s))
      | Some geohash \<Rightarrow>
          if geohash = [] then c_bind (send_page M (lit ''Missing geohash'') 422) (\<lambda>a. Inr (a, s))
          else c_bind (db_del (lib_lmdb W) (the_db s) geohash (records s)) (\<lambda>(rc, l).
               c_bind (send_page M (if rc = 0 then lit ''deleted'' else lit ''Not deleted'')
                 (if rc = 0 then 200 else 404)) (\<lambda>a. Inr (a, s\<lparr>records := l\<rparr>))))"

definition get_lookup :: "('l, 'n) libs \<Rightarrow> moment \<Rightarrow> request \<Rightarrow> ('l, 'n) server \<Rightarrow> ('l, 'n) handled" where
  "get_lookup W M rq s =
     (case rq_arg rq (ascii ''geohash'') of
        None \<Rightarrow> c_bind (send_page M (lit ''Missing geohash'') 422) (\<lambda>a. Inr (a, s))
      | Some geohash \<Rightarrow>
          if geohash = [] then c_bind (send_page M (lit ''Missing geohash'') 422) (\<lambda>a. Inr (a, s))
          else c_bind (db_get (lib_lmdb W) (the_db s) geohash (m_stack M) (records s)) (\<lambda>((len, apbuf), l).
            let s = s\<lparr>records := l\<rparr>
            in if len < 0 then c_bind (send_page M (lit ''not found'') 404) (\<lambda>a. Inr (a, s))
               else c_bind (send_content M apbuf (ascii ''application/json'') MHD_HTTP_OK) (\<lambda>a. Inr (a, s))))"

section \<open>Dispatch\<close>

definition handle_connection ::
  "('l, 'n) libs \<Rightarrow> moment \<Rightarrow> request \<Rightarrow> ('l, 'n) server \<Rightarrow> ('l, 'n) handled" where
  "handle_connection W M rq s =
     (if rq_method rq \<noteq> ascii ''GET'' then c_bind (send_page M (lit ''not allowed'') 405) (\<lambda>a. Inr (a, s))
      else if rq_url rq = ascii ''/rev'' then get_reversegeo W M rq s
      else if rq_url rq = ascii ''/stats'' then get_stats W M s
      else if rq_url rq = ascii ''/dump'' then get_dumpall W M s
      else if rq_url rq = ascii ''/lookup'' then get_lookup W M rq s
      else if rq_url rq = ascii ''/kill'' then get_kill W M rq s
      else c_bind (send_page M (lit ''four-oh-four'') 404) (\<lambda>a. Inr (a, s)))"

section \<open>Start and end\<close>

text \<open>
  What the process does before it serves: it exits with a code, or it serves. The options are
  those that \<open>getopt\<close> reports, \<open>can_parse\<close> and \<open>can_listen\<close> say whether \<open>inet_pton\<close> and
  \<open>MHD_start_daemon\<close> succeed.
\<close>

datatype 'a startup = Exits int | Serves 'a

record ('l, 'n) surroundings =
  su_options :: "byte list"
  su_getenv :: "byte list \<Rightarrow> byte list option"
  su_can_parse :: "byte list \<Rightarrow> bool"
  su_can_listen :: "byte list \<Rightarrow> int \<Rightarrow> bool"
  su_time :: int
  su_listen_host :: "byte list"
  su_listen_port :: "byte list"
  su_database :: "byte list"
  su_records :: 'l
  su_network :: 'n

definition choose_api :: "(byte list \<Rightarrow> byte list option) \<Rightarrow> (byte list \<times> byte list) option" where
  "choose_api getenv = (case getenv (ascii ''OPENCAGE_APIKEY'') of
     Some key \<Rightarrow> Some (key, ascii ''opencage'')
   | None \<Rightarrow> (case getenv (ascii ''LOCATIONIQ_APIKEY'') of
       Some key \<Rightarrow> Some (key, ascii ''locationiq'')
     | None \<Rightarrow> None))"

text \<open>\<open>atoi\<close> for the port, whose value is then stored in 16 bits.\<close>

definition atoi :: "byte list \<Rightarrow> int" where
  "atoi s = (case read_sign (dropWhile isspace s) of (neg, t) \<Rightarrow>
     let n = int (nat_of_digits (takeWhile is_digit t)) in if neg then - n else n)"

definition start_server :: "('l, 'n) libs \<Rightarrow> ('l, 'n) surroundings \<Rightarrow> ('l, 'n) server startup cres" where
  "start_server W su =
     (let s_ip = (case su_getenv su (ascii ''REVGEO_IP'') of None \<Rightarrow> su_listen_host su | Some ip \<Rightarrow> ip);
          s_port = (case su_getenv su (ascii ''REVGEO_PORT'') of None \<Rightarrow> su_listen_port su | Some p \<Rightarrow> p);
          port = atoi s_port mod 65536
      in case su_options su of
           ch # _ \<Rightarrow> Inr (Exits (if ch = 0x76 then 0 else 2))
         | [] \<Rightarrow> (case choose_api (su_getenv su) of
             None \<Rightarrow> Inr (Exits 1)
           | Some (key, provider) \<Rightarrow>
               if \<not> su_can_parse su s_ip then Inr (Exits 2)
               else c_bind (db_open (lib_lmdb W) (su_database su) None False (su_records su)) (\<lambda>(db, l).
                 if db = None then Inr (Exits 1)
                 else if \<not> su_can_listen su s_ip port then Inr (Exits 1)
                 else Inr (Serves \<lparr>apikey = key, api_provider = provider, the_db = db, appcache = [],
                   stat_counts = \<lparr>launchtime = su_time su, requests = 0, geofail = 0, opencage = 0,
                     locationiq = 0, lmdb_hits = 0, stats = 0\<rparr>,
                   geo_texts = None,
                   geo_static = \<lparr>url_buf = None, curl_buf = None, network = su_network su\<rparr>,
                   records = l\<rparr>))))"

definition SIGINT :: int where "SIGINT = 2"

text \<open>The signal handler ends the process with code 1, or does nothing.\<close>

definition catcher :: "('l, 'n) libs \<Rightarrow> int \<Rightarrow> ('l, 'n) server \<Rightarrow> (int option \<times> ('l, 'n) server) cres" where
  "catcher W sig s =
     (if sig = SIGINT then
        c_bind (db_close (lib_lmdb W) (the_db s) (records s)) (\<lambda>l. Inr (Some 1, s\<lparr>records := l\<rparr>))
      else Inr (None, s))"

end
