(* ===== verification/Db_Store.thy ===== *)
theory Db_Store
  imports Db
begin

text \<open>
  What db.c promises its clients, and that it keeps the promise when LMDB keeps its own. The
  interface \<open>kv_store\<close> is a finite map from keys to records; \<open>open_store\<close> is a LMDB environment
  that \<open>db_open\<close> has opened, and the sublocale proof discharges the laws of the interface for
  \<open>db_get\<close>, \<open>db_put\<close>, \<open>db_del\<close> and \<open>db_enum\<close>.
\<close>

section \<open>The interface\<close>

text \<open>What a lookup with a record \<open>v\<close> leaves in the buffer and returns.\<close>

definition filled :: "byte list option \<Rightarrow> byte list \<Rightarrow> int \<times> byte list" where
  "filled r buf = (case r of None \<Rightarrow> (- 1, buf)
     | Some v \<Rightarrow> (int (min (length v) (length buf)), take (length buf) v @ drop (length v) buf))"

text \<open>The callback of an enumeration, run on a list of records until it asks to stop.\<close>

fun visit :: "'a visitor \<Rightarrow> (byte list \<times> byte list) list \<Rightarrow> 'a \<Rightarrow> 'a cres" where
  "visit func [] a = Inr a"
| "visit func ((k, v) # kvs) a =
     c_bind (func k v a) (\<lambda>(stop, a). if stop = 1 then Inr a else visit func kvs a)"

locale kv_store =
  fixes ready :: "'l \<Rightarrow> bool"
    and contents :: "'l \<Rightarrow> record_map"
    and get :: "byte list \<Rightarrow> byte list \<Rightarrow> ('l, int \<times> byte list) lmdb_call"
    and put :: "byte list \<Rightarrow> byte list \<Rightarrow> ('l, int) lmdb_call"
    and del :: "byte list \<Rightarrow> ('l, int) lmdb_call"
  assumes get_ok: "ready l \<Longrightarrow> contents l k = None \<or> valid_key k \<Longrightarrow>
      \<exists>l'. get k buf l = Inr (filled (contents l k) buf, l') \<and> ready l' \<and> contents l' = contents l"
    and put_ok: "ready l \<Longrightarrow> valid_key k \<Longrightarrow> s \<noteq> ascii ''DELETE'' \<Longrightarrow>
      \<exists>l'. put k s l = Inr (0, l') \<and> ready l' \<and> contents l' = (contents l)(k \<mapsto> s @ [0])"
    and del_ok: "ready l \<Longrightarrow> contents l k = None \<or> valid_key k \<Longrightarrow>
      \<exists>l'. del k l = Inr (if contents l k = None then 1 else 0, l') \<and> ready l'
        \<and> contents l' = (contents l)(k := None)"
    and put_delete: "put k (ascii ''DELETE'') l = del k l"
begin

lemma getE:
  assumes "ready l" and "contents l k = None \<or> valid_key k"
  obtains l' where "get k buf l = Inr (filled (contents l k) buf, l')" "ready l'"
    "contents l' = contents l"
  using get_ok [OF assms] by blast

lemma putE:
  assumes "ready l" and "valid_key k" and "s \<noteq> ascii ''DELETE''"
  obtains l' where "put k s l = Inr (0, l')" "ready l'" "contents l' = (contents l)(k \<mapsto> s @ [0])"
  using put_ok [OF assms] by blast

lemma delE:
  assumes "ready l" and "contents l k = None \<or> valid_key k"
  obtains l' where "del k l = Inr (if contents l k = None then 1 else 0, l')" "ready l'"
    "contents l' = (contents l)(k := None)"
  using del_ok [OF assms] by blast

text \<open>A lookup after an insert finds the string that was inserted, if the buffer is large enough.\<close>

lemma get_after_put:
  assumes "ready l" and "valid_key k" and "s \<noteq> ascii ''DELETE''" and "length s < length buf"
  shows "\<exists>l1 l2. put k s l = Inr (0, l1) \<and>
    get k buf l1 = Inr ((int (length s) + 1, s @ [0] @ drop (length s + 1) buf), l2)"
proof -
  obtain l1 where l1: "put k s l = Inr (0, l1)" "ready l1" "contents l1 = (contents l)(k \<mapsto> s @ [0])"
    using assms(1-3) by (rule putE)
  obtain l2 where "get k buf l1 = Inr (filled (contents l1 k) buf, l2)"
    using l1(2) assms(2) getE [of l1 k buf] by blast
  then show ?thesis using l1 assms(4) by (auto simp: filled_def)
qed

lemma get_after_put_other:
  assumes "ready l" and "valid_key k" and "s \<noteq> ascii ''DELETE''" and "k' \<noteq> k" and "valid_key k'"
  shows "\<exists>l1 l2. put k s l = Inr (0, l1) \<and> get k' buf l1 = Inr (filled (contents l k') buf, l2)"
proof -
  obtain l1 where l1: "put k s l = Inr (0, l1)" "ready l1" "contents l1 = (contents l)(k \<mapsto> s @ [0])"
    using assms(1-3) by (rule putE)
  obtain l2 where "get k' buf l1 = Inr (filled (contents l1 k') buf, l2)"
    using l1(2) assms(5) getE [of l1 k' buf] by blast
  then show ?thesis using l1 assms(4) by auto
qed

lemma get_after_del:
  assumes "ready l" and "contents l k = None \<or> valid_key k"
  shows "\<exists>rc l1 l2. del k l = Inr (rc, l1) \<and> get k buf l1 = Inr ((- 1, buf), l2)"
proof -
  obtain rc l1 where l1: "del k l = Inr (rc, l1)" "ready l1" "contents l1 = (contents l)(k := None)"
    using assms by (rule delE)
  obtain l2 where "get k buf l1 = Inr (filled (contents l1 k) buf, l2)"
    using l1(2,3) getE [of l1 k buf] by auto
  then show ?thesis using l1 by (auto simp: filled_def)
qed

end

section \<open>An open environment\<close>

locale open_store = lmdb_laws L disk env txn cursor healthy main
  for L :: "'l lmdb" and disk env txn cursor healthy main +
  fixes e :: nat and p :: "byte list"
begin

abbreviation is_ready :: "'l \<Rightarrow> bool" where
  "is_ready l \<equiv> healthy l \<and> env l e = Some (Opened p)"

abbreviation handle :: "db option" where
  "handle \<equiv> Some \<lparr>db_env = e, db_dbi = main\<rparr>"

lemma beginE:
  assumes "is_ready l"
  obtains t l' where "mdb_txn_begin L e fl l = Inr ((0, t), l')" "is_ready l'" "disk l' = disk l"
    "txn l' t = Some (p, disk l p)"
  using assms begin_law [of l e p fl] by auto

lemma commitE:
  assumes "is_ready l" and "txn l t = Some (p, m)"
  obtains l' where "mdb_txn_commit L t l = Inr (0, l')" "is_ready l'" "disk l' = (disk l)(p := m)"
  using assms commit_law [of l t p m] by auto

lemma db_get_ok:
  assumes "is_ready l" and "disk l p k = None \<or> valid_key k"
  shows "\<exists>l'. db_get L handle k buf l = Inr (filled (disk l p k) buf, l') \<and> is_ready l' \<and> disk l' = disk l"
proof -
  obtain t l1 where l1: "mdb_txn_begin L e MDB_RDONLY l = Inr ((0, t), l1)" "is_ready l1"
    "disk l1 = disk l" "txn l1 t = Some (p, disk l p)" using assms(1) by (rule beginE)
  have h: "healthy l1" using l1(2) by simp
  obtain rc v where g: "mdb_get L t main k l1 = Inr ((rc, v), l1)" "rc = 0 \<longrightarrow> disk l p k = Some v"
    "rc = MDB_NOTFOUND \<longrightarrow> disk l p k = None"
    "healthy l1 \<and> valid_key k \<longrightarrow> rc = 0 \<or> rc = MDB_NOTFOUND"
    using get_law [OF l1(4), of k] by (elim exE conjE) (rule that)
  have v: "if disk l p k = None then rc \<noteq> 0 else rc = 0 \<and> disk l p k = Some v"
    using g(2-4) assms(2) h by auto
  obtain l2 where "mdb_txn_commit L t l1 = Inr (0, l2)" "is_ready l2" "disk l2 = (disk l1)(p := disk l p)"
    using l1(2,4) by (rule commitE)
  then show ?thesis
    using l1 g(1) v
    by (auto simp: db_get_def filled_def Let_def min_def split: if_splits option.splits)
qed

lemma commit_or_abort_ok:
  assumes "is_ready l" and "txn l t = Some (p, m)"
  obtains l' where "commit_or_abort L t l = Inr (0, l')" "is_ready l'" "disk l' = (disk l)(p := m)"
proof -
  obtain l' where "mdb_txn_commit L t l = Inr (0, l')" "is_ready l'" "disk l' = (disk l)(p := m)"
    using assms by (rule commitE)
  then show ?thesis by (intro that [of l']) (simp_all add: commit_or_abort_def)
qed

lemma db_del_ok:
  assumes "is_ready l" and "disk l p k = None \<or> valid_key k"
  shows "\<exists>l'. db_del L handle k l = Inr (if disk l p k = None then 1 else 0, l') \<and> is_ready l'
    \<and> disk l' = (disk l)(p := (disk l p)(k := None))"
proof -
  obtain t l1 where l1: "mdb_txn_begin L e 0 l = Inr ((0, t), l1)" "is_ready l1"
    "disk l1 = disk l" "txn l1 t = Some (p, disk l p)" using assms(1) by (rule beginE)
  have h: "healthy l1" "env l1 e = Some (Opened p)" using l1(2) by simp_all
  obtain rc l2 where q: "mdb_del L t main k l1 = Inr (rc, l2)" "disk l2 = disk l1" "env l2 = env l1"
    "healthy l1 \<longrightarrow> healthy l2" "rc = 0 \<longrightarrow> k \<in> dom (disk l p)"
    "rc = MDB_NOTFOUND \<longrightarrow> k \<notin> dom (disk l p)"
    "healthy l1 \<and> valid_key k \<longrightarrow> rc = 0 \<or> rc = MDB_NOTFOUND"
    "txn l2 t = Some (p, if rc = 0 then (disk l p)(k := None) else disk l p)"
    using del_law [OF l1(4), of k] by (elim exE conjE) (rule that)
  have d: "mdb_del L t main k l1 = Inr (rc, l2)" "is_ready l2" "disk l2 = disk l1"
    "txn l2 t = Some (p, if rc = 0 then (disk l p)(k := None) else disk l p)"
    "rc = 0 \<longleftrightarrow> disk l p k \<noteq> None"
    using q h assms(2) by auto
  have "txn l2 t = Some (p, (disk l p)(k := None))" using d(4,5) by auto
  with d(2) obtain l3 where "commit_or_abort L t l2 = Inr (0, l3)" "is_ready l3"
    "disk l3 = (disk l2)(p := (disk l p)(k := None))" by (rule commit_or_abort_ok)
  then show ?thesis using l1 d by (auto simp: db_del_def)
qed

lemma db_put_ok:
  assumes "is_ready l" and "valid_key k" and "s \<noteq> ascii ''DELETE''"
  shows "\<exists>l'. db_put L handle k s l = Inr (0, l') \<and> is_ready l'
    \<and> disk l' = (disk l)(p := (disk l p)(k \<mapsto> s @ [0]))"
proof -
  obtain t l1 where l1: "mdb_txn_begin L e 0 l = Inr ((0, t), l1)" "is_ready l1"
    "disk l1 = disk l" "txn l1 t = Some (p, disk l p)" using assms(1) by (rule beginE)
  obtain l2 where d: "mdb_put L t main k (s @ [0]) 0 l1 = Inr (0, l2)" "is_ready l2" "disk l2 = disk l1"
    "txn l2 t = Some (p, (disk l p)(k \<mapsto> s @ [0]))"
    using put_law [OF l1(4), of k "s @ [0]"] l1(2) assms(2) by auto
  from d(2,4) obtain l3 where "commit_or_abort L t l2 = Inr (0, l3)" "is_ready l3"
    "disk l3 = (disk l2)(p := (disk l p)(k \<mapsto> s @ [0]))" by (rule commit_or_abort_ok)
  then show ?thesis using l1 d assms(3) by (auto simp: db_put_def)
qed

lemma enum_loop_visit:
  "is_ready l \<Longrightarrow> cursor l c = Some kvs \<Longrightarrow> txn l t = Some (p, m) \<Longrightarrow>
   (case visit func kvs a of
      Inl f \<Rightarrow> enum_loop L c func a l = Some (Inl f)
    | Inr a' \<Rightarrow> \<exists>l' kvs'. enum_loop L c func a l = Some (Inr (a', l')) \<and> is_ready l'
        \<and> disk l' = disk l \<and> txn l' t = Some (p, m) \<and> cursor l' c = Some kvs')"
proof (induction func kvs a arbitrary: l rule: visit.induct)
  case (1 func a)
  obtain rc kv l' where "mdb_cursor_get L c l = Inr ((rc, kv), l')" "rc \<noteq> 0" "disk l' = disk l"
    "env l' = env l" "txn l' = txn l" "healthy l \<longrightarrow> healthy l'" "cursor l' c = Some []"
    using cursor_end_law [OF 1(2)] by blast
  then show ?case using 1 by (subst enum_loop.simps) (auto split: prod.splits)
next
  case (2 func k v kvs a)
  obtain l1 where l1: "mdb_cursor_get L c l = Inr ((0, k, v), l1)" "disk l1 = disk l"
    "env l1 = env l" "txn l1 = txn l" "healthy l \<longrightarrow> healthy l1" "cursor l1 c = Some kvs"
    using cursor_next_law [OF "2.prems"(2)] by auto
  then have r: "is_ready l1" "txn l1 t = Some (p, m)" using "2.prems" by auto
  show ?case
  proof (cases "func k v a")
    case (Inl f)
    then show ?thesis using l1 by (subst enum_loop.simps) auto
  next
    case (Inr sa)
    obtain stop a1 where sa: "sa = (stop, a1)" by (cases sa)
    show ?thesis
    proof (cases "stop = 1")
      case True
      then show ?thesis using l1 Inr sa r by (subst enum_loop.simps) auto
    next
      case False
      then have "enum_loop L c func a l = enum_loop L c func a1 l1"
        using l1(1) Inr sa by (subst enum_loop.simps) simp
      then show ?thesis
        using "2.IH" [OF Inr [unfolded sa] refl False r(1) l1(6) r(2)] l1(2) Inr sa False
        by (cases "visit func kvs a1") simp_all
    qed
  qed
qed

lemma db_enum_ok:
  assumes "is_ready l"
  obtains kvs where "in_key_order kvs" "map_of kvs = disk l p"
    "case visit func kvs a of
       Inl f \<Rightarrow> db_enum L handle func a l = Inl f
     | Inr a' \<Rightarrow> \<exists>l'. db_enum L handle func a l = Inr ((0, a'), l') \<and> is_ready l' \<and> disk l' = disk l"
proof -
  obtain t l1 where l1: "mdb_txn_begin L e MDB_RDONLY l = Inr ((0, t), l1)" "is_ready l1"
    "disk l1 = disk l" "txn l1 t = Some (p, disk l p)" using assms(1) by (rule beginE)
  obtain c l2 kvs where c: "mdb_cursor_open L t main l1 = Inr ((0, c), l2)" "is_ready l2" "disk l2 = disk l1"
    "txn l2 t = Some (p, disk l p)" "cursor l2 c = Some kvs" "in_key_order kvs" "map_of kvs = disk l p"
    using cursor_open_law [OF l1(4)] l1(2) by fastforce
  note run = enum_loop_visit [OF c(2,5,4), of func a]
  have "case visit func kvs a of
       Inl f \<Rightarrow> db_enum L handle func a l = Inl f
     | Inr a' \<Rightarrow> \<exists>l'. db_enum L handle func a l = Inr ((0, a'), l') \<and> is_ready l' \<and> disk l' = disk l"
  proof (cases "visit func kvs a")
    case (Inl f)
    then show ?thesis using run l1(1) c(1) by (simp add: db_enum_def enum_all_def)
  next
    case (Inr a')
    with run obtain l3 kvs' where l3: "enum_loop L c func a l2 = Some (Inr (a', l3))" "is_ready l3"
      "disk l3 = disk l2" "txn l3 t = Some (p, disk l p)" "cursor l3 c = Some kvs'" by auto
    obtain l4 where l4: "mdb_cursor_close L c l3 = Inr l4" "is_ready l4" "disk l4 = disk l3"
      "txn l4 t = Some (p, disk l p)"
      using cursor_close_law [OF l3(5)] l3(2,4) by auto
    obtain l5 where "mdb_txn_commit L t l4 = Inr (0, l5)" "is_ready l5" "disk l5 = (disk l4)(p := disk l p)"
      using l4(2,4) by (rule commitE)
    then show ?thesis
      using Inr l1 c l3 l4 by (auto simp: db_enum_def enum_all_def fun_eq_iff)
  qed
  with c(6,7) show ?thesis by (rule that)
qed

lemma db_numentries_ok:
  assumes "is_ready l"
  shows "db_numentries L handle l = Inr (of_nat (card (dom (disk l p))), l)"
  using assms stat_law [of l e p] by (auto simp: db_numentries_def)

lemma db_getpath_ok: "is_ready l \<Longrightarrow> db_getpath L handle l = Inr (Some p, l)"
  using path_law [of l e p] by (auto simp: db_getpath_def)

end

sublocale open_store \<subseteq> store: kv_store is_ready "\<lambda>l. disk l p" "db_get L handle" "db_put L handle"
  "db_del L handle"
proof (unfold_locales, goal_cases)
  case (1 l k buf)
  then show ?case using db_get_ok [of l k buf] by auto
next
  case (2 l k s)
  then show ?case using db_put_ok [of l k s] by auto
next
  case (3 l k)
  then show ?case using db_del_ok [of l k] by auto
next
  case (4 k l)
  show ?case by (simp add: db_put_def)
qed

context open_store
begin

lemmas put_then_get = store.get_after_put
lemmas del_then_get = store.get_after_del
lemmas put_then_get_other = store.get_after_put_other

end

section \<open>Opening, errors\<close>

context lmdb_laws
begin

lemma db_open_ok:
  assumes "healthy l"
  obtains e l' where "db_open L p None rdonly l = Inr (Some \<lparr>db_env = e, db_dbi = main\<rparr>, l')"
    "healthy l'" "env l' e = Some (Opened p)" "disk l' = disk l"
proof -
  define fl where "fl = (if rdonly then MDB_NOTLS OR MDB_RDONLY else MDB_NOTLS)"
  define dfl where "dfl = (if rdonly then 0 else MDB_CREATE)"
  obtain e l1 where 1: "mdb_env_create L l = Inr ((0, e), l1)" "disk l1 = disk l" "healthy l1"
    "env l1 e = Some Created" using create_law [of l] assms by auto
  obtain rc l2 where 2: "mdb_env_set_mapsize L e LMDB_DB_SIZE l1 = Inr (rc, l2)" "disk l2 = disk l1"
    "healthy l2" "env l2 e = Some Created" using mapsize_law [OF 1(4), of LMDB_DB_SIZE] 1(3) by auto
  obtain l3 where 3: "mdb_env_set_maxdbs L e 10 l2 = Inr (0, l3)" "disk l3 = disk l2"
    "healthy l3" "env l3 e = Some Created" using maxdbs_law [OF 2(4), of 10] 2(3) by auto
  obtain l4 where 4: "mdb_env_open L e p fl 436 l3 = Inr (0, l4)" "disk l4 = disk l3"
    "healthy l4" "env l4 e = Some (Opened p)" using open_law [OF 3(4), of p fl 436] 3(3) by auto
  obtain t l5 where 5: "mdb_txn_begin L e fl l4 = Inr ((0, t), l5)" "disk l5 = disk l4" "env l5 = env l4"
    "healthy l5" "txn l5 t = Some (p, disk l4 p)" using begin_law [OF 4(4), of fl] 4(3) by auto
  obtain l6 where 6: "mdb_dbi_open L t None dfl l5 = Inr ((0, main), l6)" "disk l6 = disk l5"
    "env l6 = env l5" "healthy l6" "txn l6 t = Some (p, disk l4 p)"
    using dbi_law [OF 5(5), of dfl] 5(4) by auto
  obtain l7 where 7: "mdb_txn_commit L t l6 = Inr (0, l7)" "disk l7 = (disk l6)(p := disk l4 p)"
    "env l7 = env l6" "healthy l7" using commit_law [OF 6(5)] 6(4) by auto
  have "db_open L p None rdonly l = Inr (Some \<lparr>db_env = e, db_dbi = main\<rparr>, l7)"
    using 1(1) 2(1) 3(1) 4(1) 5(1) 6(1) 7(1) malloc_law [OF assms]
    by (simp add: db_open_def open_dbi_def fl_def dfl_def Let_def)
  then show ?thesis using 1 2 3 4 5 6 7 by (intro that [of e l7]) (auto simp: fun_eq_iff)
qed

lemma db_close_ok:
  assumes "healthy l" and "env l e = Some s"
  obtains l' where "db_close L (Some \<lparr>db_env = e, db_dbi = i\<rparr>) l = Inr l'" "healthy l'" "disk l' = disk l"
  using close_law [OF assms(2)] assms(1) by (auto simp: db_close_def)

text \<open>The handle of a transaction is gone after a commit, also after one that failed.\<close>

lemma commit_or_abort_failed:
  assumes "txn l t = Some (p, m)" and "mdb_txn_commit L t l = Inr (rc, l')" and "rc \<noteq> 0"
  shows "commit_or_abort L t l = Inl BadPointer"
  using commit_law [OF assms(1)] abort_dead_law [of l' t] assms(2,3) by (auto simp: commit_or_abort_def)

lemma put_commit_failed:
  assumes "env l e = Some (Opened p)" and "s \<noteq> ascii ''DELETE''"
    and "mdb_txn_begin L e 0 l = Inr ((0, t), l1)"
    and "mdb_put L t main k (s @ [0]) 0 l1 = Inr (rc, l2)"
    and "mdb_txn_commit L t l2 = Inr (crc, l3)" and "crc \<noteq> 0"
  shows "db_put L (Some \<lparr>db_env = e, db_dbi = main\<rparr>) k s l = Inl BadPointer"
proof -
  have t: "txn l1 t = Some (p, disk l p)" using begin_law [OF assms(1), of 0] assms(3) by auto
  then obtain m where "txn l2 t = Some (p, m)" using put_law [OF t, of k "s @ [0]"] assms(4) by auto
  from commit_or_abort_failed [OF this assms(5,6)] show ?thesis
    using assms(2,3,4) by (simp add: db_put_def)
qed

lemma put_not_stored:
  assumes "healthy l" and "env l e = Some (Opened p)" and "\<not> valid_key k" and "s \<noteq> ascii ''DELETE''"
  shows "\<exists>l'. db_put L (Some \<lparr>db_env = e, db_dbi = main\<rparr>) k s l = Inr (0, l') \<and> disk l' = disk l"
proof -
  obtain t l1 where l1: "mdb_txn_begin L e 0 l = Inr ((0, t), l1)" "disk l1 = disk l" "healthy l1"
    "txn l1 t = Some (p, disk l p)" using begin_law [OF assms(2), of 0] assms(1) by auto
  obtain rc l2 where l2: "mdb_put L t main k (s @ [0]) 0 l1 = Inr (rc, l2)" "disk l2 = disk l1"
    "healthy l2" "txn l2 t = Some (p, disk l p)"
    using put_law [OF l1(4), of k "s @ [0]"] l1(3) assms(3) by auto
  obtain l3 where "mdb_txn_commit L t l2 = Inr (0, l3)" "disk l3 = (disk l2)(p := disk l p)"
    using commit_law [OF l2(4)] l2(3) by auto
  then show ?thesis using l1 l2 assms(4) by (auto simp: db_put_def commit_or_abort_def fun_eq_iff)
qed

end

section \<open>Dumping and loading\<close>

text \<open>
  The records that survive a dump: one line holds them, and the first blank of the line is the
  one behind the key.
\<close>

definition line_safe :: "byte list \<times> byte list \<Rightarrow> bool" where
  "line_safe kv \<longleftrightarrow> (\<exists>s. snd kv = s @ [0] \<and> valid_key (fst kv) \<and> s \<noteq> ascii ''DELETE''
     \<and> set (fst kv) \<inter> {0, 0x0A, 0x0D, 0x20} = {} \<and> set s \<inter> {0, 0x0A, 0x0D} = {}
     \<and> length (fst kv) + length s + 2 < 8192)"

definition dumped :: "byte list \<times> byte list \<Rightarrow> byte list" where
  "dumped kv = fst kv @ 0x20 # butlast (snd kv) @ [0x0A]"

lemma line_safeE:
  assumes "line_safe kv"
  obtains k s where "kv = (k, s @ [0])" "valid_key k" "s \<noteq> ascii ''DELETE''"
    "\<forall>c \<in> set k. c \<noteq> 0 \<and> c \<noteq> 0x0A \<and> c \<noteq> 0x0D \<and> c \<noteq> 0x20"
    "\<forall>c \<in> set s. c \<noteq> 0 \<and> c \<noteq> 0x0A \<and> c \<noteq> 0x0D" "length k + length s + 2 < 8192"
    "dumped kv = k @ 0x20 # s @ [0x0A]"
  using assms by (cases kv) (fastforce simp: line_safe_def dumped_def)

lemma cstring_id: "\<forall>c \<in> set s. c \<noteq> 0 \<Longrightarrow> cstring s = s"
  by (simp add: cstring_def)

lemma dump_line_safe: "line_safe kv \<Longrightarrow> dump_line (fst kv) (snd kv) out = Inr (0, out @ dumped kv)"
  by (erule line_safeE) (auto simp: dump_line_def fmt_str_def Let_def cstring_id)

lemma visit_dump: "\<forall>kv \<in> set kvs. line_safe kv \<Longrightarrow>
    visit dump_line kvs out = Inr (out @ concat (map dumped kvs))"
  by (induction dump_line kvs out rule: visit.induct) (auto simp: dump_line_safe [of "(_, _)", simplified])

lemma load_line_dumped:
  assumes "line_safe kv"
  shows "load_line L db (dumped kv) l
    = c_bind (db_put L db (fst kv) (butlast (snd kv)) l) (\<lambda>(_, l). Inr l)"
proof -
  obtain k s where ks: "kv = (k, s @ [0])" "\<forall>c \<in> set k. c \<noteq> 0 \<and> c \<noteq> 0x0A \<and> c \<noteq> 0x0D \<and> c \<noteq> 0x20"
    "\<forall>c \<in> set s. c \<noteq> 0 \<and> c \<noteq> 0x0A \<and> c \<noteq> 0x0D" "dumped kv = (k @ 0x20 # s) @ [0x0A]"
    using assms by (rule line_safeE) simp
  have "cstring (dumped kv) = dumped kv" using ks(2-4) by (intro cstring_id) auto
  moreover have "cut_at 0x0D (dumped kv) = dumped kv"
    using ks(2-4) unfolding cut_at_def by (subst takeWhile_eq_all_conv) auto
  moreover have "cut_at 0x0A (dumped kv) = k @ 0x20 # s"
    unfolding ks(4) cut_at_def using ks(2,3) by (subst takeWhile_line) auto
  moreover have "cut_at 0x20 (k @ 0x20 # s) = k"
    using ks(2) by (simp add: cut_at_def takeWhile_line)
  ultimately show ?thesis by (simp add: load_line_def ks(1))
qed

lemma load_loop_line:
  assumes "line_safe kv"
  shows "load_loop L db (dumped kv @ inp) l = c_bind (db_put L db (fst kv) (butlast (snd kv)) l)
    (\<lambda>(_, l). load_loop L db inp l)"
proof -
  obtain k s where ks: "dumped kv = (k @ 0x20 # s) @ [0x0A]" "\<forall>c \<in> set (k @ 0x20 # s). c \<noteq> 0x0A"
    "length (k @ 0x20 # s) + 1 < 8192"
    using assms by (rule line_safeE) auto
  have len: "fgets_len 8192 (dumped kv @ inp) = length (dumped kv)"
    using fgets_line [OF ks(2,3)] by (simp add: ks(1))
  have "dumped kv \<noteq> []" using ks(1) by simp
  then have "load_loop L db (dumped kv @ inp) l
      = c_bind (load_line L db (dumped kv) l) (load_loop L db inp)"
    by (subst load_loop.simps) (simp add: len)
  then show ?thesis by (simp add: load_line_dumped [OF assms] c_bind_assoc case_prod_unfold)
qed

lemma map_add_fresh: "k \<notin> dom m' \<Longrightarrow> m(k \<mapsto> v) ++ m' = (m ++ m')(k \<mapsto> v)"
  by (auto simp: fun_eq_iff map_add_def split: option.splits)

context open_store
begin

lemma load_lines:
  "is_ready l \<Longrightarrow> \<forall>kv \<in> set kvs. line_safe kv \<Longrightarrow> in_key_order kvs \<Longrightarrow>
   \<exists>l'. load_loop L handle (concat (map dumped kvs)) l = Inr l' \<and> is_ready l'
     \<and> disk l' = (disk l)(p := disk l p ++ map_of kvs)"
proof (induction kvs arbitrary: l)
  case Nil
  then show ?case by (simp add: load_loop.simps)
next
  case (Cons kv kvs)
  obtain k s where kv: "kv = (k, s @ [0])" "valid_key k" "s \<noteq> ascii ''DELETE''"
    using Cons.prems(2) line_safeE [of kv] by (metis list.set_intros(1))
  obtain l1 where l1: "db_put L handle k s l = Inr (0, l1)" "is_ready l1"
    "disk l1 = (disk l)(p := (disk l p)(k \<mapsto> s @ [0]))" using db_put_ok [OF Cons.prems(1) kv(2,3)] by auto
  obtain l2 where l2: "load_loop L handle (concat (map dumped kvs)) l1 = Inr l2" "is_ready l2"
    "disk l2 = (disk l1)(p := disk l1 p ++ map_of kvs)"
    using Cons.IH [OF l1(2)] Cons.prems(2,3) by (metis in_key_order_simps(2) list.set_intros(2))
  have "k \<notin> dom (map_of kvs)"
    using Cons.prems(3) by (auto simp: kv(1) dom_map_of_conv_image_fst)
  then have "(disk l p)(k \<mapsto> s @ [0]) ++ map_of kvs = disk l p ++ map_of (kv # kvs)"
    by (simp add: kv(1) map_add_fresh)
  then have "disk l2 = (disk l)(p := disk l p ++ map_of (kv # kvs))"
    by (simp add: l2(3) l1(3))
  moreover have "load_loop L handle (concat (map dumped (kv # kvs))) l = Inr l2"
    using load_loop_line [of kv L handle "concat (map dumped kvs)" l] Cons.prems(2) l1(1) l2(1)
    by (simp add: kv(1))
  ultimately show ?case using l2(2) by blast
qed

lemma list_records_ok:
  assumes "is_ready l"
  obtains t c l1 l2 kvs where "mdb_txn_begin L e MDB_RDONLY l = Inr ((0, t), l1)"
    "mdb_cursor_open L t main l1 = Inr ((0, c), l2)" "is_ready l2" "disk l2 = disk l"
    "cursor l2 c = Some kvs" "txn l2 t = Some (p, disk l p)" "in_key_order kvs" "map_of kvs = disk l p"
proof -
  obtain t l1 where l1: "mdb_txn_begin L e MDB_RDONLY l = Inr ((0, t), l1)" "is_ready l1"
    "disk l1 = disk l" "txn l1 t = Some (p, disk l p)" using assms(1) by (rule beginE)
  obtain c l2 kvs where "mdb_cursor_open L t main l1 = Inr ((0, c), l2)" "is_ready l2" "disk l2 = disk l1"
    "txn l2 t = Some (p, disk l p)" "cursor l2 c = Some kvs" "in_key_order kvs" "map_of kvs = disk l p"
    using cursor_open_law [OF l1(4)] l1(2) by fastforce
  with l1 show ?thesis by (intro that [of t l1 c l2 kvs]) simp_all
qed

lemma scan_ok:
  assumes "is_ready l" and "cursor l c = Some kvs" and "txn l t = Some (p, disk l p)"
    and "visit func kvs a = Inr a'"
  obtains l1 l2 l3 where "enum_all L c func a l = Inr (a', l1)" "mdb_cursor_close L c l1 = Inr l2"
    "mdb_txn_commit L t l2 = Inr (0, l3)" "is_ready l3" "disk l3 = disk l"
proof -
  obtain l1 kvs' where l1: "enum_loop L c func a l = Some (Inr (a', l1))" "is_ready l1"
    "disk l1 = disk l" "txn l1 t = Some (p, disk l p)" "cursor l1 c = Some kvs'"
    using enum_loop_visit [OF assms(1-3), of func a] assms(4) by auto
  obtain l2 where l2: "mdb_cursor_close L c l1 = Inr l2" "is_ready l2" "disk l2 = disk l1"
    "txn l2 t = Some (p, disk l p)"
    using cursor_close_law [OF l1(5)] l1(2,4) by auto
  obtain l3 where "mdb_txn_commit L t l2 = Inr (0, l3)" "is_ready l3" "disk l3 = (disk l2)(p := disk l p)"
    using l2(2,4) by (rule commitE)
  with l1 l2 show ?thesis by (intro that [of l1 l2 l3]) (auto simp: enum_all_def)
qed

end

context lmdb_laws
begin

lemma db_list_ok:
  assumes "healthy l"
  obtains kvs where "in_key_order kvs" "map_of kvs = disk l p"
    "\<And>a'. visit func kvs a = Inr a' \<Longrightarrow>
       \<exists>l'. db_list L p None func a l = Inr (a', l') \<and> healthy l' \<and> disk l' = disk l"
proof -
  obtain e l1 where l1: "db_open L p None True l = Inr (Some \<lparr>db_env = e, db_dbi = main\<rparr>, l1)"
    "healthy l1" "env l1 e = Some (Opened p)" "disk l1 = disk l" using assms by (rule db_open_ok)
  note store = open_store.intro [OF lmdb_laws_axioms]
  obtain t l2 c l3 kvs where k: "mdb_txn_begin L e MDB_RDONLY l1 = Inr ((0, t), l2)"
    "mdb_cursor_open L t main l2 = Inr ((0, c), l3)" "healthy l3 \<and> env l3 e = Some (Opened p)"
    "disk l3 = disk l1" "cursor l3 c = Some kvs" "txn l3 t = Some (p, disk l1 p)"
    "in_key_order kvs" "map_of kvs = disk l1 p"
    by (rule open_store.list_records_ok [OF store conjI [OF l1(2,3)]])
  show ?thesis
  proof (rule that [OF k(7)])
    show "map_of kvs = disk l p" by (simp add: k(8) l1(4))
    fix a' assume v: "visit func kvs a = Inr a'"
    have x: "txn l3 t = Some (p, disk l3 p)" using k(4,6) by simp
    obtain l4 l5 l6 where s: "enum_all L c func a l3 = Inr (a', l4)" "mdb_cursor_close L c l4 = Inr l5"
      "mdb_txn_commit L t l5 = Inr (0, l6)" "healthy l6 \<and> env l6 e = Some (Opened p)" "disk l6 = disk l3"
      by (rule open_store.scan_ok [OF store k(3,5) x v])
    obtain l7 where "db_close L (Some \<lparr>db_env = e, db_dbi = main\<rparr>) l6 = Inr l7" "healthy l7" "disk l7 = disk l6"
      by (rule db_close_ok [OF conjunct1 [OF s(4)] conjunct2 [OF s(4)]])
    then show "\<exists>l'. db_list L p None func a l = Inr (a', l') \<and> healthy l' \<and> disk l' = disk l"
      using l1 k s by (simp add: db_list_def)
  qed
qed

lemma dump_load:
  assumes "healthy l" and "\<forall>k v. disk l p k = Some v \<longrightarrow> line_safe (k, v)"
  shows "\<exists>out l1 l2. db_dump L p None [] l = Inr (out, l1) \<and> db_load L q None out l1 = Inr l2
    \<and> disk l2 = (disk l)(q := disk l q ++ disk l p)"
proof -
  obtain kvs where kvs: "in_key_order kvs" "map_of kvs = disk l p"
    "\<And>a'. visit dump_line kvs [] = Inr a' \<Longrightarrow>
       \<exists>l'. db_list L p None dump_line [] l = Inr (a', l') \<and> healthy l' \<and> disk l' = disk l"
    using assms(1) by (rule db_list_ok) blast
  have safe: "\<forall>kv \<in> set kvs. line_safe kv"
    using assms(2) kvs(2) map_of_is_SomeI [OF in_key_order_distinct [OF kvs(1)]] by fastforce
  obtain l1 where l1: "db_dump L p None [] l = Inr (concat (map dumped kvs), l1)" "healthy l1" "disk l1 = disk l"
    using kvs(3) [OF visit_dump [OF safe]] by (auto simp: db_dump_def)
  obtain e l2 where l2: "db_open L q None False l1 = Inr (Some \<lparr>db_env = e, db_dbi = main\<rparr>, l2)"
    "healthy l2" "env l2 e = Some (Opened q)" "disk l2 = disk l1" using l1(2) by (rule db_open_ok)
  obtain l3 where l3: "load_loop L (Some \<lparr>db_env = e, db_dbi = main\<rparr>) (concat (map dumped kvs)) l2 = Inr l3"
    "healthy l3" "env l3 e = Some (Opened q)" "disk l3 = (disk l2)(q := disk l2 q ++ map_of kvs)"
    using open_store.load_lines [OF open_store.intro [OF lmdb_laws_axioms], of l2 e q kvs] l2(2,3) safe kvs(1)
    by auto
  obtain l4 where l4: "db_close L (Some \<lparr>db_env = e, db_dbi = main\<rparr>) l3 = Inr l4" "disk l4 = disk l3"
    using l3(2,3) by (rule db_close_ok)
  have "db_load L q None (concat (map dumped kvs)) l1 = Inr l4"
    using l2(1) l3(1) l4(1) by (simp add: db_load_def)
  then show ?thesis using l1 l2(4) l3(4) l4(2) kvs(2) by auto
qed

lemma put_close_open_get:
  assumes "healthy l" and "valid_key k" and "s \<noteq> ascii ''DELETE''" and "length s < length buf"
  shows "\<exists>db l1 l2 l3 db' l4 l5. db_open L p None False l = Inr (db, l1) \<and> db_put L db k s l1 = Inr (0, l2)
    \<and> db_close L db l2 = Inr l3 \<and> db_open L p None rdonly l3 = Inr (db', l4)
    \<and> db_get L db' k buf l4 = Inr ((int (length s) + 1, s @ [0] @ drop (length s + 1) buf), l5)"
proof -
  note store = open_store.intro [OF lmdb_laws_axioms]
  obtain e l1 where l1: "db_open L p None False l = Inr (Some \<lparr>db_env = e, db_dbi = main\<rparr>, l1)"
    "healthy l1" "env l1 e = Some (Opened p)" using assms(1) by (rule db_open_ok)
  obtain l2 where l2: "db_put L (Some \<lparr>db_env = e, db_dbi = main\<rparr>) k s l1 = Inr (0, l2)" "healthy l2"
    "env l2 e = Some (Opened p)" "disk l2 = (disk l1)(p := (disk l1 p)(k \<mapsto> s @ [0]))"
    using open_store.db_put_ok [OF store, of l1 e p k s] l1(2,3) assms(2,3) by auto
  obtain l3 where l3: "db_close L (Some \<lparr>db_env = e, db_dbi = main\<rparr>) l2 = Inr l3" "healthy l3" "disk l3 = disk l2"
    using l2(2,3) by (rule db_close_ok)
  obtain e' l4 where l4: "db_open L p None rdonly l3 = Inr (Some \<lparr>db_env = e', db_dbi = main\<rparr>, l4)"
    "healthy l4" "env l4 e' = Some (Opened p)" "disk l4 = disk l3" using l3(2) by (rule db_open_ok)
  obtain l5 where "db_get L (Some \<lparr>db_env = e', db_dbi = main\<rparr>) k buf l4 = Inr (filled (disk l4 p k) buf, l5)"
    using open_store.db_get_ok [OF store, of l4 e' p k buf] l4(2,3) assms(2) by auto
  moreover have "filled (disk l4 p k) buf = (int (length s) + 1, s @ [0] @ drop (length s + 1) buf)"
    using assms(4) by (simp add: filled_def l4(4) l3(3) l2(4))
  ultimately show ?thesis using l1(1) l2(1) l3(1) l4(1) by auto
qed

end

section \<open>What holds of db.c\<close>

text \<open>The store in memory, opened at a path.\<close>

definition mem_opened :: "byte list \<Rightarrow> mem" where
  "mem_opened p = mem_empty\<lparr>mem_env := Some (Opened p)\<rparr>"

lemma mem_opened_ok [simp]:
  "mem_healthy (mem_opened p)" "mem_env_view (mem_opened p) 1 = Some (Opened p)"
  by (simp_all add: mem_opened_def mem_empty_def mem_views)

interpretation mem_store: open_store mem_lmdb mem_disk_view mem_env_view mem_txn_view
  mem_cursor_view mem_healthy 1 1 "ascii ''geocache''"
  by unfold_locales

text \<open>A lookup after an insert fills the buffer with the string and its zero and returns their
  number; the lookup of another key is answered as before.\<close>

theorem db_get_after_put:
  assumes "lmdb_laws L disk env txn cursor healthy main"
    and "healthy l" and "env l e = Some (Opened p)"
    and "valid_key k" and "s \<noteq> ascii ''DELETE''" and "length s < length buf"
  shows "\<exists>l1 l2. db_put L (Some \<lparr>db_env = e, db_dbi = main\<rparr>) k s l = Inr (0, l1)
    \<and> db_get L (Some \<lparr>db_env = e, db_dbi = main\<rparr>) k buf l1
        = Inr ((int (length s) + 1, s @ [0] @ drop (length s + 1) buf), l2)"
  using open_store.put_then_get [OF open_store.intro, OF assms(1), of l e p] assms(2-6) by simp

theorem db_get_after_put_witness:
  "\<exists>l1 l2. db_put mem_lmdb (Some \<lparr>db_env = 1, db_dbi = 1\<rparr>) (ascii ''u0y'') (ascii ''Paris'')
      (mem_opened (ascii ''geocache'')) = Inr (0, l1)
    \<and> db_get mem_lmdb (Some \<lparr>db_env = 1, db_dbi = 1\<rparr>) (ascii ''u0y'') (replicate 8 7) l1
        = Inr ((int (length (ascii ''Paris'')) + 1,
            ascii ''Paris'' @ [0] @ drop (length (ascii ''Paris'') + 1) (replicate 8 7)), l2)"
  by (rule db_get_after_put [OF mem.lmdb_laws_axioms mem_opened_ok]) code_simp+

text \<open>C26: closing the database and opening it again keeps the records: what was stored before is
  found after.\<close>

theorem db_persists:
  assumes "lmdb_laws L disk env txn cursor healthy main"
    and "healthy l" and "valid_key k" and "s \<noteq> ascii ''DELETE''" and "length s < length buf"
  shows "\<exists>db l1 l2 l3 db' l4 l5. db_open L p None False l = Inr (db, l1) \<and> db_put L db k s l1 = Inr (0, l2)
    \<and> db_close L db l2 = Inr l3 \<and> db_open L p None rdonly l3 = Inr (db', l4)
    \<and> db_get L db' k buf l4 = Inr ((int (length s) + 1, s @ [0] @ drop (length s + 1) buf), l5)"
  using assms by (rule lmdb_laws.put_close_open_get)

lemma mem_empty_healthy [simp]: "mem_healthy mem_empty"
  by (simp add: mem_empty_def mem_views)

theorem db_persists_witness:
  "\<exists>db l1 l2 l3 db' l4 l5. db_open mem_lmdb (ascii ''d'') None False mem_empty = Inr (db, l1)
    \<and> db_put mem_lmdb db (ascii ''u0y'') (ascii ''Paris'') l1 = Inr (0, l2)
    \<and> db_close mem_lmdb db l2 = Inr l3 \<and> db_open mem_lmdb (ascii ''d'') None True l3 = Inr (db', l4)
    \<and> db_get mem_lmdb db' (ascii ''u0y'') (replicate 8 7) l4
        = Inr ((int (length (ascii ''Paris'')) + 1,
            ascii ''Paris'' @ [0] @ drop (length (ascii ''Paris'') + 1) (replicate 8 7)), l5)"
  by (rule db_persists [OF mem.lmdb_laws_axioms mem_empty_healthy]) code_simp+

text \<open>C27: \<open>db_enum\<close> runs its callback on every record once, in the order of the keys, until the callback
  asks to stop, and changes no record.\<close>

theorem db_enum_in_key_order:
  assumes "lmdb_laws L disk env txn cursor healthy main"
    and "healthy l" and "env l e = Some (Opened p)"
  shows "\<exists>kvs. in_key_order kvs \<and> map_of kvs = disk l p \<and>
    (case visit func kvs a of
       Inl f \<Rightarrow> db_enum L (Some \<lparr>db_env = e, db_dbi = main\<rparr>) func a l = Inl f
     | Inr a' \<Rightarrow> \<exists>l'. db_enum L (Some \<lparr>db_env = e, db_dbi = main\<rparr>) func a l = Inr ((0, a'), l')
         \<and> disk l' = disk l)"
proof -
  have ready: "healthy l \<and> env l e = Some (Opened p)" using assms(2,3) ..
  show ?thesis
  proof (rule open_store.db_enum_ok [OF open_store.intro [OF assms(1)] ready, of func a])
    fix kvs
    assume k: "in_key_order kvs" "map_of kvs = disk l p"
      "case visit func kvs a of
         Inl f \<Rightarrow> db_enum L (Some \<lparr>db_env = e, db_dbi = main\<rparr>) func a l = Inl f
       | Inr a' \<Rightarrow> \<exists>l'. db_enum L (Some \<lparr>db_env = e, db_dbi = main\<rparr>) func a l = Inr ((0, a'), l')
           \<and> (healthy l' \<and> env l' e = Some (Opened p)) \<and> disk l' = disk l"
    then show ?thesis
      by (intro exI [of _ kvs] conjI k(1,2)) (cases "visit func kvs a"; auto)
  qed
qed

theorem db_enum_in_key_order_witness:
  "\<exists>kvs. in_key_order kvs \<and> map_of kvs = mem_disk_view (mem_opened (ascii ''d'')) (ascii ''d'') \<and>
    (case visit dump_line kvs [] of
       Inl f \<Rightarrow> db_enum mem_lmdb (Some \<lparr>db_env = 1, db_dbi = 1\<rparr>) dump_line [] (mem_opened (ascii ''d'')) = Inl f
     | Inr a' \<Rightarrow> \<exists>l'. db_enum mem_lmdb (Some \<lparr>db_env = 1, db_dbi = 1\<rparr>) dump_line [] (mem_opened (ascii ''d''))
           = Inr ((0, a'), l')
         \<and> mem_disk_view l' = mem_disk_view (mem_opened (ascii ''d'')))"
  by (rule db_enum_in_key_order [OF mem.lmdb_laws_axioms mem_opened_ok])


definition mem_paris :: mem where
  "mem_paris = mem_empty\<lparr>mem_disk := [(ascii ''d'', [(ascii ''u09'', ascii ''Paris'' @ [0])])]\<rparr>"


text \<open>When a commit fails, \<open>db_put\<close> goes on to abort the transaction, whose handle \<open>mdb_txn_commit\<close> has
  freed: the call works on a dead pointer instead of reporting the error.\<close>

theorem db_put_commit_failure:
  assumes "lmdb_laws L disk env txn cursor healthy main"
    and "env l e = Some (Opened p)" and "s \<noteq> ascii ''DELETE''"
    and "mdb_txn_begin L e 0 l = Inr ((0, t), l1)"
    and "mdb_put L t main k (s @ [0]) 0 l1 = Inr (rc, l2)"
    and "mdb_txn_commit L t l2 = Inr (crc, l3)" and "crc \<noteq> 0"
  shows "db_put L (Some \<lparr>db_env = e, db_dbi = main\<rparr>) k s l = Inl BadPointer"
  using assms by (rule lmdb_laws.put_commit_failed)

definition mem_failing :: mem where
  "mem_failing = (mem_opened (ascii ''d''))\<lparr>mem_full := True\<rparr>"

theorem db_put_commit_failure_witness:
  "db_put mem_lmdb (Some \<lparr>db_env = 1, db_dbi = 1\<rparr>) (ascii ''u0y'') (ascii ''Paris'') mem_failing = Inl BadPointer"
proof -
  let ?l1 = "mem_failing\<lparr>mem_txn := Some (ascii ''d'', [])\<rparr>"
  let ?l2 = "mem_failing\<lparr>mem_txn := Some (ascii ''d'', [(ascii ''u0y'', ascii ''Paris'' @ [0])])\<rparr>"
  have key: "valid_key (ascii ''u0y'')" by code_simp
  show ?thesis
  proof (rule db_put_commit_failure [OF mem.lmdb_laws_axioms])
    show "mem_env_view mem_failing 1 = Some (Opened (ascii ''d''))"
      by (simp add: mem_failing_def mem_opened_def mem_env_view_def)
    show "ascii ''Paris'' \<noteq> ascii ''DELETE''" by code_simp
    show "mdb_txn_begin mem_lmdb 1 0 mem_failing = Inr ((0, 2), ?l1)"
      by (simp add: mem_lmdb_def mem_failing_def mem_opened_def mem_empty_def mem_path_def disk_of_def)
    show "mdb_put mem_lmdb 2 1 (ascii ''u0y'') (ascii ''Paris'' @ [0]) 0 ?l1 = Inr (0, ?l2)"
      by (simp add: mem_lmdb_def key mem_set_def mem_records_def)
    show "mdb_txn_commit mem_lmdb 2 ?l2 = Inr (28, ?l2\<lparr>mem_txn := None\<rparr>)"
      by (simp add: mem_lmdb_def mem_commit_def mem_failing_def)
    show "(28 :: int) \<noteq> 0" by simp
  qed
qed

text \<open>A record that LMDB refuses because of its key is not stored, but \<open>db_put\<close> reports success: the
  result of \<open>mdb_put\<close> is overwritten by that of the commit.\<close>

theorem db_put_refused_key:
  assumes "lmdb_laws L disk env txn cursor healthy main"
    and "healthy l" and "env l e = Some (Opened p)" and "\<not> valid_key k" and "s \<noteq> ascii ''DELETE''"
  shows "\<exists>l'. db_put L (Some \<lparr>db_env = e, db_dbi = main\<rparr>) k s l = Inr (0, l') \<and> disk l' = disk l"
  using assms by (rule lmdb_laws.put_not_stored)

theorem db_put_refused_key_witness:
  "\<exists>l'. db_put mem_lmdb (Some \<lparr>db_env = 1, db_dbi = 1\<rparr>) [] (ascii ''Paris'') (mem_opened (ascii ''d'')) = Inr (0, l')
    \<and> mem_disk_view l' = mem_disk_view (mem_opened (ascii ''d''))"
  by (rule db_put_refused_key [OF mem.lmdb_laws_axioms mem_opened_ok]) code_simp+

end
