(* ===== verification/Geo_Answers.thy ===== *)
theory Geo_Answers
  imports Geo
begin

text \<open>
  What the two services' answers mean to the program, as a function from the JSON value to the
  five texts, and the proof that the decoders of geo.c compute it: on every answer, except those
  of OpenCage whose time zone has a name that is not a string.
\<close>

section \<open>The texts of an answer\<close>

record texts =
  t_addr :: "byte list"
  t_rawdata :: "byte list"
  t_locality :: "byte list"
  t_cc :: "byte list"
  t_tzname :: "byte list"

definition no_texts :: texts where
  "no_texts = \<lparr>t_addr = [], t_rawdata = [], t_locality = [], t_cc = [], t_tzname = []\<rparr>"

definition text_of :: "json option \<Rightarrow> byte list" where
  "text_of j = (case j of Some (JString s) \<Rightarrow> s | _ \<Rightarrow> [])"

abbreviation sub :: "json option \<Rightarrow> string \<Rightarrow> json option" where
  "sub j k \<equiv> json_find_member j (ascii k)"

definition upper :: "byte list \<Rightarrow> byte list" where
  "upper s = map toupper s"

definition zeroth :: "json \<Rightarrow> json option" where
  "zeroth j = json_find_element (sub (Some j) ''results'') 0"

definition timezone_name :: "json \<Rightarrow> json option" where
  "timezone_name j = sub (sub (sub (zeroth j) ''annotations'') ''timezone'') ''name''"

definition opencage_texts :: "json \<Rightarrow> texts" where
  "opencage_texts j = \<lparr>
     t_addr = text_of (sub (zeroth j) ''formatted''),
     t_rawdata = (case sub (Some j) ''results'' of None \<Rightarrow> [] | Some r \<Rightarrow> json_text r None),
     t_locality = text_of (sub (sub (zeroth j) ''components'') ''city''),
     t_cc = upper (text_of (sub (sub (zeroth j) ''components'') ''country_code'')),
     t_tzname = text_of (timezone_name j)\<rparr>"

definition locationiq_texts :: "json \<Rightarrow> texts" where
  "locationiq_texts j = \<lparr>
     t_addr = text_of (sub (Some j) ''display_name''),
     t_rawdata = [],
     t_locality = text_of (sub (sub (Some j) ''address'') ''city''),
     t_cc = upper (text_of (sub (sub (Some j) ''address'') ''country_code'')),
     t_tzname = []\<rparr>"

section \<open>Buffers\<close>

definition bufs_ok :: "geo_bufs \<Rightarrow> bool" where
  "bufs_ok g \<longleftrightarrow> ut_inv (g_addr g) \<and> ut_inv (g_rawdata g) \<and> ut_inv (g_locality g)
     \<and> ut_inv (g_cc g) \<and> ut_inv (g_tzname g)"

text \<open>\<open>holds g t\<close>: the buffers are in order and hold the texts.\<close>

definition holds :: "geo_bufs \<Rightarrow> texts \<Rightarrow> bool" where
  "holds g t \<longleftrightarrow> bufs_ok g \<and> t = \<lparr>t_addr = ut_d (g_addr g), t_rawdata = ut_d (g_rawdata g),
     t_locality = ut_d (g_locality g), t_cc = ut_d (g_cc g), t_tzname = ut_d (g_tzname g)\<rparr>"

text \<open>The texts after \<open>u\<close> has been appended to \<open>t\<close>; the raw data is replaced.\<close>

definition appended :: "texts \<Rightarrow> texts \<Rightarrow> texts" where
  "appended t u = \<lparr>t_addr = t_addr t @ t_addr u, t_rawdata = t_rawdata u,
     t_locality = t_locality t @ t_locality u, t_cc = t_cc t @ t_cc u, t_tzname = t_tzname t @ t_tzname u\<rparr>"

text \<open>\<open>x\<close> is a buffer operation that appends \<open>bs\<close> to \<open>b\<close>.\<close>

definition puts :: "utstring cres \<Rightarrow> utstring \<Rightarrow> byte list \<Rightarrow> bool" where
  "puts x b bs \<longleftrightarrow> (\<exists>b'. x = Inr b' \<and> ut_inv b' \<and> ut_d b' = ut_d b @ bs)"

lemma puts_Inr: "ut_inv b \<Longrightarrow> puts (Inr b) b []"
  by (simp add: puts_def)

lemma puts_printf: "ut_inv b \<Longrightarrow> puts (utstring_printf b bs) b bs"
  unfolding puts_def by (rule ut.append_ok)

lemma putsE:
  assumes "puts x b bs"
  obtains b' where "x = Inr b'" "ut_inv b'" "ut_d b' = ut_d b @ bs"
  using assms by (auto simp: puts_def)

lemma puts_member: "ut_inv b \<Longrightarrow> puts (print_member b j) b (text_of j)"
  by (auto simp: print_member_def text_of_def puts_Inr puts_printf split: option.split json.split)

lemma puts_unchecked:
  "ut_inv b \<Longrightarrow> (\<forall>v. j = Some v \<longrightarrow> (\<exists>s. v = JString s)) \<Longrightarrow> puts (print_unchecked b j) b (text_of j)"
  by (auto simp: print_unchecked_def text_of_def puts_Inr puts_printf split: option.split)

lemma toupper_islower: "(if islower c then toupper c else c) = toupper c"
  by (simp add: islower_def toupper_def)

lemma puts_upper: "ut_inv b \<Longrightarrow> puts (print_upper b s) b (upper s)"
proof (induction s arbitrary: b)
  case Nil
  then show ?case by (simp add: upper_def puts_Inr)
next
  case (Cons c s)
  obtain b1 where b1: "utstring_printf b [toupper c] = Inr b1" "ut_inv b1" "ut_d b1 = ut_d b @ [toupper c]"
    using Cons.prems by (rule ut.appendE)
  have "puts (print_upper b1 s) b1 (upper s)" using b1(2) by (rule Cons.IH)
  then show ?case using b1(1,3) by (simp add: toupper_islower puts_def upper_def)
qed

lemma puts_country_code: "ut_inv b \<Longrightarrow> puts (print_country_code b j) b (upper (text_of j))"
  by (auto simp: print_country_code_def text_of_def puts_upper upper_def puts_Inr
      split: option.split json.split) (simp add: puts_upper flip: upper_def)

lemma text_of_None [simp]: "text_of None = []" and upper_Nil [simp]: "upper [] = []"
  by (simp_all add: text_of_def upper_def)

lemma print_place_ok:
  assumes "bufs_ok g"
  obtains g' where "print_place g j = Inr g'" "bufs_ok g'"
    "g' = g\<lparr>g_cc := g_cc g', g_locality := g_locality g'\<rparr>"
    "ut_d (g_cc g') = ut_d (g_cc g) @ upper (text_of (sub j ''country_code''))"
    "ut_d (g_locality g') = ut_d (g_locality g) @ text_of (sub j ''city'')"
proof (cases "j = None")
  case True
  then show ?thesis using assms by (intro that [of g]) (simp_all add: print_place_def)
next
  case False
  have i: "ut_inv (g_cc g)" "ut_inv (g_locality g)" using assms by (simp_all add: bufs_ok_def)
  obtain c where c: "print_country_code (g_cc g) (sub j ''country_code'') = Inr c" "ut_inv c"
    "ut_d c = ut_d (g_cc g) @ upper (text_of (sub j ''country_code''))"
    using puts_country_code [OF i(1)] by (rule putsE)
  obtain b where b: "print_member (g_locality g) (sub j ''city'') = Inr b" "ut_inv b"
    "ut_d b = ut_d (g_locality g) @ text_of (sub j ''city'')"
    using puts_member [OF i(2)] by (rule putsE)
  from c b assms False show ?thesis
    by (intro that [of "g\<lparr>g_cc := c, g_locality := b\<rparr>"]) (auto simp: print_place_def bufs_ok_def)
qed

section \<open>The decoders\<close>

lemma body_nulterm [simp]: "nulterm (utstring_body b)"
  by (simp add: utstring_body_def)

lemma clear_rawE:
  assumes "holds g t"
  obtains raw where "utstring_clear (g_rawdata g) = Inr raw"
    "holds (g\<lparr>g_rawdata := raw\<rparr>) (t\<lparr>t_rawdata := []\<rparr>)"
proof -
  have "ut_inv (g_rawdata g)" using assms by (simp add: holds_def bufs_ok_def)
  then obtain raw where "utstring_clear (g_rawdata g) = Inr raw" "ut_inv raw" "ut_d raw = []"
    using utstring_clear_ok by blast
  then show ?thesis using assms by (intro that [of raw]) (auto simp: holds_def bufs_ok_def)
qed

lemma locationiq_decode_ok:
  assumes "holds g t"
  shows "\<exists>g'. (case json_decode (utstring_body b) of
      Inr (Some j) \<Rightarrow> locationiq_decode b g = Inr (True, g') \<and> holds g' (appended t (locationiq_texts j))
    | Inr None \<Rightarrow> locationiq_decode b g = Inr (False, g') \<and> holds g' (t\<lparr>t_rawdata := []\<rparr>)
    | Inl f \<Rightarrow> False)"
proof -
  obtain raw where raw: "utstring_clear (g_rawdata g) = Inr raw"
    "holds (g\<lparr>g_rawdata := raw\<rparr>) (t\<lparr>t_rawdata := []\<rparr>)" using assms by (rule clear_rawE)
  show ?thesis
  proof (cases rule: decodeE [OF body_nulterm [of b]])
    case 1
    then show ?thesis using raw by (simp add: locationiq_decode_def)
  next
    case (2 j)
    let ?g = "g\<lparr>g_rawdata := raw\<rparr>"
    have i: "ut_inv (g_addr g)" using assms by (simp add: holds_def bufs_ok_def)
    obtain a where a: "print_member (g_addr g) (sub (Some j) ''display_name'') = Inr a" "ut_inv a"
      "ut_d a = ut_d (g_addr g) @ text_of (sub (Some j) ''display_name'')"
      using puts_member [OF i] by (rule putsE)
    have ok: "bufs_ok (?g\<lparr>g_addr := a\<rparr>)" using raw(2) a(2) by (simp add: holds_def bufs_ok_def)
    obtain g' where g': "print_place (?g\<lparr>g_addr := a\<rparr>) (sub (Some j) ''address'') = Inr g'" "bufs_ok g'"
      "g' = ?g\<lparr>g_addr := a, g_cc := g_cc g', g_locality := g_locality g'\<rparr>"
      "ut_d (g_cc g') = ut_d (g_cc g) @ upper (text_of (sub (sub (Some j) ''address'') ''country_code''))"
      "ut_d (g_locality g') = ut_d (g_locality g) @ text_of (sub (sub (Some j) ''address'') ''city'')"
      using print_place_ok [OF ok, of "sub (Some j) ''address''"] by auto
    have same: "g_addr g' = a" "g_rawdata g' = raw" "g_tzname g' = g_tzname g"
      by (subst g'(3), simp)+
    have "holds g' (appended t (locationiq_texts j))"
      using g'(2,4,5) a(3) raw(2) assms
      by (simp add: holds_def same appended_def locationiq_texts_def)
    then show ?thesis using 2 raw(1) a(1) g'(1) by (simp add: locationiq_decode_def Let_def)
  qed
qed

lemma find_member_printable:
  "printable j \<Longrightarrow> json_find_member (Some j) k = Some r \<Longrightarrow> printable r"
  by (cases j) (auto simp: json_find_member_def find_key_map_of dest!: map_of_SomeD)

text \<open>The union member that is read for the name of the time zone does hold a string.\<close>

definition timezone_ok :: "json \<Rightarrow> bool" where
  "timezone_ok j \<longleftrightarrow> (case timezone_name j of None \<Rightarrow> True | Some v \<Rightarrow> \<exists>s. v = JString s)"

lemma opencage_results_ok:
  assumes g: "holds g (t\<lparr>t_rawdata := []\<rparr>)" and r: "sub (Some j) ''results'' = Some r"
    and j: "printable j" and tz: "timezone_ok j"
  obtains g' where "opencage_results g r = Inr g'" "holds g' (appended t (opencage_texts j))"
proof -
  have z: "json_find_element (Some r) 0 = zeroth j" by (simp add: zeroth_def r)
  have i: "ut_inv (g_addr g)" "ut_inv (g_rawdata g)" "ut_inv (g_tzname g)"
    using g by (simp_all add: holds_def bufs_ok_def)
  have js: "json_stringify r None = Inr (json_text r None)"
    using find_member_printable [OF j r] by (intro json_stringify_text_eq) simp_all
  obtain raw where raw: "utstring_printf (g_rawdata g) (json_text r None) = Inr raw" "ut_inv raw"
    "ut_d raw = ut_d (g_rawdata g) @ json_text r None" using i(2) by (rule ut.appendE)
  obtain a where a: "(if zeroth j \<noteq> None then print_member (g_addr g) (sub (zeroth j) ''formatted'')
      else Inr (g_addr g)) = Inr a" "ut_inv a"
    "ut_d a = ut_d (g_addr g) @ text_of (sub (zeroth j) ''formatted'')"
  proof (cases "zeroth j = None")
    case True
    then show ?thesis using i(1) by (intro that [of "g_addr g"]) simp_all
  next
    case False
    then show ?thesis using that putsE [OF puts_member [OF i(1)]] by auto
  qed
  have "puts (if sub (zeroth j) ''annotations'' \<noteq> None \<and> sub (sub (zeroth j) ''annotations'') ''timezone'' \<noteq> None
      then print_unchecked (g_tzname g) (timezone_name j) else Inr (g_tzname g)) (g_tzname g)
      (text_of (timezone_name j))"
    using tz i(3)
    by (auto simp: timezone_ok_def timezone_name_def print_unchecked_def text_of_def puts_printf puts_Inr
        split: option.splits)
  then obtain z where tz': "(if sub (zeroth j) ''annotations'' \<noteq> None
       \<and> sub (sub (zeroth j) ''annotations'') ''timezone'' \<noteq> None
      then print_unchecked (g_tzname g) (timezone_name j) else Inr (g_tzname g)) = Inr z" "ut_inv z"
    "ut_d z = ut_d (g_tzname g) @ text_of (timezone_name j)" by (rule putsE)
  let ?g = "g\<lparr>g_rawdata := raw, g_addr := a, g_tzname := z\<rparr>"
  have "bufs_ok ?g" using g a(2) raw(2) tz'(2) by (simp add: holds_def bufs_ok_def)
  then obtain g' where g': "print_place ?g (sub (zeroth j) ''components'') = Inr g'" "bufs_ok g'"
    "g' = ?g\<lparr>g_cc := g_cc g', g_locality := g_locality g'\<rparr>"
    "ut_d (g_cc g') = ut_d (g_cc ?g) @ upper (text_of (sub (sub (zeroth j) ''components'') ''country_code''))"
    "ut_d (g_locality g') = ut_d (g_locality ?g) @ text_of (sub (sub (zeroth j) ''components'') ''city'')"
    by (rule print_place_ok)
  have same: "g_addr g' = a" "g_rawdata g' = raw" "g_tzname g' = z" by (subst g'(3), simp)+
  have "opencage_results g r = Inr g'"
    using js raw(1) a(1) tz'(1) g'(1) unfolding opencage_results_def timezone_name_def
    by (simp add: Let_def z)
  moreover have "holds g' (appended t (opencage_texts j))"
    using g'(2,4,5) a(3) raw(3) tz'(3) g r
    by (cases t) (simp add: holds_def same appended_def opencage_texts_def)
  ultimately show ?thesis by (rule that)
qed

lemma opencage_decode_ok:
  assumes "holds g t" and "\<And>j. json_decode (utstring_body b) = Inr (Some j) \<Longrightarrow> timezone_ok j"
  shows "\<exists>g'. (case json_decode (utstring_body b) of
      Inr (Some j) \<Rightarrow> opencage_decode b g = Inr (True, g') \<and> holds g' (appended t (opencage_texts j))
    | Inr None \<Rightarrow> opencage_decode b g = Inr (False, g') \<and> holds g' (t\<lparr>t_rawdata := []\<rparr>)
    | Inl f \<Rightarrow> False)"
proof -
  obtain raw where raw: "utstring_clear (g_rawdata g) = Inr raw"
    "holds (g\<lparr>g_rawdata := raw\<rparr>) (t\<lparr>t_rawdata := []\<rparr>)" using assms(1) by (rule clear_rawE)
  show ?thesis
  proof (cases rule: decodeE [OF body_nulterm [of b]])
    case 1
    then show ?thesis using raw by (simp add: opencage_decode_def)
  next
    case (2 j)
    show ?thesis
    proof (cases "sub (Some j) ''results''")
      case None
      then have "json_find_element None 0 = None" by (simp add: json_find_element_def)
      then have "zeroth j = None" using None by (simp add: zeroth_def)
      then have "appended t (opencage_texts j) = t\<lparr>t_rawdata := []\<rparr>"
        using None by (simp add: appended_def opencage_texts_def timezone_name_def)
      then show ?thesis using 2 raw None by (simp add: opencage_decode_def)
    next
      case (Some r)
      obtain g' where "opencage_results (g\<lparr>g_rawdata := raw\<rparr>) r = Inr g'"
        "holds g' (appended t (opencage_texts j))"
        using raw(2) Some 2(2) assms(2) [OF 2(1)] by (rule opencage_results_ok)
      then show ?thesis using 2 raw(1) Some by (simp add: opencage_decode_def)
    qed
  qed
qed

section \<open>Fetching\<close>

text \<open>A chunk is a block of memory, so its length is a \<open>size_t\<close>.\<close>

definition reply_ok :: "curl_reply \<Rightarrow> bool" where
  "reply_ok reply \<longleftrightarrow> (\<forall>c \<in> set (curl_chunks reply). length c < 2 ^ 64)"

lemma write_chunks_ok:
  "ut_inv b \<Longrightarrow> \<forall>c \<in> set cs. length c < 2 ^ 64 \<Longrightarrow> puts (write_chunks cs b) b (concat cs)"
proof (induction cs arbitrary: b)
  case (Cons c cs)
  have len: "unat (of_nat (length c) :: 64 word) = length c"
    using Cons.prems(2) by (simp add: unat_of_nat)
  obtain b1 where b1: "utstring_bincpy b c = Inr b1" "ut_inv b1" "ut_d b1 = ut_d b @ c"
    using Cons.prems(1) by (rule ut_bin.appendE)
  have "puts (write_chunks cs b1) b1 (concat cs)" using Cons.IH [OF b1(2)] Cons.prems(2) by simp
  then show ?case using b1(1,3) by (simp add: writemem_def len puts_def)
qed (simp add: puts_Inr)

text \<open>The body of the answer, when there is one.\<close>

definition answer_body :: "curl_reply \<Rightarrow> byte list option" where
  "answer_body reply = (if curl_res reply = CURLE_OK \<and> curl_http_code reply = 200
     then Some (concat (curl_chunks reply)) else None)"

lemma http_get_ok:
  assumes "ut_inv b" and "ut_d b = []" and "reply_ok (fst (perform url n))"
  obtains b' where "http_get perform url b n
      = Inr ((answer_body (fst (perform url n)) \<noteq> None, b'), snd (perform url n))"
    "ut_inv b'" "ut_d b' = concat (curl_chunks (fst (perform url n)))"
proof -
  obtain reply n' where p: "perform url n = (reply, n')" by (cases "perform url n")
  have "puts (write_chunks (curl_chunks reply) b) b (concat (curl_chunks reply))"
    using assms(1,3) by (intro write_chunks_ok) (simp_all add: p reply_ok_def)
  then obtain b' where "write_chunks (curl_chunks reply) b = Inr b'" "ut_inv b'"
    "ut_d b' = concat (curl_chunks reply)" using assms(2) by (auto simp: puts_def)
  then show ?thesis using assms(3)
    by (intro that [of b']) (auto simp: http_get_def p answer_body_def)
qed

text \<open>
  The meaning of a request: \<open>None\<close> when the service gave no usable answer, otherwise its texts.
\<close>

definition service_url :: "byte list \<Rightarrow> byte list \<Rightarrow> double \<Rightarrow> double \<Rightarrow> byte list" where
  "service_url apikey api_provider lat lon = cstring ((if api_provider = ascii ''opencage''
     then opencage_url apikey lat lon else locationiq_url apikey lat lon) @ [0])"

definition service_texts :: "byte list \<Rightarrow> curl_reply \<Rightarrow> texts option" where
  "service_texts api_provider reply = (case answer_body reply of None \<Rightarrow> None
     | Some body \<Rightarrow> (case json_decode (body @ [0]) of
         Inr (Some j) \<Rightarrow> Some (if api_provider = ascii ''opencage'' then opencage_texts j else locationiq_texts j)
       | _ \<Rightarrow> None))"

text \<open>The answers that the decoder of the service can read.\<close>

definition readable :: "byte list \<Rightarrow> curl_reply \<Rightarrow> bool" where
  "readable api_provider reply \<longleftrightarrow> reply_ok reply \<and>
     (api_provider = ascii ''opencage'' \<longrightarrow> (\<forall>body j. answer_body reply = Some body \<longrightarrow>
        json_decode (body @ [0]) = Inr (Some j) \<longrightarrow> timezone_ok j))"

definition static_ok :: "'n geo_state \<Rightarrow> bool" where
  "static_ok st \<longleftrightarrow> (\<forall>b. url_buf st = Some b \<longrightarrow> ut_inv b) \<and> (\<forall>b. curl_buf st = Some b \<longrightarrow> ut_inv b)"

lemma getdata_origin:
  assumes "holds g t" and "d_eq lat (DFin 0)" and "d_eq lon (DFin 0)"
  shows "\<exists>g'. revgeo_getdata perform apikey api_provider lat lon g st = Inr ((False, g'), st)
    \<and> holds g' (t\<lparr>t_addr := t_addr t @ ascii ''Unknown ('' @ fmt_lf lat @ ascii '','' @ fmt_lf lon @ ascii '')''\<rparr>)"
proof -
  have "ut_inv (g_addr g)" using assms(1) by (simp add: holds_def bufs_ok_def)
  then obtain a where "utstring_printf (g_addr g)
      (ascii ''Unknown ('' @ fmt_lf lat @ ascii '','' @ fmt_lf lon @ ascii '')'') = Inr a" "ut_inv a"
    "ut_d a = ut_d (g_addr g) @ ascii ''Unknown ('' @ fmt_lf lat @ ascii '','' @ fmt_lf lon @ ascii '')''"
    by (rule ut.appendE)
  then show ?thesis using assms by (auto simp: revgeo_getdata_def holds_def bufs_ok_def)
qed

lemma getdata_request:
  assumes "holds g t" and "static_ok st" and "\<not> (d_eq lat (DFin 0) \<and> d_eq lon (DFin 0))"
    and "perform (service_url apikey api_provider lat lon) (network st) = (reply, n)"
    and "readable api_provider reply"
  shows "\<exists>g' st'. revgeo_getdata perform apikey api_provider lat lon g st
      = Inr ((service_texts api_provider reply \<noteq> None, g'), st')
    \<and> holds g' (case service_texts api_provider reply of None \<Rightarrow> t\<lparr>t_rawdata := []\<rparr> | Some u \<Rightarrow> appended t u)
    \<and> static_ok st' \<and> network st' = n"
proof -
  let ?oc = "api_provider = ascii ''opencage''"
  let ?text = "if ?oc then opencage_url apikey lat lon else locationiq_url apikey lat lon"
  obtain u0 where u0: "utstring_renew (url_buf st) = Inr u0" "ut_inv u0" "ut_d u0 = []"
    using utstring_renew_ok [of "url_buf st"] assms(2) by (auto simp: static_ok_def)
  obtain b0 where b0: "utstring_renew (curl_buf st) = Inr b0" "ut_inv b0" "ut_d b0 = []"
    using utstring_renew_ok [of "curl_buf st"] assms(2) by (auto simp: static_ok_def)
  obtain raw where raw: "utstring_clear (g_rawdata g) = Inr raw"
    "holds (g\<lparr>g_rawdata := raw\<rparr>) (t\<lparr>t_rawdata := []\<rparr>)" using assms(1) by (rule clear_rawE)
  obtain u where u: "utstring_printf u0 ?text = Inr u" "ut_inv u" "ut_d u = ut_d u0 @ ?text"
    using u0(2) by (rule ut.appendE)
  have url: "cstring (utstring_body u) = service_url apikey api_provider lat lon"
    using u(3) u0(3) by (simp add: utstring_body_def service_url_def)
  have p: "perform (cstring (utstring_body u)) (network st) = (reply, n)" using assms(4) by (simp add: url)
  have rep: "reply_ok (fst (perform (cstring (utstring_body u)) (network st)))"
    using assms(5) by (simp add: p readable_def)
  obtain b where b: "http_get perform (cstring (utstring_body u)) b0 (network st)
      = Inr ((answer_body reply \<noteq> None, b), n)" "ut_inv b" "ut_d b = concat (curl_chunks reply)"
    using http_get_ok [where perform = perform, OF b0(2,3) rep] by (auto simp: p)
  let ?st = "st\<lparr>url_buf := Some u, curl_buf := Some b, network := n\<rparr>"
  let ?g = "g\<lparr>g_rawdata := raw\<rparr>"
  have st: "static_ok ?st" "network ?st = n" using u(2) b(2) by (simp_all add: static_ok_def)
  have run: "revgeo_getdata perform apikey api_provider lat lon g st
      = (if answer_body reply \<noteq> None then
           c_bind (if ?oc then opencage_decode b ?g else locationiq_decode b ?g) (\<lambda>r. Inr (r, ?st))
         else Inr ((False, ?g), ?st))"
    using assms(3) u0(1) b0(1) raw(1) u(1) b(1) by (auto simp: revgeo_getdata_def Let_def)
  show ?thesis
  proof (cases "answer_body reply")
    case None
    then show ?thesis using run raw(2) st by (auto simp: service_texts_def)
  next
    case (Some body)
    then have body: "utstring_body b = body @ [0]"
      using b(3) by (auto simp: answer_body_def utstring_body_def split: if_splits)
    have raw': "holds ?g (t\<lparr>t_rawdata := []\<rparr>)" by (rule raw(2))
    have same: "appended (t\<lparr>t_rawdata := []\<rparr>) v = appended t v" for v by (simp add: appended_def)
    have tz: "timezone_ok j" if "?oc" "json_decode (utstring_body b) = Inr (Some j)" for j
      using assms(5) that Some by (simp add: readable_def body)
    have ok: "\<exists>g'. (case json_decode (utstring_body b) of
        Inr (Some j) \<Rightarrow> (if ?oc then opencage_decode b ?g else locationiq_decode b ?g) = Inr (True, g')
          \<and> holds g' (appended t (if ?oc then opencage_texts j else locationiq_texts j))
      | Inr None \<Rightarrow> (if ?oc then opencage_decode b ?g else locationiq_decode b ?g) = Inr (False, g')
          \<and> holds g' (t\<lparr>t_rawdata := []\<rparr>)
      | Inl f \<Rightarrow> False)"
      using opencage_decode_ok [OF raw', of b] locationiq_decode_ok [OF raw', of b] tz
      by (cases rule: decodeE [OF body_nulterm [of b]]) (cases ?oc; simp add: same)+
    show ?thesis
      using ok run Some st unfolding service_texts_def body
      by (auto split: sum.splits option.splits)
  qed
qed

lemma opencage_timezone:
  assumes g: "holds g t" and d: "json_decode (utstring_body b) = Inr (Some j)"
    and tz: "timezone_name j = Some v" "\<not> (\<exists>s. v = JString s)"
  shows "opencage_decode b g = Inl BadPointer"
proof -
  obtain raw where raw: "utstring_clear (g_rawdata g) = Inr raw"
    "holds (g\<lparr>g_rawdata := raw\<rparr>) (t\<lparr>t_rawdata := []\<rparr>)" using g by (rule clear_rawE)
  let ?g = "g\<lparr>g_rawdata := raw\<rparr>"
  have i: "ut_inv (g_addr ?g)" "ut_inv (g_rawdata ?g)" using raw(2) by (simp_all add: holds_def bufs_ok_def)
  have z: "zeroth j \<noteq> None" "sub (zeroth j) ''annotations'' \<noteq> None"
    "sub (sub (zeroth j) ''annotations'') ''timezone'' \<noteq> None"
    using tz(1) unfolding timezone_name_def
    by (metis json_find_member_None option.distinct(1))+
  then obtain r where r: "sub (Some j) ''results'' = Some r"
    by (cases "sub (Some j) ''results''") (auto simp: zeroth_def json_find_element_def)
  have printable: "printable j" using decode_printable [OF body_nulterm d] .
  have js: "json_stringify r None = Inr (json_text r None)"
    using find_member_printable [OF printable r] by (intro json_stringify_text_eq) simp_all
  obtain raw' where raw': "utstring_printf (g_rawdata ?g) (json_text r None) = Inr raw'"
    using i(2) by (rule ut.appendE)
  obtain a where a: "print_member (g_addr ?g) (sub (zeroth j) ''formatted'') = Inr a"
    using puts_member [OF i(1)] by (rule putsE)
  have zr: "json_find_element (Some r) 0 = zeroth j" by (simp add: zeroth_def r)
  have "print_unchecked (g_tzname ?g) (timezone_name j) = Inl BadPointer"
    using tz by (auto simp: print_unchecked_def split: json.split)
  then have "opencage_results ?g r = Inl BadPointer"
    using z js raw' a unfolding opencage_results_def timezone_name_def by (simp add: Let_def zr)
  then show ?thesis using raw(1) d r by (simp add: opencage_decode_def Let_def)
qed

section \<open>What holds of geo.c\<close>


definition empty_bufs :: geo_bufs where
  "empty_bufs = (let b = \<lparr>ut_d = [], ut_n = 100\<rparr>
     in \<lparr>g_addr = b, g_rawdata = b, g_locality = b, g_cc = b, g_tzname = b\<rparr>)"

definition brussels_reply :: curl_reply where
  "brussels_reply = \<lparr>curl_chunks = [ascii ''{\"display_name\":\"Bru'', ascii ''ssels\"}''],
     curl_res = 0, curl_http_code = 200\<rparr>"

lemma empty_bufs_holds: "holds empty_bufs no_texts"
  by (simp add: holds_def bufs_ok_def empty_bufs_def no_texts_def ut_inv_def Let_def)



definition bad_timezone :: utstring where
  "bad_timezone = \<lparr>ut_d = ascii ''{\"results\":[{\"annotations\":{\"timezone\":{\"name\":true}}}]}'', ut_n = 100\<rparr>"

definition bad_timezone_json :: json where
  "bad_timezone_json = JObject [(ascii ''results'', JArray [JObject [(ascii ''annotations'',
     JObject [(ascii ''timezone'', JObject [(ascii ''name'', JBool True)])])]])]"


end
