(* ===== verification/Revgeod_Server.thy ===== *)
theory Revgeod_Server
  imports Revgeod Db_Store Geo_Answers Geohash_Exact
begin

text \<open>
  What the handlers of revgeod.c do to a server whose database is open and whose services answer
  within the limits of the code. \<open>server_ok\<close> is the invariant; the lemmas give the outcome of each
  handler on every branch, the answer and the new state.
\<close>

section \<open>Texts\<close>

text \<open>Plain ASCII is valid UTF-8 and prints as it is.\<close>

definition plain_ascii :: "byte list \<Rightarrow> bool" where
  "plain_ascii bs \<longleftrightarrow> list_all (\<lambda>c. c \<noteq> 0 \<and> c < 0x80) bs"

lemma utf8_text_ascii: "plain_ascii bs \<Longrightarrow> utf8_text bs"
proof (induction bs)
  case (Cons c bs)
  then have c: "c \<noteq> 0" "unat c < 128" by (simp_all add: plain_ascii_def word_less_nat_alt)
  from enc_of_ascii [OF this] obtain u where "scalar u" "u \<noteq> 0" "[c] = utf8_enc u"
    by (auto simp: enc_of_char_def)
  then have "utf8_text [c]" using utf8_text_enc by metis
  with Cons show ?case using utf8_text_append [of "[c]" bs] by (simp add: plain_ascii_def)
qed (simp add: utf8_text.Nil)

text \<open>The literals of the program.\<close>

lemma literal_texts [simp]:
  "utf8_text (ascii ''village'')" "utf8_text (ascii ''locality'')" "utf8_text (ascii ''cc'')"
  "utf8_text (ascii ''tzname'')" "utf8_text (ascii ''s'')" "utf8_text (ascii ''address'')"
  "utf8_text (ascii ''unknown'')" "utf8_text (ascii ''??'')" "utf8_text (ascii ''lmdb'')"
  "utf8_text (ascii ''unknown address'')" "utf8_text (ascii ''lat'')"
  "utf8_text (ascii ''lon'')" "utf8_text (ascii ''ghash'')" "utf8_text (ascii ''_whoami'')"
  "utf8_text (ascii ''_version'')" "utf8_text (ascii ''_mhdversion'')"
  "utf8_text (ascii ''stats'')" "utf8_text (ascii ''requests'')"
  "utf8_text (ascii ''geocode_failed'')" "utf8_text (ascii ''locationiq'')"
  "utf8_text (ascii ''opencage'')" "utf8_text (ascii ''apps'')" "utf8_text (ascii ''uptime'')"
  "utf8_text (ascii ''uptime_s'')" "utf8_text (ascii ''tst'')" "utf8_text (ascii ''db_path'')"
  "utf8_text (ascii ''db_entries'')" "utf8_text (ascii ''db_size'')"
  "utf8_text (ascii ''revgeod.c'')" "utf8_text (ascii ''0.3.8'')"
  by (rule utf8_text_ascii, code_simp)+

lemma utf8_text_upper: "utf8_text s \<Longrightarrow> utf8_text (upper s)"
proof (induction rule: utf8_text.induct)
  case (Char u bs)
  from Char.hyps(1,2) have "utf8_text (map toupper (utf8_enc u))"
  proof (cases rule: utf8_enc_cases)
    case (ascii c)
    have "plain_ascii [toupper c]"
      using ascii(2,3) unfolding plain_ascii_def toupper_def
      by (auto simp: word_le_nat_alt word_less_nat_alt word_unat_eq_iff unat_sub_if_size)
    then show ?thesis using utf8_text_ascii ascii(1) by simp
  next
    case (long c cs)
    have "map toupper (utf8_enc u) = utf8_enc u"
      using long(2) by (intro map_idI) (auto simp: toupper_def word_le_nat_alt)
    then show ?thesis using Char.hyps(1,2) by (simp add: utf8_text_enc)
  qed
  then show ?case using Char.IH by (simp add: upper_def utf8_text_append)
qed (simp add: upper_def utf8_text.Nil)

section \<open>Objects\<close>

definition members :: "(string \<times> json) list \<Rightarrow> (byte list \<times> json) list" where
  "members kvs = map (\<lambda>(k, v). (ascii k, v)) kvs"

lemma members_simps [simp]:
  "members [] = []"
  "members ((k, v) # kvs) = (ascii k, v) # members kvs"
  "members (kvs @ kvs') = members kvs @ members kvs'"
  by (simp_all add: members_def)

lemma append_members_object [simp]:
  "append_members (JObject ms) kvs = Inr (JObject (ms @ members kvs))"
  by (induction kvs arbitrary: ms) auto

fun strings_in :: "json option \<Rightarrow> string list \<Rightarrow> (byte list \<times> json) list" where
  "strings_in j [] = []"
| "strings_in j (e # es) = (case json_find_member j (ascii e) of
     Some (JString t) \<Rightarrow> (ascii e, JString t) # strings_in j es | _ \<Rightarrow> strings_in j es)"

lemma copy_strings_object [simp]:
  "copy_strings j (JObject ms) es = Inr (JObject (ms @ strings_in j es))"
  by (induction es arbitrary: ms) (auto split: option.split json.split)

lemma append_apps_object [simp]:
  "append_apps (JObject ms) apps = Inr (JObject (ms @ map (\<lambda>(a, q). (a, mkcount q)) apps))"
  by (induction apps arbitrary: ms) auto

definition popt :: "json option \<Rightarrow> bool" where
  "popt j \<longleftrightarrow> (\<forall>v. j = Some v \<longrightarrow> printable v)"

lemma popt_member: "popt j \<Longrightarrow> popt (json_find_member j k)"
  by (cases j) (auto simp: popt_def dest: find_member_printable)

lemma popt_element: "popt j \<Longrightarrow> popt (json_find_element j i)"
  by (auto simp: popt_def json_find_element_def find_nth_nth split: option.splits json.splits if_splits)

lemma popt_text: "popt j \<Longrightarrow> utf8_text (text_of j)"
  by (auto simp: popt_def text_of_def utf8_text.Nil split: option.split json.split)

lemma strings_in_printable:
  assumes "popt j" and "\<forall>e \<in> set es. utf8_text (ascii e)"
  shows "\<forall>m \<in> set (strings_in j es). utf8_text (fst m) \<and> printable (snd m)"
  using assms(2)
proof (induction es)
  case (Cons e es)
  have "popt (json_find_member j (ascii e))" using assms(1) by (rule popt_member)
  with Cons show ?case by (auto simp: popt_def split: option.splits json.splits)
qed simp

lemma elems_texts: "\<forall>e \<in> set elems. utf8_text (ascii e)"
  by (simp add: elems_def)

text \<open>Counts and integers are printed as doubles.\<close>

lemma mkcount_printable [simp]: "printable (mkcount n)" "printable (mkint i)"
  by (simp_all add: mkcount_def mkint_def d_of_int_def)

section \<open>Answers\<close>

abbreviation shown :: "json \<Rightarrow> byte list" where
  "shown v \<equiv> json_text v (Some JSON_SPACE)"

abbreviation json_answer :: "moment \<Rightarrow> json \<Rightarrow> answer" where
  "json_answer M v \<equiv> respond M (shown v) (ascii ''application/json'') MHD_HTTP_OK"

abbreviation text_answer :: "moment \<Rightarrow> string \<Rightarrow> int \<Rightarrow> answer" where
  "text_answer M s code \<equiv> respond M (ascii s) (ascii ''text/plain'') code"

lemma JSON_SPACE_ws: "ws JSON_SPACE" "no_nul JSON_SPACE"
  by code_simp+

lemma stringify_shown: "printable v \<Longrightarrow> json_stringify v (Some JSON_SPACE) = Inr (shown v)"
  by (rule json_stringify_text_eq) (simp_all add: JSON_SPACE_ws)

lemma shown_no_nul: "printable v \<Longrightarrow> no_nul (shown v)"
  using render_indented_no_nul(1) [of JSON_SPACE v 0] JSON_SPACE_ws by (simp add: json_text_def)

lemma send_json_ok: "printable v \<Longrightarrow> send_json M v = Inr (json_answer M v)"
  by (simp add: send_json_def stringify_shown)

lemma string_at_nul [simp]: "no_nul s \<Longrightarrow> string_at (s @ 0 # t) = Inr s"
  by (simp add: string_at_def)

lemma send_shown_ok:
  "printable v \<Longrightarrow> send_content M (shown v @ [0]) (ascii ''application/json'') MHD_HTTP_OK = Inr (json_answer M v)"
  by (simp add: send_content_def shown_no_nul)

lemma pages_no_nul [simp]:
  "no_nul (ascii ''One of lat or lon missing'')" "no_nul (ascii ''Cannot encode to geohash'')"
  "no_nul (ascii ''Missing geohash'')" "no_nul (ascii ''deleted'')" "no_nul (ascii ''Not deleted'')"
  "no_nul (ascii ''not found'')" "no_nul (ascii ''not allowed'')" "no_nul (ascii ''four-oh-four'')"
  by code_simp+

lemma send_page_lit [simp]: "no_nul (ascii t) \<Longrightarrow> send_page M (lit t) code = Inr (text_answer M t code)"
  by (simp add: send_page_def send_content_def lit_def)

section \<open>Addresses\<close>

definition record_of :: "texts \<Rightarrow> json" where
  "record_of u = JObject (members
     ([(''village'', JString (t_addr u)), (''cc'', JString (t_cc u))]
      @ (if t_locality u \<noteq> [] then [(''locality'', JString (t_locality u))] else [])
      @ (if t_tzname u \<noteq> [] then [(''tzname'', JString (t_tzname u))] else [])))"

definition fresh_of :: "byte list \<Rightarrow> byte list \<Rightarrow> texts \<Rightarrow> json" where
  "fresh_of ap source u = JObject (members
     ([(''village'', JString ap)]
      @ (if t_locality u \<noteq> [] then [(''locality'', JString (t_locality u))] else [])
      @ [(''cc'', JString (t_cc u)),
         (''tzname'', if t_tzname u \<noteq> [] then JString (t_tzname u) else JNull),
         (''s'', JString source)]))"

definition places_ok :: "texts \<Rightarrow> bool" where
  "places_ok u \<longleftrightarrow> utf8_text (t_locality u) \<and> utf8_text (t_cc u) \<and> utf8_text (t_tzname u)
     \<and> length (t_locality u) < 2 ^ 32 \<and> length (t_tzname u) < 2 ^ 32"

definition texts_ok :: "texts \<Rightarrow> bool" where
  "texts_ok u \<longleftrightarrow> utf8_text (t_addr u) \<and> places_ok u"

lemma no_places_ok [simp]: "places_ok no_texts" "places_ok (u\<lparr>t_addr := a\<rparr>) = places_ok u"
    "places_ok (u\<lparr>t_rawdata := a\<rparr>) = places_ok u"
  by (simp_all add: places_ok_def no_texts_def utf8_text.Nil)

lemma ub_no_nul: "no_nul (ut_d b) \<Longrightarrow> ub b = ut_d b"
  by (simp add: ub_def utstring_body_def)

lemma utstring_len_pos: "length (ut_d b) < 2 ^ 32 \<Longrightarrow> utstring_len b > 0 \<longleftrightarrow> ut_d b \<noteq> []"
  by (simp add: utstring_len_def word_less_nat_alt unat_of_nat)

lemma holds_places:
  assumes "holds g u" and "places_ok u"
  shows "ub (g_locality g) = t_locality u" "ub (g_cc g) = t_cc u"
    "ub (g_tzname g) = t_tzname u" "utstring_len (g_locality g) > 0 \<longleftrightarrow> t_locality u \<noteq> []"
    "utstring_len (g_tzname g) > 0 \<longleftrightarrow> t_tzname u \<noteq> []"
  using assms by (auto simp: holds_def places_ok_def ub_no_nul utf8_text_no_nul utstring_len_pos)

lemma holds_addr: "holds g u \<Longrightarrow> texts_ok u \<Longrightarrow> ub (g_addr g) = t_addr u"
  by (auto simp: holds_def texts_ok_def ub_no_nul utf8_text_no_nul)

lemma address_record_ok: "holds g u \<Longrightarrow> texts_ok u \<Longrightarrow> address_record g = Inr (record_of u)"
  using holds_places [of g u]
  by (simp add: address_record_def record_of_def json_mkobject_def holds_addr texts_ok_def)

lemma fresh_address_ok:
  "holds g u \<Longrightarrow> places_ok u \<Longrightarrow> fresh_address ap g source = Inr (fresh_of ap source u)"
  by (simp add: fresh_address_def fresh_of_def json_mkobject_def holds_places)

lemma record_of_printable: "texts_ok u \<Longrightarrow> printable (record_of u)"
  by (auto simp: record_of_def texts_ok_def places_ok_def)

lemma fresh_of_printable:
  "places_ok u \<Longrightarrow> utf8_text ap \<Longrightarrow> utf8_text source \<Longrightarrow> printable (fresh_of ap source u)"
  by (auto simp: fresh_of_def places_ok_def)

text \<open>What the services send is valid UTF-8, and so are the texts taken from it.\<close>

definition utf8_texts :: "texts \<Rightarrow> bool" where
  "utf8_texts u \<longleftrightarrow> utf8_text (t_addr u) \<and> utf8_text (t_locality u) \<and> utf8_text (t_cc u) \<and> utf8_text (t_tzname u)"

lemma service_texts_utf8:
  assumes "service_texts provider reply = Some u"
  shows "utf8_texts u"
proof -
  obtain bs j where j: "json_decode (bs @ [0]) = Inr (Some j)"
    "u = (if provider = ascii ''opencage'' then opencage_texts j else locationiq_texts j)"
    using assms by (auto simp: service_texts_def split: option.splits sum.splits)
  have "nulterm (bs @ [0])" by simp
  then have "popt (Some j)" using decode_printable [OF _ j(1)] by (simp add: popt_def)
  have z: "popt (zeroth j)" unfolding zeroth_def by (intro popt_element popt_member \<open>popt (Some j)\<close>)
  show ?thesis
    using j(2) z \<open>popt (Some j)\<close>
    by (simp add: utf8_texts_def opencage_texts_def locationiq_texts_def timezone_name_def utf8_text_upper
        popt_text popt_member utf8_text.Nil)
qed

text \<open>The record of an address must fit into the buffer it is read back into.\<close>

definition fits :: "texts \<Rightarrow> bool" where
  "fits u \<longleftrightarrow> length (t_locality u) < 2 ^ 32 \<and> length (t_tzname u) < 2 ^ 32
     \<and> length (shown (record_of u)) < 8192"

lemma fits_ok: "fits u \<Longrightarrow> utf8_texts u \<Longrightarrow> texts_ok u"
  by (simp add: fits_def utf8_texts_def texts_ok_def places_ok_def)

definition service_ok :: "byte list \<Rightarrow> 'n curl \<Rightarrow> bool" where
  "service_ok provider curl \<longleftrightarrow> (\<forall>url n. readable provider (fst (curl url n)) \<and>
     (\<forall>u. service_texts provider (fst (curl url n)) = Some u \<longrightarrow> fits u))"

lemma shown_record_head: "\<exists>r. shown (record_of u) = 0x7B # r"
  by (simp add: json_text_def record_of_def)

lemma shown_record_delete: "shown (record_of u) \<noteq> ascii ''DELETE''"
proof -
  have "hd (ascii ''DELETE'') \<noteq> 0x7B" by code_simp
  with shown_record_head [of u] show ?thesis by auto
qed

text \<open>The members of the address that is read from a record.\<close>

definition cached_members :: "byte list \<Rightarrow> (byte list \<times> json) list" where
  "cached_members v = (case json_decode v of
     Inr (Some j) \<Rightarrow> strings_in (Some j) elems
   | _ \<Rightarrow> members [(''village'', JString (ascii ''unknown'')), (''locality'', JString (ascii ''unknown'')),
       (''cc'', JString (ascii ''??'')), (''tzname'', JNull)])"

definition cached_of :: "byte list \<Rightarrow> json" where
  "cached_of v = JObject (cached_members v @ members [(''s'', JString (ascii ''lmdb''))])"

lemma decode_cstring:
  assumes "nulterm s" and "nulterm t" and "cstring s = cstring t"
  shows "json_decode s = json_decode t"
proof -
  have "json_decode s = Inr (Some v) \<longleftrightarrow> json_decode t = Inr (Some v)" for v
    using decode_iff_text [OF assms(1)] decode_iff_text [OF assms(2)] assms(3) by simp
  then show ?thesis
    using decodeE [OF assms(1)] decodeE [OF assms(2)] by metis
qed

lemma cstring_prefix: "nulterm v \<Longrightarrow> cstring (v @ r) = cstring v"
  by (auto simp: cstring_def nulterm_def takeWhile_append)

lemma cached_members_printable:
  assumes "nulterm v"
  shows "\<forall>m \<in> set (cached_members v). utf8_text (fst m) \<and> printable (snd m)"
proof (cases rule: decodeE [OF assms])
  case (2 j)
  then have "popt (Some j)" by (simp add: popt_def)
  from strings_in_printable [OF this elems_texts] 2(1) show ?thesis by (simp add: cached_members_def)
qed (simp add: cached_members_def)

lemma stored_address_ok:
  assumes "nulterm v"
  shows "stored_address (v @ r) = Inr (JObject (cached_members v))"
proof -
  have eq: "json_decode (v @ r) = json_decode v"
    using assms by (intro decode_cstring cstring_prefix) simp_all
  show ?thesis
    by (cases rule: decodeE [OF assms])
      (simp_all add: stored_address_def eq cached_members_def json_mkobject_def string_at_def assms)
qed

section \<open>Keys\<close>

definition on_earth :: "double \<Rightarrow> double \<Rightarrow> bool" where
  "on_earth lat lon \<longleftrightarrow> d_le lat (DFin 90) \<and> d_le (DFin (- 90)) lat \<and> d_le lon (DFin 180) \<and> d_le (DFin (- 180)) lon"

text \<open>The geohash of a point, which does not depend on what \<open>malloc\<close> returned.\<close>

definition point_key :: "double \<Rightarrow> double \<Rightarrow> byte list" where
  "point_key lat lon = (case geohash_encode (\<lambda>_. 0) lat lon GEOHASH_PRECISION of
     Inr (Some m) \<Rightarrow> cstring m | _ \<Rightarrow> [])"

lemma hash_no_nul: "set h \<subseteq> set char_map \<Longrightarrow> no_nul h"
  using char_map_no_nul by (auto simp: no_nul_def)

lemma encode_point:
  assumes "on_earth lat lon"
  shows "geohash_encode junk lat lon GEOHASH_PRECISION = Inr (Some (point_key lat lon @ [0]))"
    and "length (point_key lat lon) = 8" and "set (point_key lat lon) \<subseteq> set char_map"
proof -
  obtain y x where r: "in_range lat 90 y" "in_range lon 180 x"
    using assms range_iff [of lat 90] range_iff [of lon 180] by (auto simp: on_earth_def)
  have p: "clamp_precision GEOHASH_PRECISION = 8" by (simp add: clamp_precision_def GEOHASH_PRECISION_def)
  obtain h where h: "geohash_encode junk lat lon GEOHASH_PRECISION = Inr (Some (h @ [0]))"
    "length h = 8" "set h \<subseteq> set char_map" "in_cell (cell_of (hash_bits h)) y x"
    using encode_in_range [OF r, of junk GEOHASH_PRECISION] by (auto simp: p)
  obtain k where k: "geohash_encode (\<lambda>_. 0) lat lon GEOHASH_PRECISION = Inr (Some (k @ [0]))"
    "length k = 8" "set k \<subseteq> set char_map" "in_cell (cell_of (hash_bits k)) y x"
    using encode_in_range [OF r, of "\<lambda>_. 0" GEOHASH_PRECISION] by (auto simp: p)
  have "hash_bits h = hash_bits k" using h(2,4) k(2,4) by (intro in_cell_unique) (simp_all add: hash_bits_length)
  then have "h = k" using h k by (intro hash_bits_inject) simp_all
  moreover have "point_key lat lon = k" using k(1,3) by (simp add: point_key_def hash_no_nul)
  ultimately show "geohash_encode junk lat lon GEOHASH_PRECISION = Inr (Some (point_key lat lon @ [0]))"
    "length (point_key lat lon) = 8" "set (point_key lat lon) \<subseteq> set char_map" using h k by simp_all
qed

lemma encode_off_earth:
  "\<not> on_earth lat lon \<Longrightarrow> geohash_encode junk lat lon GEOHASH_PRECISION = Inr None"
  using range_iff [of lat 90] range_iff [of lon 180] by (intro encode_out_of_range) (auto simp: on_earth_def)

section \<open>The invariant\<close>

definition record_ok :: "byte list \<Rightarrow> byte list \<Rightarrow> bool" where
  "record_ok k v \<longleftrightarrow> length k = 8 \<and> set k \<subseteq> set char_map \<and> nulterm v \<and> length v \<le> 8192"

definition server_ok ::
  "('l \<Rightarrow> byte list \<Rightarrow> record_map) \<Rightarrow> ('l \<Rightarrow> nat \<Rightarrow> env_status option) \<Rightarrow> ('l \<Rightarrow> bool) \<Rightarrow> nat \<Rightarrow> nat
     \<Rightarrow> byte list \<Rightarrow> ('l, 'n) server \<Rightarrow> bool" where
  "server_ok disk env healthy main e p s \<longleftrightarrow>
     the_db s = Some \<lparr>db_env = e, db_dbi = main\<rparr> \<and> healthy (records s)
     \<and> env (records s) e = Some (Opened p)
     \<and> (\<forall>k v. disk (records s) p k = Some v \<longrightarrow> record_ok k v)
     \<and> (\<forall>g. geo_texts s = Some g \<longrightarrow> bufs_ok g) \<and> static_ok (geo_static s)
     \<and> distinct (map fst (appcache s)) \<and> (\<forall>a \<in> set (appcache s). utf8_text (fst a))
     \<and> utf8_text (api_provider s)"

definition moment_ok :: "moment \<Rightarrow> bool" where
  "moment_ok M \<longleftrightarrow> length (m_stack M) = 8192 \<and> nulterm (m_beyond M)"

lemma record_ok_key: "record_ok k v \<Longrightarrow> valid_key k"
  by (auto simp: record_ok_def valid_key_def)

lemma filled_record:
  "record_ok k v \<Longrightarrow> length buf = 8192 \<Longrightarrow> filled (Some v) buf = (int (length v), v @ drop (length v) buf)"
  by (simp add: filled_def record_ok_def min_def)

lemma nulterm_length: "nulterm v \<Longrightarrow> 0 < length v"
  by (cases v) auto

lemma renew_texts_ok:
  assumes "\<forall>g. t = Some g \<longrightarrow> bufs_ok g"
  obtains g where "renew_texts t = Inr g" "holds g no_texts"
proof -
  have r: "\<exists>b. utstring_renew (map_option f t) = Inr b \<and> ut_inv b \<and> ut_d b = []"
    if "\<And>g. bufs_ok g \<Longrightarrow> ut_inv (f g)" for f
    using that assms by (intro utstring_renew_ok) auto
  obtain a where a: "utstring_renew (map_option g_addr t) = Inr a" "ut_inv a" "ut_d a = []"
    using r [of g_addr] by (auto simp: bufs_ok_def)
  obtain b where b: "utstring_renew (map_option g_rawdata t) = Inr b" "ut_inv b" "ut_d b = []"
    using r [of g_rawdata] by (auto simp: bufs_ok_def)
  obtain c where c: "utstring_renew (map_option g_locality t) = Inr c" "ut_inv c" "ut_d c = []"
    using r [of g_locality] by (auto simp: bufs_ok_def)
  obtain d where d: "utstring_renew (map_option g_cc t) = Inr d" "ut_inv d" "ut_d d = []"
    using r [of g_cc] by (auto simp: bufs_ok_def)
  obtain e where e: "utstring_renew (map_option g_tzname t) = Inr e" "ut_inv e" "ut_d e = []"
    using r [of g_tzname] by (auto simp: bufs_ok_def)
  show ?thesis
    using a b c d e
    by (intro that [of "\<lparr>g_addr = a, g_rawdata = b, g_locality = c, g_cc = d, g_tzname = e\<rparr>"])
      (simp_all add: renew_texts_def holds_def bufs_ok_def no_texts_def)
qed

lemma find_app_map_of: "find_app cache a = map_of cache a"
  by (induction cache) auto

lemma set_app_keys: "map fst (set_app cache a q) = map fst cache"
  by (induction cache) auto

lemma count_app_keys:
  "map fst (count_app cache a) = (if a \<in> fst ` set cache then map fst cache else map fst cache @ [a])"
  by (auto simp: count_app_def find_app_map_of set_app_keys map_of_eq_None_iff split: option.split
      dest!: map_of_SomeD intro: rev_image_eqI)

lemma count_app_ok:
  assumes "distinct (map fst cache)" and "\<forall>x \<in> set cache. utf8_text (fst x)" and "utf8_text a"
  shows "distinct (map fst (count_app cache a)) \<and> (\<forall>x \<in> set (count_app cache a). utf8_text (fst x))"
proof -
  have "\<forall>k \<in> set (map fst (count_app cache a)). utf8_text k" using assms(2,3) by (auto simp: count_app_keys)
  moreover have "distinct (map fst (count_app cache a))" using assms(1) by (auto simp: count_app_keys)
  ultimately show ?thesis by simp
qed

locale daemon = open_store "lib_lmdb W" disk env txn cursor healthy main e p
  for W :: "('l, 'n) libs" and disk env txn cursor healthy main e p +
  assumes version_text: "utf8_text (lib_mhd_version W)" and path_text: "utf8_text p"
begin

abbreviation ok :: "('l, 'n) server \<Rightarrow> bool" where
  "ok s \<equiv> server_ok disk env healthy main e p s"

lemma lookup_ok:
  assumes "ok s" and "length buf = 8192"
  obtains l where "db_get (lib_lmdb W) (the_db s) k buf (records s) = Inr (case disk (records s) p k of
      None \<Rightarrow> (- 1, buf) | Some v \<Rightarrow> (int (length v), v @ drop (length v) buf), l)"
    "healthy l" "env l e = Some (Opened p)" "disk l p = disk (records s) p"
proof -
  have ready: "healthy (records s) \<and> env (records s) e = Some (Opened p)"
    and key: "disk (records s) p k = None \<or> valid_key k"
    using assms(1) record_ok_key by (cases "disk (records s) p k"; auto simp: server_ok_def)+
  obtain l where l: "db_get (lib_lmdb W) handle k buf (records s) = Inr (filled (disk (records s) p k) buf, l)"
    "healthy l \<and> env l e = Some (Opened p)" "disk l p = disk (records s) p"
    using ready key by (rule store.getE)
  have "filled (disk (records s) p k) buf = (case disk (records s) p k of
      None \<Rightarrow> (- 1, buf) | Some v \<Rightarrow> (int (length v), v @ drop (length v) buf))"
  proof (cases "disk (records s) p k")
    case (Some v)
    then have "record_ok k v" using assms(1) by (simp add: server_ok_def)
    from filled_record [OF this assms(2)] Some show ?thesis by simp
  qed (simp add: filled_def)
  then show ?thesis using l assms(1) by (intro that [of l]) (auto simp: server_ok_def)
qed

text \<open>A request that is answered from the database.\<close>

lemma reverse_cached_ok:
  assumes "nulterm v"
  shows "reverse_cached M (v @ r) s = Inr (json_answer M (JObject (members [(''address'', cached_of v)])),
    s\<lparr>stat_counts := (stat_counts s)\<lparr>lmdb_hits := lmdb_hits (stat_counts s) + 1\<rparr>\<rparr>)"
proof -
  have "printable (JObject (members [(''address'', cached_of v)]))"
    using cached_members_printable [OF assms] by (auto simp: cached_of_def)
  from send_json_ok [OF this, of M] show ?thesis
    by (simp add: reverse_cached_def stored_address_ok [OF assms] json_mkobject_def cached_of_def Let_def)
qed

end

section \<open>Fresh answers\<close>

text \<open>What the service says about a point, when it is asked.\<close>

definition answer_for :: "('l, 'n) libs \<Rightarrow> ('l, 'n) server \<Rightarrow> double \<Rightarrow> double \<Rightarrow> texts option" where
  "answer_for W s lat lon =
     (if d_eq lat (DFin 0) \<and> d_eq lon (DFin 0) then None
      else service_texts (api_provider s)
        (fst (lib_curl W (service_url (apikey s) (api_provider s) lat lon) (network (geo_static s)))))"

definition address_answer :: "moment \<Rightarrow> json \<Rightarrow> answer" where
  "address_answer M address = json_answer M (JObject (members [(''address'', address)]))"

lemma send_address:
  "printable obj \<Longrightarrow> c_bind (append_members json_mkobject [(''address'', obj)]) (\<lambda>json.
     c_bind (send_json M json) (\<lambda>a. Inr (a, s))) = Inr (address_answer M obj, s)"
  by (simp add: json_mkobject_def send_json_ok address_answer_def)

lemma appended_no_texts [simp]: "appended no_texts u = u"
  by (cases u) (simp add: appended_def no_texts_def)

lemma answer_forE:
  assumes "service_ok (api_provider s) (lib_curl W)" and "static_ok (geo_static s)" and "holds g no_texts"
  obtains g' gs where
    "revgeo_getdata (lib_curl W) (apikey s) (api_provider s) lat lon g (geo_static s)
       = Inr ((answer_for W s lat lon \<noteq> None, g'), gs)"
    "static_ok gs"
    "case answer_for W s lat lon of None \<Rightarrow> \<exists>u. holds g' u \<and> places_ok u \<and> fresh_of ap src u = fresh_of ap src no_texts
     | Some u \<Rightarrow> holds g' u \<and> texts_ok u \<and> fits u"
proof (cases "d_eq lat (DFin 0) \<and> d_eq lon (DFin 0)")
  case True
  let ?t = "ascii ''Unknown ('' @ fmt_lf lat @ ascii '','' @ fmt_lf lon @ ascii '')''"
  obtain g' where "revgeo_getdata (lib_curl W) (apikey s) (api_provider s) lat lon g (geo_static s)
      = Inr ((False, g'), geo_static s)" "holds g' (no_texts\<lparr>t_addr := t_addr no_texts @ ?t\<rparr>)"
    using getdata_origin [OF assms(3), of lat lon] True by blast
  moreover have "fresh_of ap src (no_texts\<lparr>t_addr := t_addr no_texts @ ?t\<rparr>) = fresh_of ap src no_texts"
    by (simp add: fresh_of_def)
  moreover have "places_ok (no_texts\<lparr>t_addr := t_addr no_texts @ ?t\<rparr>)" by simp
  ultimately show ?thesis
    using True assms(2) by (intro that [of g' "geo_static s"]) (auto simp: answer_for_def)
next
  case False
  let ?url = "service_url (apikey s) (api_provider s) lat lon"
  obtain reply n where p: "lib_curl W ?url (network (geo_static s)) = (reply, n)"
    by (cases "lib_curl W ?url (network (geo_static s))")
  have ans: "answer_for W s lat lon = service_texts (api_provider s) reply"
    using False by (auto simp: answer_for_def p)
  have r: "readable (api_provider s) reply" "\<And>u. service_texts (api_provider s) reply = Some u \<Longrightarrow> fits u"
    using assms(1) unfolding service_ok_def by (metis p fst_conv)+
  obtain g' gs where g': "revgeo_getdata (lib_curl W) (apikey s) (api_provider s) lat lon g (geo_static s)
      = Inr ((service_texts (api_provider s) reply \<noteq> None, g'), gs)"
    "holds g' (case service_texts (api_provider s) reply of None \<Rightarrow> no_texts\<lparr>t_rawdata := []\<rparr> | Some u \<Rightarrow> appended no_texts u)"
    "static_ok gs" using getdata_request [where perform = "lib_curl W", OF assms(3,2) False p r(1)] by blast
  show ?thesis
  proof (cases "service_texts (api_provider s) reply")
    case None
    have "fresh_of ap src (no_texts\<lparr>t_rawdata := []\<rparr>) = fresh_of ap src no_texts" by (simp add: fresh_of_def)
    moreover have "places_ok (no_texts\<lparr>t_rawdata := []\<rparr>)" by simp
    ultimately show ?thesis using g' None by (intro that [of g' gs]) (auto simp: ans)
  next
    case (Some u)
    then have "fits u" "utf8_texts u" using r(2) service_texts_utf8 by blast+
    then show ?thesis using g' Some by (intro that [of g' gs]) (simp_all add: ans fits_ok)
  qed
qed

context daemon
begin

lemma reverse_fresh_ok:
  assumes "ok s" and "service_ok (api_provider s) (lib_curl W)" and "holds g no_texts"
    and k: "length k = 8" "set k \<subseteq> set char_map"
  shows "\<exists>g' gs l. bufs_ok g' \<and> static_ok gs \<and> healthy l \<and> env l e = Some (Opened p) \<and>
    (case answer_for W s lat lon of
       None \<Rightarrow> disk l p = disk (records s) p \<and> reverse_fresh W M lat lon k g s =
         Inr (address_answer M (fresh_of (ascii ''unknown address'') (api_provider s) no_texts),
           s\<lparr>geo_static := gs, geo_texts := Some g', records := l,
             stat_counts := (count_service s)\<lparr>geofail := geofail (stat_counts s) + 1\<rparr>\<rparr>)
     | Some u \<Rightarrow> fits u \<and> texts_ok u \<and> disk l p = (disk (records s) p)(k \<mapsto> shown (record_of u) @ [0])
         \<and> reverse_fresh W M lat lon k g s =
         Inr (address_answer M (fresh_of (t_addr u) (api_provider s) u),
           s\<lparr>geo_static := gs, geo_texts := Some g', stat_counts := count_service s, records := l\<rparr>))"
proof -
  have s: "the_db s = handle" "healthy (records s) \<and> env (records s) e = Some (Opened p)"
    "static_ok (geo_static s)" "utf8_text (api_provider s)"
    using assms(1) by (auto simp: server_ok_def)
  let ?unknown = "ascii ''unknown address''"
  obtain g' gs where g': "revgeo_getdata (lib_curl W) (apikey s) (api_provider s) lat lon g (geo_static s)
       = Inr ((answer_for W s lat lon \<noteq> None, g'), gs)" "static_ok gs"
    "case answer_for W s lat lon of None \<Rightarrow> \<exists>u. holds g' u \<and> places_ok u
         \<and> fresh_of ?unknown (api_provider s) u = fresh_of ?unknown (api_provider s) no_texts
     | Some u \<Rightarrow> holds g' u \<and> texts_ok u \<and> fits u"
    using assms(2) s(3) assms(3) by (rule answer_forE)
  have fail: "geofail (count_service s) = geofail (stat_counts s)"
    by (simp add: count_service_def Let_def)
  show ?thesis
  proof (cases "answer_for W s lat lon")
    case None
    then obtain u where u: "holds g' u" "places_ok u"
      "fresh_of ?unknown (api_provider s) u = fresh_of ?unknown (api_provider s) no_texts" using g'(3) by auto
    have pr: "printable (fresh_of ?unknown (api_provider s) no_texts)"
      using s(4) by (intro fresh_of_printable) simp_all
    have "reverse_fresh W M lat lon k g s =
         Inr (address_answer M (fresh_of ?unknown (api_provider s) no_texts),
           s\<lparr>geo_static := gs, geo_texts := Some g',
             stat_counts := (count_service s)\<lparr>geofail := geofail (stat_counts s) + 1\<rparr>\<rparr>)"
      using g'(1) None send_address [OF pr, of M] fresh_address_ok [OF u(1,2)]
      by (simp add: reverse_fresh_def Let_def u(3) fail)
    then show ?thesis
      using None g'(2) u(1) s(2)
      by (intro exI [of _ g'] exI [of _ gs] exI [of _ "records s"]) (simp add: holds_def)
  next
    case (Some u)
    then have u: "holds g' u" "texts_ok u" "fits u" using g'(3) by auto
    then have places: "places_ok u" "utf8_text (t_addr u)" by (simp_all add: texts_ok_def)
    have key: "valid_key k" using k by (auto simp: valid_key_def)
    obtain l where l: "db_put (lib_lmdb W) handle k (shown (record_of u)) (records s) = Inr (0, l)"
      "healthy l \<and> env l e = Some (Opened p)" "disk l p = (disk (records s) p)(k \<mapsto> shown (record_of u) @ [0])"
      using s(2) key shown_record_delete by (rule store.putE)
    have pr: "printable (fresh_of (t_addr u) (api_provider s) u)"
      using s(4) places by (intro fresh_of_printable) simp_all
    have "reverse_fresh W M lat lon k g s =
         Inr (address_answer M (fresh_of (t_addr u) (api_provider s) u),
           s\<lparr>geo_static := gs, geo_texts := Some g', stat_counts := count_service s, records := l\<rparr>)"
      using g'(1) Some send_address [OF pr, of M] fresh_address_ok [OF u(1) places(1)]
        address_record_ok [OF u(1,2)] stringify_shown [OF record_of_printable [OF u(2)]] l(1)
      by (simp add: reverse_fresh_def Let_def holds_addr [OF u(1,2)] s(1))
    then show ?thesis
      using Some g'(2) u l(2,3)
      by (intro exI [of _ g'] exI [of _ gs] exI [of _ l]) (simp add: holds_def)
  qed
qed

end

end
