(* ===== verification/Revgeod_Handlers.thy ===== *)
theory Revgeod_Handlers
  imports Revgeod_Server
begin

text \<open>
  The outcome of every handler of revgeod.c in a daemon whose server satisfies the invariant: the
  answer and the new server on each branch. The lemmas are proved in the locale \<open>daemon\<close>;
  the properties of the daemon rest on them.
\<close>

definition bump_requests :: "('l, 'n) server \<Rightarrow> ('l, 'n) server" where
  "bump_requests s = s\<lparr>stat_counts := (stat_counts s)\<lparr>requests := requests (stat_counts s) + 1\<rparr>\<rparr>"

definition count_arg :: "request \<Rightarrow> ('l, 'n) server \<Rightarrow> ('l, 'n) server" where
  "count_arg rq s = (case rq_arg rq (ascii ''app'') of None \<Rightarrow> s
     | Some a \<Rightarrow> if a = [] then s else s\<lparr>appcache := count_app (appcache s) a\<rparr>)"

text \<open>The point a request asks for, when it names one.\<close>

definition point_of :: "request \<Rightarrow> (double \<times> double) option" where
  "point_of rq = (case (rq_arg rq (ascii ''lat''), rq_arg rq (ascii ''lon'')) of
     (Some la, Some lo) \<Rightarrow> if la = [] \<or> lo = [] then None else Some (atof la, atof lo)
   | _ \<Rightarrow> None)"

lemma get_reversegeo_cases:
  "get_reversegeo W M rq s = (case point_of rq of
     None \<Rightarrow> Inr (text_answer M ''One of lat or lon missing'' NOT_ACCEPTABLE, count_arg rq (bump_requests s))
   | Some (lat, lon) \<Rightarrow> reverse_point W M lat lon (count_arg rq (bump_requests s)))"
  by (auto simp: get_reversegeo_def point_of_def count_arg_def bump_requests_def Let_def split: option.split)

lemma reverse_point_off:
  "\<not> on_earth lat lon \<Longrightarrow> reverse_point W M lat lon s = Inr (text_answer M ''Cannot encode to geohash'' NOT_ACCEPTABLE, s)"
  by (simp add: reverse_point_def encode_off_earth)

lemma answer_for_cong:
  "apikey s' = apikey s \<Longrightarrow> api_provider s' = api_provider s \<Longrightarrow> geo_static s' = geo_static s \<Longrightarrow>
   answer_for W s' = answer_for W s"
  by (simp add: answer_for_def fun_eq_iff)

lemma count_arg_fields [simp]:
  "apikey (count_arg rq s) = apikey s" "api_provider (count_arg rq s) = api_provider s"
  "the_db (count_arg rq s) = the_db s" "stat_counts (count_arg rq s) = stat_counts s"
  "geo_texts (count_arg rq s) = geo_texts s" "geo_static (count_arg rq s) = geo_static s"
  "records (count_arg rq s) = records s"
  by (simp_all add: count_arg_def split: option.split)

lemma bump_requests_fields [simp]:
  "apikey (bump_requests s) = apikey s" "api_provider (bump_requests s) = api_provider s"
  "the_db (bump_requests s) = the_db s" "appcache (bump_requests s) = appcache s"
  "geo_texts (bump_requests s) = geo_texts s" "geo_static (bump_requests s) = geo_static s"
  "records (bump_requests s) = records s"
  "stat_counts (bump_requests s) = (stat_counts s)\<lparr>requests := requests (stat_counts s) + 1\<rparr>"
  by (simp_all add: bump_requests_def)

text \<open>The application names of a request are valid UTF-8.\<close>

definition app_ok :: "request \<Rightarrow> bool" where
  "app_ok rq \<longleftrightarrow> (\<forall>a. rq_arg rq (ascii ''app'') = Some a \<longrightarrow> utf8_text a)"

text \<open>The entry of \<open>/dump\<close> for a record.\<close>

definition centre :: "byte list \<Rightarrow> GeoCoord" where
  "centre k = box_of (cell_of (hash_bits k))"

definition dump_entry :: "byte list \<times> byte list \<Rightarrow> json" where
  "dump_entry kv = JObject (members [(''lat'', JNumber (latitude (centre (fst kv)))),
      (''lon'', JNumber (longitude (centre (fst kv)))), (''ghash'', JString (fst kv))]
    @ (case json_decode (snd kv) of Inr (Some j) \<Rightarrow> strings_in (Some j) elems | _ \<Rightarrow> []))"

lemma hash_ascii: "set h \<subseteq> set char_map \<Longrightarrow> utf8_text h"
proof (rule utf8_text_ascii)
  assume h: "set h \<subseteq> set char_map"
  have "list_all (\<lambda>c. c \<noteq> 0 \<and> c < 0x80) char_map" by code_simp
  then show "plain_ascii h" using h by (auto simp: plain_ascii_def list_all_iff)
qed

lemma centre_valid:
  assumes "length k = 8"
  shows "valid_double (latitude (centre k))" "valid_double (longitude (centre k))"
proof -
  obtain e ng kg nt kt where s: "cell_of (hash_bits k) = (e, (ng, kg), (nt, kt))"
    by (cases "cell_of (hash_bits k)") auto
  have n: "nt = 20" "ng = 20" using cell_counts [OF s] assms by simp_all
  have "kg < 2 ^ ng" "kt < 2 ^ nt" using cell_index_bounds [of "hash_bits k"] by (simp_all add: s)
  then have "2 * kt + 1 \<le> 2 ^ Suc nt" "2 * kg + 1 \<le> 2 ^ Suc ng" by simp_all
  then have "representable (grid 90 (Suc nt) (2 * kt + 1))" "representable (grid 180 (Suc ng) (2 * kg + 1))"
    using n by (intro grid_representable; simp)+
  then show "valid_double (latitude (centre k))" "valid_double (longitude (centre k))"
    by (simp_all add: centre_def s box_of_def)
qed

lemma enumhelper_ok:
  assumes "record_ok k v" and "nulterm beyond"
  shows "enumhelper beyond k v (JArray es) = Inr (0, JArray (es @ [dump_entry (k, v)]))"
    and "printable (dump_entry (k, v))"
proof -
  have k: "length k = 8" "set k \<subseteq> set char_map" and v: "nulterm v" using assms(1) by (simp_all add: record_ok_def)
  have valid: "valid_hash k" using k by (auto simp: valid_hash_def)
  have g: "geohash_decode beyond (Some (k @ [0])) = Inr (centre k)"
    using decode_box [OF valid assms(2), of "[]"] by (simp add: centre_def)
  have c: "cstring (k @ [0]) = k" using k(2) by (simp add: hash_no_nul)
  show "enumhelper beyond k v (JArray es) = Inr (0, JArray (es @ [dump_entry (k, v)]))"
    by (cases rule: decodeE [OF v])
      (simp_all add: enumhelper_def Let_def k(1) g c json_mkobject_def dump_entry_def json_append_element_def)
  have "\<forall>m \<in> set (case json_decode v of Inr (Some j) \<Rightarrow> strings_in (Some j) elems | _ \<Rightarrow> []).
      utf8_text (fst m) \<and> printable (snd m)"
  proof (cases rule: decodeE [OF v])
    case (2 j)
    then show ?thesis using strings_in_printable [OF _ elems_texts, of "Some j"] by (simp add: popt_def)
  qed simp
  then show "printable (dump_entry (k, v))"
    using centre_valid [OF k(1)] hash_ascii [OF k(2)] by (auto simp: dump_entry_def)
qed

lemma visit_enumhelper:
  "\<forall>(k, v) \<in> set kvs. record_ok k v \<Longrightarrow> nulterm beyond \<Longrightarrow>
   visit (enumhelper beyond) kvs (JArray es) = Inr (JArray (es @ map dump_entry kvs))"
proof (induction kvs arbitrary: es)
  case (Cons kv kvs)
  then show ?case using enumhelper_ok(1) [of "fst kv" "snd kv" beyond es] by (cases kv) auto
qed simp

lemma digit_ascii: "d < 10 \<Longrightarrow> digit d \<noteq> 0 \<and> digit d < 0x80"
proof -
  assume "d < 10"
  moreover have "list_all (\<lambda>d. digit d \<noteq> 0 \<and> digit d < 0x80) [0..<10]" by code_simp
  ultimately show ?thesis by (simp add: list_all_iff)
qed

lemma plain_ascii_append [simp]: "plain_ascii (a @ b) \<longleftrightarrow> plain_ascii a \<and> plain_ascii b"
  by (simp add: plain_ascii_def)

lemma plain_ascii_fmt_d [simp]: "plain_ascii (fmt_d i)"
proof -
  have "plain_ascii (dec_digits n)" for n
    by (induction n rule: dec_digits.induct) (subst dec_digits.simps, auto simp: plain_ascii_def digit_ascii)
  moreover have "plain_ascii (fmt_sign b)" for b by (simp add: fmt_sign_def plain_ascii_def)
  ultimately show ?thesis by (simp add: fmt_d_def)
qed

lemma uptime_text [simp]: "utf8_text (uptime t n)"
proof (rule utf8_text_ascii)
  have "plain_ascii (ascii '' days, '')" "plain_ascii (ascii '' hours, '')" "plain_ascii (ascii '' mins'')"
    by code_simp+
  then have "plain_ascii (fmt_d (uptime_days t) @ ascii '' days, '' @ fmt_d (uptime_hours t) @ ascii '' hours, ''
      @ fmt_d (uptime_mins t) @ ascii '' mins'')" by simp
  then show "plain_ascii (uptime t n)"
    unfolding uptime_def plain_ascii_def list_all_iff by (meson in_set_takeD)
qed

context daemon
begin

lemma ok_ready: "ok s \<Longrightarrow> healthy (records s) \<and> env (records s) e = Some (Opened p)"
  and ok_db: "ok s \<Longrightarrow> the_db s = handle"
  by (simp_all add: server_ok_def)

lemma ok_counts: "ok s \<Longrightarrow> ok (s\<lparr>stat_counts := st\<rparr>)"
  by (simp add: server_ok_def)

lemma ok_count_arg: "ok s \<Longrightarrow> app_ok rq \<Longrightarrow> ok (count_arg rq s)"
  using count_app_ok by (auto simp: server_ok_def count_arg_def app_ok_def split: option.splits)

lemma ok_bump: "ok s \<Longrightarrow> ok (bump_requests s)"
  unfolding bump_requests_def by (rule ok_counts)

lemma ok_records:
  assumes "ok s" and "healthy l" and "env l e = Some (Opened p)" and "\<And>k v. disk l p k = Some v \<Longrightarrow> record_ok k v"
  shows "ok (s\<lparr>records := l\<rparr>)"
  using assms by (auto simp: server_ok_def)

lemma ok_same_disk:
  assumes "ok s" and "healthy l" and "env l e = Some (Opened p)" and "disk l p = disk (records s) p"
  shows "ok (s\<lparr>records := l\<rparr>)"
  using assms by (auto simp: server_ok_def)

lemma ok_texts: "ok s \<Longrightarrow> bufs_ok g \<Longrightarrow> ok (s\<lparr>geo_texts := Some g\<rparr>)"
  and ok_static: "ok s \<Longrightarrow> static_ok gs \<Longrightarrow> ok (s\<lparr>geo_static := gs\<rparr>)"
  by (simp_all add: server_ok_def)

lemma ok_record: "ok s \<Longrightarrow> disk (records s) p k = Some v \<Longrightarrow> record_ok k v"
  by (simp add: server_ok_def)

section \<open>/rev\<close>

lemma reverse_point_start:
  assumes "ok s" and "moment_ok M" and "on_earth lat lon"
  obtains g l where "holds g no_texts" "healthy l" "env l e = Some (Opened p)" "disk l p = disk (records s) p"
    "reverse_point W M lat lon s =
       (case disk (records s) p (point_key lat lon) of
          None \<Rightarrow> reverse_fresh W M lat lon (point_key lat lon) g (s\<lparr>geo_texts := Some g, records := l\<rparr>)
        | Some v \<Rightarrow> reverse_cached M (v @ drop (length v) (m_stack M)) (s\<lparr>geo_texts := Some g, records := l\<rparr>))"
proof -
  note enc = encode_point [OF assms(3)]
  have h: "string_at (point_key lat lon @ [0]) = Inr (point_key lat lon)"
    using enc(3) by (simp add: hash_no_nul)
  obtain g where g: "renew_texts (geo_texts s) = Inr g" "holds g no_texts"
    using renew_texts_ok [of "geo_texts s"] assms(1) by (auto simp: server_ok_def)
  have "length (m_stack M) = 8192" using assms(2) by (simp add: moment_ok_def)
  with assms(1) obtain l where l: "db_get (lib_lmdb W) (the_db s) (point_key lat lon) (m_stack M) (records s)
      = Inr (case disk (records s) p (point_key lat lon) of
      None \<Rightarrow> (- 1, m_stack M) | Some v \<Rightarrow> (int (length v), v @ drop (length v) (m_stack M)), l)"
    "healthy l" "env l e = Some (Opened p)" "disk l p = disk (records s) p" by (rule lookup_ok)
  have pos: "0 < length v" if "disk (records s) p (point_key lat lon) = Some v" for v
    using ok_record [OF assms(1) that] by (intro nulterm_length) (simp add: record_ok_def)
  show ?thesis
    using g l enc(1) pos
    by (intro that [of g l]) (auto simp: reverse_point_def h Let_def split: option.split)
qed

lemma reverse_point_cached:
  assumes "ok s" and "moment_ok M" and "on_earth lat lon"
    and "disk (records s) p (point_key lat lon) = Some v"
  obtains g l where "bufs_ok g" "healthy l" "env l e = Some (Opened p)" "disk l p = disk (records s) p"
    "reverse_point W M lat lon s = Inr (address_answer M (cached_of v),
       s\<lparr>geo_texts := Some g, records := l,
         stat_counts := (stat_counts s)\<lparr>lmdb_hits := lmdb_hits (stat_counts s) + 1\<rparr>\<rparr>)"
proof -
  have v: "nulterm v" using ok_record [OF assms(1,4)] by (simp add: record_ok_def)
  obtain g l where "holds g no_texts" "healthy l" "env l e = Some (Opened p)" "disk l p = disk (records s) p"
    "reverse_point W M lat lon s =
       (case disk (records s) p (point_key lat lon) of
          None \<Rightarrow> reverse_fresh W M lat lon (point_key lat lon) g (s\<lparr>geo_texts := Some g, records := l\<rparr>)
        | Some v \<Rightarrow> reverse_cached M (v @ drop (length v) (m_stack M)) (s\<lparr>geo_texts := Some g, records := l\<rparr>))"
    using assms(1-3) by (rule reverse_point_start)
  then show ?thesis
    using assms(4) by (intro that [of g l]) (simp_all add: reverse_cached_ok [OF v] holds_def address_answer_def)
qed

text \<open>The server after a fresh answer, when the service said \<open>u\<close>.\<close>

definition after_fresh :: "('l, 'n) server \<Rightarrow> byte list \<Rightarrow> texts option \<Rightarrow> ('l, 'n) server \<Rightarrow> bool" where
  "after_fresh s k u s' \<longleftrightarrow> ok s' \<and> apikey s' = apikey s \<and> api_provider s' = api_provider s
     \<and> appcache s' = appcache s
     \<and> stat_counts s' = (if u = None then (count_service s)\<lparr>geofail := geofail (stat_counts s) + 1\<rparr> else count_service s)
     \<and> disk (records s') p = (case u of None \<Rightarrow> disk (records s) p
         | Some t \<Rightarrow> (disk (records s) p)(k \<mapsto> shown (record_of t) @ [0]))"

lemma reverse_point_fresh:
  assumes "ok s" and "moment_ok M" and "on_earth lat lon" and "service_ok (api_provider s) (lib_curl W)"
    and "disk (records s) p (point_key lat lon) = None"
  obtains s' where "after_fresh s (point_key lat lon) (answer_for W s lat lon) s'"
    "reverse_point W M lat lon s = Inr (address_answer M (case answer_for W s lat lon of
         None \<Rightarrow> fresh_of (ascii ''unknown address'') (api_provider s) no_texts
       | Some u \<Rightarrow> fresh_of (t_addr u) (api_provider s) u), s')"
proof -
  let ?k = "point_key lat lon"
  obtain g l where g: "holds g no_texts" and l: "healthy l" "env l e = Some (Opened p)"
      "disk l p = disk (records s) p"
    and run: "reverse_point W M lat lon s =
       (case disk (records s) p ?k of
          None \<Rightarrow> reverse_fresh W M lat lon ?k g (s\<lparr>geo_texts := Some g, records := l\<rparr>)
        | Some v \<Rightarrow> reverse_cached M (v @ drop (length v) (m_stack M)) (s\<lparr>geo_texts := Some g, records := l\<rparr>))"
    using assms(1-3) by (rule reverse_point_start)
  let ?s = "s\<lparr>geo_texts := Some g, records := l\<rparr>"
  have ok: "ok ?s" using assms(1) g l by (simp add: server_ok_def holds_def)
  have sv: "service_ok (api_provider ?s) (lib_curl W)" using assms(4) by simp
  have ans: "answer_for W ?s = answer_for W s" by (rule answer_for_cong) simp_all
  have cnt: "count_service ?s = count_service s" by (simp add: count_service_def)
  note k = encode_point(2,3) [OF assms(3)]
  obtain g' gs l' where f: "bufs_ok g'" "static_ok gs" "healthy l'" "env l' e = Some (Opened p)"
    "case answer_for W s lat lon of
       None \<Rightarrow> disk l' p = disk (records ?s) p \<and> reverse_fresh W M lat lon ?k g ?s =
         Inr (address_answer M (fresh_of (ascii ''unknown address'') (api_provider ?s) no_texts),
           ?s\<lparr>geo_static := gs, geo_texts := Some g', records := l',
             stat_counts := (count_service ?s)\<lparr>geofail := geofail (stat_counts ?s) + 1\<rparr>\<rparr>)
     | Some u \<Rightarrow> fits u \<and> texts_ok u \<and> disk l' p = (disk (records ?s) p)(?k \<mapsto> shown (record_of u) @ [0])
         \<and> reverse_fresh W M lat lon ?k g ?s =
         Inr (address_answer M (fresh_of (t_addr u) (api_provider ?s) u),
           ?s\<lparr>geo_static := gs, geo_texts := Some g', stat_counts := count_service ?s, records := l'\<rparr>)"
    using reverse_fresh_ok [where lat = lat and lon = lon and M = M, OF ok sv g k] unfolding ans by blast
  show ?thesis
  proof (cases "answer_for W s lat lon")
    case None
    then show ?thesis
      using f assms(1,5) l
      by (intro that [of "?s\<lparr>geo_static := gs, geo_texts := Some g', records := l',
             stat_counts := (count_service ?s)\<lparr>geofail := geofail (stat_counts ?s) + 1\<rparr>\<rparr>"])
        (simp_all add: run after_fresh_def server_ok_def cnt)
  next
    case (Some u)
    have "record_ok ?k (shown (record_of u) @ [0])"
      using f(5) Some k by (simp add: record_ok_def fits_def)
    then show ?thesis
      using f assms(1,5) l Some
      by (intro that [of "?s\<lparr>geo_static := gs, geo_texts := Some g', stat_counts := count_service ?s, records := l'\<rparr>"])
        (auto simp: run after_fresh_def server_ok_def cnt)
  qed
qed

section \<open>/stats\<close>

definition stats_of :: "moment \<Rightarrow> nat \<Rightarrow> ('l, 'n) server \<Rightarrow> json" where
  "stats_of M n s = (let st = (stat_counts s)\<lparr>stats := stats (stat_counts s) + 1\<rparr> in
     JObject (members
      ([(''stats'', JObject (members
          [(''_whoami'', JString (ascii ''revgeod.c'')),
           (''_version'', JString (ascii ''0.3.8'')),
           (''_mhdversion'', JString (lib_mhd_version W)),
           (''stats'', mkcount (stats st)),
           (''requests'', mkcount (requests st)),
           (''geocode_failed'', mkcount (geofail st)),
           (''locationiq'', mkcount (locationiq st)),
           (''opencage'', mkcount (opencage st)),
           (''lmdb'', mkcount (lmdb_hits st))])),
        (''apps'', JObject (map (\<lambda>(a, q). (a, mkcount q)) (appcache s))),
        (''uptime'', mkint (m_time M 1 - launchtime st)),
        (''uptime_s'', JString (uptime (m_time M 0 - launchtime st) 8192)),
        (''tst'', mkint (m_time M 2)),
        (''db_path'', JString p),
        (''db_entries'', mkcount (of_nat n))]
       @ (case m_stat M of None \<Rightarrow> [] | Some sz \<Rightarrow> [(''db_size'', mkint sz)]))))"

lemma stats_of_printable: "ok s \<Longrightarrow> printable (stats_of M n s)"
  using version_text path_text by (auto simp: stats_of_def Let_def server_ok_def split: option.split)

lemma get_stats_ok:
  assumes "ok s"
  shows "get_stats W M s = Inr (json_answer M (stats_of M (card (dom (disk (records s) p))) s),
    s\<lparr>stat_counts := (stat_counts s)\<lparr>stats := stats (stat_counts s) + 1\<rparr>\<rparr>)"
proof -
  note path = db_getpath_ok [OF ok_ready [OF assms]] and size = db_numentries_ok [OF ok_ready [OF assms]]
  note pr = stats_of_printable [OF assms, of M "card (dom (disk (records s) p))"]
  from stringify_shown [OF pr] send_shown_ok [OF pr, of M] show ?thesis
    unfolding stats_of_def Let_def
    by (simp add: get_stats_def Let_def ok_db [OF assms] path size mkstring_def json_mkobject_def)
qed

text \<open>An application name that is not valid UTF-8 is in the table, and the printer fails on it.\<close>

lemma get_stats_fault:
  assumes "ok (s\<lparr>appcache := []\<rparr>)" and "a \<in> fst ` set (appcache s)" and "no_nul a" and "\<not> utf8_text a"
  shows "\<exists>f. get_stats W M s = Inl f"
proof -
  have s: "the_db s = handle" "healthy (records s) \<and> env (records s) e = Some (Opened p)"
    using assms(1) by (simp_all add: server_ok_def)
  note path = db_getpath_ok [OF s(2)] and size = db_numentries_ok [OF s(2)]
  let ?v = "stats_of M (card (dom (disk (records s) p))) s"
  let ?apps = "map (\<lambda>(a, q). (a, mkcount q)) (appcache s)"
  obtain q where "(a, q) \<in> set (appcache s)" using assms(2) by auto
  then have "(a, mkcount q) \<in> set ?apps" by force
  then have "\<exists>m \<in> set ?apps. \<not> utf8_text (cstring (fst m @ [0]))"
    using assms(3,4) by (intro bexI [of _ "(a, mkcount q)"]) simp_all
  then have apps: "\<not> strings_valid (JObject ?apps)" by (metis strings_valid.simps(3))
  have "\<not> strings_valid ?v"
    unfolding stats_of_def Let_def strings_valid.simps(3) [of "members _"] using apps by simp
  then obtain f where "json_stringify ?v (Some JSON_SPACE) = Inl f"
    using stringify_valid by (cases "json_stringify ?v (Some JSON_SPACE)") auto
  then show ?thesis
    unfolding stats_of_def Let_def
    by (simp add: get_stats_def Let_def s(1) path size mkstring_def json_mkobject_def)
qed

section \<open>/dump, /kill and /lookup\<close>

lemma get_dumpall_ok:
  assumes "ok s" and "moment_ok M"
  obtains kvs l where "in_key_order kvs" "map_of kvs = disk (records s) p"
    "get_dumpall W M s = Inr (json_answer M (JArray (map dump_entry kvs)), s\<lparr>records := l\<rparr>)"
    "healthy l" "env l e = Some (Opened p)" "disk l = disk (records s)"
proof -
  obtain kvs where kvs: "in_key_order kvs" "map_of kvs = disk (records s) p"
    "case visit (enumhelper (m_beyond M)) kvs json_mkarray of
       Inl f \<Rightarrow> db_enum (lib_lmdb W) handle (enumhelper (m_beyond M)) json_mkarray (records s) = Inl f
     | Inr a' \<Rightarrow> \<exists>l'. db_enum (lib_lmdb W) handle (enumhelper (m_beyond M)) json_mkarray (records s) = Inr ((0, a'), l')
         \<and> (healthy l' \<and> env l' e = Some (Opened p)) \<and> disk l' = disk (records s)"
    using ok_ready [OF assms(1)] by (rule db_enum_ok)
  have rec: "record_ok k v" if "(k, v) \<in> set kvs" for k v
    using that map_of_is_SomeI [OF in_key_order_distinct [OF kvs(1)]] kvs(2) ok_record [OF assms(1)] by metis
  have b: "nulterm (m_beyond M)" using assms(2) by (simp add: moment_ok_def)
  have "visit (enumhelper (m_beyond M)) kvs json_mkarray = Inr (JArray (map dump_entry kvs))"
    using visit_enumhelper [OF _ b, of kvs "[]"] rec by (auto simp: json_mkarray_def)
  with kvs(3) obtain l where l: "db_enum (lib_lmdb W) handle (enumhelper (m_beyond M)) json_mkarray (records s)
      = Inr ((0, JArray (map dump_entry kvs)), l)" "healthy l" "env l e = Some (Opened p)"
    "disk l = disk (records s)" by auto
  have pr: "printable (JArray (map dump_entry kvs))"
    using rec enumhelper_ok(2) [OF _ b] by auto
  have "get_dumpall W M s = Inr (json_answer M (JArray (map dump_entry kvs)), s\<lparr>records := l\<rparr>)"
    using l(1) stringify_shown [OF pr] send_shown_ok [OF pr, of M]
    by (simp add: get_dumpall_def ok_db [OF assms(1)])
  with kvs l show ?thesis by (intro that)
qed

lemma ok_keys: "ok s \<Longrightarrow> disk (records s) p k = None \<or> valid_key k"
  using record_ok_key [OF ok_record [of s k]] by (cases "disk (records s) p k") auto

lemma get_kill_ok:
  assumes "ok s"
  shows "(case rq_arg rq (ascii ''geohash'') of
      None \<Rightarrow> get_kill W M rq s = Inr (text_answer M ''Missing geohash'' 422, s)
    | Some k \<Rightarrow>
        if k = [] then get_kill W M rq s = Inr (text_answer M ''Missing geohash'' 422, s)
        else \<exists>l. healthy l \<and> env l e = Some (Opened p) \<and> disk l p = (disk (records s) p)(k := None)
          \<and> get_kill W M rq s = Inr (if disk (records s) p k = None then text_answer M ''Not deleted'' 404
              else text_answer M ''deleted'' 200, s\<lparr>records := l\<rparr>))"
proof (cases "rq_arg rq (ascii ''geohash'')")
  case (Some k)
  obtain l where "db_del (lib_lmdb W) handle k (records s) = Inr (if disk (records s) p k = None then 1 else 0, l)"
    "healthy l \<and> env l e = Some (Opened p)" "disk l p = (disk (records s) p)(k := None)"
    using ok_ready [OF assms] ok_keys [OF assms] by (rule store.delE)
  then show ?thesis using Some by (auto simp: get_kill_def ok_db [OF assms])
qed (simp add: get_kill_def)

lemma get_lookup_ok:
  assumes "ok s" and "moment_ok M"
  shows "(case rq_arg rq (ascii ''geohash'') of
      None \<Rightarrow> get_lookup W M rq s = Inr (text_answer M ''Missing geohash'' 422, s)
    | Some k \<Rightarrow>
        if k = [] then get_lookup W M rq s = Inr (text_answer M ''Missing geohash'' 422, s)
        else \<exists>l. healthy l \<and> env l e = Some (Opened p) \<and> disk l p = disk (records s) p
          \<and> get_lookup W M rq s = Inr (case disk (records s) p k of
              None \<Rightarrow> text_answer M ''not found'' 404
            | Some v \<Rightarrow> respond M (cstring v) (ascii ''application/json'') MHD_HTTP_OK, s\<lparr>records := l\<rparr>))"
proof (cases "rq_arg rq (ascii ''geohash'')")
  case (Some k)
  have "length (m_stack M) = 8192" using assms(2) by (simp add: moment_ok_def)
  with assms(1) obtain l where l: "db_get (lib_lmdb W) (the_db s) k (m_stack M) (records s)
      = Inr (case disk (records s) p k of
      None \<Rightarrow> (- 1, m_stack M) | Some v \<Rightarrow> (int (length v), v @ drop (length v) (m_stack M)), l)"
    "healthy l" "env l e = Some (Opened p)" "disk l p = disk (records s) p" by (rule lookup_ok)
  have v: "nulterm v" if "disk (records s) p k = Some v" for v
    using ok_record [OF assms(1) that] by (simp add: record_ok_def)
  show ?thesis
    using Some l v
    by (auto simp: get_lookup_def Let_def send_content_def string_at_def cstring_prefix split: option.split)
qed (simp add: get_lookup_def)

end

end
