(* ===== verification/Revgeod_Daemon.thy ===== *)
theory Revgeod_Daemon
  imports Revgeod_Handlers
begin

text \<open>
  The daemon as a state machine: one step is a request and its answer. The invariant is preserved
  by every step, no step faults, the counters add up, and the database is the cache of an abstract
  machine that knows nothing of buffers, transactions or JSON.
\<close>

section \<open>Requests\<close>

definition is_get :: "request \<Rightarrow> string \<Rightarrow> bool" where
  "is_get rq url \<longleftrightarrow> rq_method rq = ascii ''GET'' \<and> rq_url rq = ascii url"

lemma urls_distinct [simp]:
  "distinct [ascii ''/rev'', ascii ''/stats'', ascii ''/dump'', ascii ''/lookup'', ascii ''/kill'']"
  by code_simp

lemmas urls_differ = urls_distinct [simplified]

lemma handle_connection_cases:
  "is_get rq ''/rev'' \<Longrightarrow> handle_connection W M rq s = get_reversegeo W M rq s"
  "is_get rq ''/stats'' \<Longrightarrow> handle_connection W M rq s = get_stats W M s"
  "is_get rq ''/dump'' \<Longrightarrow> handle_connection W M rq s = get_dumpall W M s"
  "is_get rq ''/lookup'' \<Longrightarrow> handle_connection W M rq s = get_lookup W M rq s"
  "is_get rq ''/kill'' \<Longrightarrow> handle_connection W M rq s = get_kill W M rq s"
  "rq_method rq \<noteq> ascii ''GET'' \<Longrightarrow> handle_connection W M rq s = Inr (text_answer M ''not allowed'' 405, s)"
  "rq_method rq = ascii ''GET'' \<Longrightarrow>
     rq_url rq \<notin> {ascii ''/rev'', ascii ''/stats'', ascii ''/dump'', ascii ''/lookup'', ascii ''/kill''} \<Longrightarrow>
     handle_connection W M rq s = Inr (text_answer M ''four-oh-four'' 404, s)"
  using urls_differ by (auto simp: handle_connection_def is_get_def)

lemma request_kinds:
  obtains "is_get rq ''/rev''" | "is_get rq ''/stats''" | "is_get rq ''/dump''" | "is_get rq ''/lookup''"
  | "is_get rq ''/kill''" | "rq_method rq \<noteq> ascii ''GET''"
  | "rq_method rq = ascii ''GET''"
    "rq_url rq \<notin> {ascii ''/rev'', ascii ''/stats'', ascii ''/dump'', ascii ''/lookup'', ascii ''/kill''}"
  by (auto simp: is_get_def)

lemma is_get_other:
  "is_get rq ''/stats'' \<Longrightarrow> \<not> is_get rq ''/rev''" "is_get rq ''/dump'' \<Longrightarrow> \<not> is_get rq ''/rev''"
  "is_get rq ''/lookup'' \<Longrightarrow> \<not> is_get rq ''/rev''" "is_get rq ''/kill'' \<Longrightarrow> \<not> is_get rq ''/rev''"
  "is_get rq ''/rev'' \<Longrightarrow> \<not> is_get rq ''/kill''" "is_get rq ''/stats'' \<Longrightarrow> \<not> is_get rq ''/kill''"
  "is_get rq ''/dump'' \<Longrightarrow> \<not> is_get rq ''/kill''" "is_get rq ''/lookup'' \<Longrightarrow> \<not> is_get rq ''/kill''"
  using urls_differ by (auto simp: is_get_def)

text \<open>The cell a request to \<open>/rev\<close> is about; \<open>None\<close> when it is rejected.\<close>

definition cell_wanted :: "request \<Rightarrow> (double \<times> double) option" where
  "cell_wanted rq = (case point_of rq of None \<Rightarrow> None
     | Some (lat, lon) \<Rightarrow> if on_earth lat lon then Some (lat, lon) else None)"

lemma rev_rejected:
  "cell_wanted rq = None \<Longrightarrow> get_reversegeo W M rq s
     = Inr (text_answer M (if point_of rq = None then ''One of lat or lon missing'' else ''Cannot encode to geohash'')
         NOT_ACCEPTABLE, count_arg rq (bump_requests s))"
  by (cases "point_of rq") (auto simp: get_reversegeo_cases cell_wanted_def reverse_point_off split: if_splits)

text \<open>The page and the code with which a request is refused; \<open>None\<close> when it is served.\<close>

definition refusal :: "request \<Rightarrow> (string \<times> int) option" where
  "refusal rq =
     (if rq_method rq \<noteq> ascii ''GET'' then Some (''not allowed'', 405)
      else if rq_url rq = ascii ''/rev'' then
        (if point_of rq = None then Some (''One of lat or lon missing'', 406)
         else if cell_wanted rq = None then Some (''Cannot encode to geohash'', 406) else None)
      else if rq_url rq = ascii ''/kill'' \<or> rq_url rq = ascii ''/lookup'' then
        (if rq_arg rq (ascii ''geohash'') = None \<or> rq_arg rq (ascii ''geohash'') = Some []
         then Some (''Missing geohash'', 422) else None)
      else if rq_url rq = ascii ''/stats'' \<or> rq_url rq = ascii ''/dump'' then None
      else Some (''four-oh-four'', 404))"

lemma refused:
  assumes "refusal rq = Some (t, code)"
  shows "handle_connection W M rq s = Inr (text_answer M t code,
    if is_get rq ''/rev'' then count_arg rq (bump_requests s) else s)"
proof (cases "is_get rq ''/rev''")
  case True
  then have r: "cell_wanted rq = None" "t = (if point_of rq = None then ''One of lat or lon missing'' else ''Cannot encode to geohash'')"
    "code = NOT_ACCEPTABLE"
    using assms by (auto simp: refusal_def is_get_def cell_wanted_def NOT_ACCEPTABLE_def split: if_splits)
  then show ?thesis using True by (simp add: handle_connection_cases(1) rev_rejected)
next
  case False
  then show ?thesis
    using assms urls_differ
    by (auto simp: refusal_def is_get_def handle_connection_def get_kill_def get_lookup_def split: if_splits)
qed

section \<open>The abstract machine\<close>

text \<open>
  A cache from cells to records. \<open>answer\<close> is what the service would say about a point now.
\<close>

definition next_cache ::
  "(double \<Rightarrow> double \<Rightarrow> texts option) \<Rightarrow> request \<Rightarrow> record_map \<Rightarrow> record_map" where
  "next_cache answer rq cache =
     (if is_get rq ''/rev'' then
        (case cell_wanted rq of None \<Rightarrow> cache
         | Some (lat, lon) \<Rightarrow>
             (case (cache (point_key lat lon), answer lat lon) of
                (None, Some u) \<Rightarrow> cache(point_key lat lon \<mapsto> shown (record_of u) @ [0])
              | _ \<Rightarrow> cache))
      else if is_get rq ''/kill'' then
        (case rq_arg rq (ascii ''geohash'') of None \<Rightarrow> cache
         | Some k \<Rightarrow> if k = [] then cache else cache(k := None))
      else cache)"

text \<open>The counters of the answers to \<open>/rev\<close>: every accepted request increments one of three.\<close>

definition answered :: "statistics \<Rightarrow> 64 word" where
  "answered st = lmdb_hits st + opencage st + locationiq st"

lemma answered_service [simp]: "answered (count_service s) = answered (stat_counts s) + 1"
  by (simp add: answered_def count_service_def Let_def)

lemma counts_simps [simp]:
  "answered (st\<lparr>geofail := x\<rparr>) = answered st" "answered (st\<lparr>stats := x\<rparr>) = answered st"
  "answered (st\<lparr>requests := y\<rparr>) = answered st"
  "answered (st\<lparr>lmdb_hits := lmdb_hits st + 1\<rparr>) = answered st + 1"
  "requests (count_service s) = requests (stat_counts s)"
  by (simp_all add: answered_def count_service_def Let_def)

definition app_queries :: "('l, 'n) server \<Rightarrow> byte list \<Rightarrow> 64 word" where
  "app_queries s a = (case map_of (appcache s) a of None \<Rightarrow> 0 | Some q \<Rightarrow> q)"

definition names_app :: "byte list \<Rightarrow> request \<Rightarrow> bool" where
  "names_app a rq \<longleftrightarrow> is_get rq ''/rev'' \<and> a \<noteq> [] \<and> rq_arg rq (ascii ''app'') = Some a"

lemma map_of_set_app: "map_of cache a \<noteq> None \<Longrightarrow> map_of (set_app cache a q) b = (if b = a then Some q else map_of cache b)"
  by (induction cache) auto

lemma map_of_count_app:
  "map_of (count_app cache a) b =
     (if b = a then Some (case map_of cache a of None \<Rightarrow> 1 | Some q \<Rightarrow> q + 1) else map_of cache b)"
  by (auto simp: count_app_def find_app_map_of map_of_set_app map_add_def split: option.split)

lemma app_queries_count_arg:
  "is_get rq ''/rev'' \<Longrightarrow> app_queries (count_arg rq (bump_requests s)) a = app_queries s a + of_bool (names_app a rq)"
  by (auto simp: app_queries_def count_arg_def names_app_def map_of_count_app split: option.split)

text \<open>What a step does to the parts of the server that the properties speak of.\<close>

definition step_effect ::
  "('l, 'n) libs \<Rightarrow> request \<Rightarrow> ('l, 'n) server \<Rightarrow> ('l, 'n) server \<Rightarrow> bool" where
  "step_effect W rq s s' \<longleftrightarrow> apikey s' = apikey s \<and> api_provider s' = api_provider s
     \<and> requests (stat_counts s') = requests (stat_counts s) + of_bool (is_get rq ''/rev'')
     \<and> answered (stat_counts s') = answered (stat_counts s) + of_bool (is_get rq ''/rev'' \<and> cell_wanted rq \<noteq> None)
     \<and> (\<forall>a. app_queries s' a = app_queries s a + of_bool (names_app a rq))"

text \<open>Every step queues one answer, with one of five codes.\<close>

definition is_answer :: "moment \<Rightarrow> answer \<Rightarrow> bool" where
  "is_answer M a \<longleftrightarrow> (\<exists>body ctype code. code \<in> {200, 404, 405, 406, 422} \<and> a = respond M body ctype code)"

lemma is_answer_intros [simp, intro]:
  "is_answer M (json_answer M v)" "is_answer M (address_answer M v)"
  "is_answer M (respond M body ctype MHD_HTTP_OK)"
  "is_answer M (text_answer M t NOT_ACCEPTABLE)"
  "is_answer M (text_answer M t 200)" "is_answer M (text_answer M t 404)"
  "is_answer M (text_answer M t 405)" "is_answer M (text_answer M t 422)"
  unfolding is_answer_def address_answer_def MHD_HTTP_OK_def NOT_ACCEPTABLE_def by blast+

lemma ex_answer [simp]: "(\<exists>r x. a = (r, x) \<and> is_answer M (r, x)) \<longleftrightarrow> is_answer M a"
  by (cases a) simp

lemma names_app_rev: "\<not> is_get rq ''/rev'' \<Longrightarrow> \<not> names_app a rq"
  by (simp add: names_app_def)

context daemon
begin

lemma step_rev:
  assumes "ok s" and "moment_ok M" and "app_ok rq" and "service_ok (api_provider s) (lib_curl W)"
    and rev: "is_get rq ''/rev''"
  shows "\<exists>a s'. get_reversegeo W M rq s = Inr (a, s') \<and> is_answer M a \<and> ok s' \<and> step_effect W rq s s'
    \<and> disk (records s') p = next_cache (answer_for W s) rq (disk (records s) p)"
proof -
  let ?s = "count_arg rq (bump_requests s)"
  have ok: "ok ?s" using assms(1,3) by (intro ok_count_arg ok_bump)
  have sv: "service_ok (api_provider ?s) (lib_curl W)" using assms(4) by simp
  have ans: "answer_for W ?s = answer_for W s" by (rule answer_for_cong) simp_all
  note apps = app_queries_count_arg [OF rev, of s]
  show ?thesis
  proof (cases "cell_wanted rq")
    case None
    show ?thesis
      using ok None rev apps by (simp add: rev_rejected [OF None] step_effect_def next_cache_def)
  next
    case (Some x)
    then obtain lat lon where x: "point_of rq = Some (lat, lon)" "on_earth lat lon" "x = (lat, lon)"
      by (auto simp: cell_wanted_def split: option.splits prod.splits if_splits)
    have run: "get_reversegeo W M rq s = reverse_point W M lat lon ?s"
      by (simp add: get_reversegeo_cases x(1))
    show ?thesis
    proof (cases "disk (records s) p (point_key lat lon)")
      case None
      then have miss: "disk (records ?s) p (point_key lat lon) = None" by simp
      obtain s' where s': "after_fresh ?s (point_key lat lon) (answer_for W ?s lat lon) s'"
        "reverse_point W M lat lon ?s = Inr (address_answer M (case answer_for W ?s lat lon of
             None \<Rightarrow> fresh_of (ascii ''unknown address'') (api_provider ?s) no_texts
           | Some u \<Rightarrow> fresh_of (t_addr u) (api_provider ?s) u), s')"
        using ok assms(2) x(2) sv miss by (rule reverse_point_fresh)
      have "app_queries s' = app_queries ?s" using s'(1) by (simp add: app_queries_def after_fresh_def fun_eq_iff)
      then have "ok s' \<and> step_effect W rq s s'
          \<and> disk (records s') p = next_cache (answer_for W s) rq (disk (records s) p)"
        using s'(1) rev Some x(3) None apps unfolding after_fresh_def ans step_effect_def next_cache_def
        by (auto split: option.split)
      then show ?thesis using s'(2) by (auto simp: run)
    next
      case (Some v)
      then have hit: "disk (records ?s) p (point_key lat lon) = Some v" by simp
      obtain g l where l: "bufs_ok g" "healthy l" "env l e = Some (Opened p)" "disk l p = disk (records ?s) p"
        "reverse_point W M lat lon ?s = Inr (address_answer M (cached_of v),
           ?s\<lparr>geo_texts := Some g, records := l,
             stat_counts := (stat_counts ?s)\<lparr>lmdb_hits := lmdb_hits (stat_counts ?s) + 1\<rparr>\<rparr>)" (is "_ = Inr (_, ?s')")
        using ok assms(2) x(2) hit by (rule reverse_point_cached)
      have "ok ?s'" using ok l by (simp add: server_ok_def)
      moreover have "app_queries ?s' = app_queries ?s" by (simp add: app_queries_def fun_eq_iff)
      ultimately have "ok ?s' \<and> step_effect W rq s ?s'
          \<and> disk (records ?s') p = next_cache (answer_for W s) rq (disk (records s) p)"
        using l(4) rev \<open>cell_wanted rq = Some x\<close> x(3) Some apps
        by (simp add: step_effect_def next_cache_def answered_def)
      then show ?thesis using l(5) by (auto simp: run)
    qed
  qed
qed

lemma step_effect_refl:
  "\<not> is_get rq ''/rev'' \<Longrightarrow> step_effect W rq s (s\<lparr>records := l\<rparr>)"
  "\<not> is_get rq ''/rev'' \<Longrightarrow> step_effect W rq s s"
  "\<not> is_get rq ''/rev'' \<Longrightarrow> step_effect W rq s (s\<lparr>stat_counts := (stat_counts s)\<lparr>stats := x\<rparr>\<rparr>)"
  by (simp_all add: step_effect_def names_app_rev app_queries_def)

lemma next_cache_id:
  "\<not> is_get rq ''/rev'' \<Longrightarrow> \<not> is_get rq ''/kill'' \<Longrightarrow> next_cache answer rq cache = cache"
  by (simp add: next_cache_def)

lemma ok_deleted:
  assumes "ok s" and "healthy l" and "env l e = Some (Opened p)"
    and "disk l p = (disk (records s) p)(k := None)"
  shows "ok (s\<lparr>records := l\<rparr>)"
proof (rule ok_records [OF assms(1-3)])
  fix k' v
  assume "disk l p k' = Some v"
  then have "disk (records s) p k' = Some v" using assms(4) by (simp split: if_splits)
  with assms(1) show "record_ok k' v" by (rule ok_record)
qed

lemma step_ok:
  assumes "ok s" and "moment_ok M" and "app_ok rq" and "service_ok (api_provider s) (lib_curl W)"
  shows "\<exists>a s'. handle_connection W M rq s = Inr (a, s') \<and> is_answer M a \<and> ok s' \<and> step_effect W rq s s'
    \<and> disk (records s') p = next_cache (answer_for W s) rq (disk (records s) p)"
proof (cases rule: request_kinds [of rq])
  case 1
  then show ?thesis using step_rev [OF assms] by (simp add: handle_connection_cases(1))
next
  case 2
  then show ?thesis
    using get_stats_ok [OF assms(1), of M] ok_counts [OF assms(1)] is_get_other(1,6) [OF 2]
    by (simp add: handle_connection_cases(2) step_effect_refl next_cache_id)
next
  case 3
  obtain kvs l where "get_dumpall W M s = Inr (json_answer M (JArray (map dump_entry kvs)), s\<lparr>records := l\<rparr>)"
    "healthy l" "env l e = Some (Opened p)" "disk l = disk (records s)"
    using assms(1,2) by (rule get_dumpall_ok)
  then show ?thesis
    using ok_same_disk [OF assms(1)] is_get_other(2,7) [OF 3] 3
    by (simp add: handle_connection_cases(3) step_effect_refl next_cache_id)
next
  case 4
  show ?thesis
  proof (cases "\<exists>k. rq_arg rq (ascii ''geohash'') = Some k \<and> k \<noteq> []")
    case True
    then obtain k where "rq_arg rq (ascii ''geohash'') = Some k" "k \<noteq> []" by blast
    then obtain l where "healthy l" "env l e = Some (Opened p)" "disk l p = disk (records s) p"
      "get_lookup W M rq s = Inr (case disk (records s) p k of
              None \<Rightarrow> text_answer M ''not found'' 404
            | Some v \<Rightarrow> respond M (cstring v) (ascii ''application/json'') MHD_HTTP_OK, s\<lparr>records := l\<rparr>)"
      using get_lookup_ok [where rq = rq, OF assms(1,2)] by auto
    then show ?thesis
      using ok_same_disk [OF assms(1)] is_get_other(3,8) [OF 4] 4
      by (simp add: handle_connection_cases(4) step_effect_refl next_cache_id split: option.split)
  next
    case False
    then have "get_lookup W M rq s = Inr (text_answer M ''Missing geohash'' 422, s)"
      using get_lookup_ok [where rq = rq, OF assms(1,2)] by (auto split: option.splits)
    then show ?thesis
      using assms(1) is_get_other(3,8) [OF 4] 4
      by (simp add: handle_connection_cases(4) step_effect_refl next_cache_id)
  qed
next
  case 5
  have nr: "\<not> is_get rq ''/rev''" using is_get_other(4) [OF 5] .
  show ?thesis
  proof (cases "\<exists>k. rq_arg rq (ascii ''geohash'') = Some k \<and> k \<noteq> []")
    case True
    then obtain k where k0: "rq_arg rq (ascii ''geohash'') = Some k" "k \<noteq> []" by blast
    then obtain l where l: "healthy l" "env l e = Some (Opened p)" "disk l p = (disk (records s) p)(k := None)"
      "get_kill W M rq s = Inr (if disk (records s) p k = None then text_answer M ''Not deleted'' 404
          else text_answer M ''deleted'' 200, s\<lparr>records := l\<rparr>)"
      using get_kill_ok [where rq = rq and M = M, OF assms(1)] by auto
    note k = k0 l(4,1,2,3)
    have "ok (s\<lparr>records := l\<rparr>)" using assms(1) l(1-3) by (rule ok_deleted)
    then show ?thesis
      using k nr 5 by (simp add: handle_connection_cases(5) step_effect_refl next_cache_def)
  next
    case False
    then have "get_kill W M rq s = Inr (text_answer M ''Missing geohash'' 422, s)"
      using get_kill_ok [where rq = rq and M = M, OF assms(1)] by (auto split: option.splits)
    then show ?thesis
      using assms(1) nr 5 False
      by (auto simp: handle_connection_cases(5) step_effect_refl next_cache_def split: option.splits)
  qed
next
  case 6
  then have "\<not> is_get rq ''/rev''" "\<not> is_get rq ''/kill''" by (simp_all add: is_get_def)
  then show ?thesis using assms(1) 6 by (simp add: handle_connection_cases(6) step_effect_refl next_cache_id)
next
  case 7
  then have "\<not> is_get rq ''/rev''" "\<not> is_get rq ''/kill''" by (auto simp: is_get_def)
  then show ?thesis using assms(1) 7 by (simp add: handle_connection_cases(7) step_effect_refl next_cache_id)
qed

end

section \<open>Runs\<close>

text \<open>\<open>runs W s rqs s'\<close>: the daemon has served the requests \<open>rqs\<close>, in whatever surroundings.\<close>

inductive runs :: "('l, 'n) libs \<Rightarrow> ('l, 'n) server \<Rightarrow> request list \<Rightarrow> ('l, 'n) server \<Rightarrow> bool" for W where
  Start: "runs W s [] s"
| Serve: "runs W s rqs s1 \<Longrightarrow> moment_ok M \<Longrightarrow> app_ok rq \<Longrightarrow> handle_connection W M rq s1 = Inr (a, s2) \<Longrightarrow>
    runs W s (rqs @ [rq]) s2"

inductive_cases runs_startE: "runs W s [] s'"
inductive_cases runs_serveE: "runs W s (rqs @ [rq]) s'"
inductive_simps runs_start [simp]: "runs W s [] s'"

definition count_of :: "(request \<Rightarrow> bool) \<Rightarrow> request list \<Rightarrow> 64 word" where
  "count_of P rqs = of_nat (length (filter P rqs))"

lemma count_of_simps [simp]:
  "count_of P [] = 0"
  "count_of P (rqs @ [rq]) = count_of P rqs + of_bool (P rq)"
  by (simp_all add: count_of_def add.commute)

context daemon
begin

lemma runs_ok:
  assumes "runs W s rqs s'" and "ok s" and "service_ok (api_provider s) (lib_curl W)"
  shows "ok s' \<and> apikey s' = apikey s \<and> api_provider s' = api_provider s
    \<and> requests (stat_counts s') = requests (stat_counts s) + count_of (\<lambda>rq. is_get rq ''/rev'') rqs
    \<and> answered (stat_counts s') = answered (stat_counts s)
        + count_of (\<lambda>rq. is_get rq ''/rev'' \<and> cell_wanted rq \<noteq> None) rqs
    \<and> (\<forall>a. app_queries s' a = app_queries s a + count_of (names_app a) rqs)"
  using assms
proof (induction rule: runs.induct)
  case (Serve s rqs s1 M rq a s2)
  note IH = Serve.IH [OF Serve.prems]
  have "service_ok (api_provider s1) (lib_curl W)" using IH Serve.prems(2) by simp
  with IH Serve.hyps obtain a' s' where "handle_connection W M rq s1 = Inr (a', s')" "ok s'" "step_effect W rq s1 s'"
    using step_ok [where s = s1 and M = M and rq = rq] by blast
  then show ?case using IH Serve.hyps(4) by (simp add: step_effect_def)
qed simp

lemma runs_progress:
  assumes "runs W s rqs s'" and "ok s" and "service_ok (api_provider s) (lib_curl W)"
    and "moment_ok M" and "app_ok rq"
  shows "\<exists>a s''. handle_connection W M rq s' = Inr (a, s'') \<and> is_answer M a"
proof -
  have "ok s'" "service_ok (api_provider s') (lib_curl W)" using runs_ok [OF assms(1-3)] assms(3) by simp_all
  then show ?thesis using step_ok [where s = s' and M = M and rq = rq] assms(4,5) by blast
qed

lemma bad_app_stats:
  assumes "ok s" and "is_get rq ''/rev''" and "cell_wanted rq = None"
    and "rq_arg rq (ascii ''app'') = Some a" and "a \<noteq> []" and "no_nul a" and "\<not> utf8_text a"
    and "is_get rq' ''/stats''"
  shows "\<exists>b s1 f. handle_connection W M rq s = Inr (b, s1) \<and> handle_connection W M' rq' s1 = Inl f"
proof -
  let ?s1 = "count_arg rq (bump_requests s)"
  have s1: "ok (?s1\<lparr>appcache := []\<rparr>)"
    using assms(1) by (simp add: server_ok_def count_arg_def bump_requests_def split: option.split)
  have "appcache ?s1 = count_app (appcache s) a" using assms(4,5) by (simp add: count_arg_def)
  moreover have "a \<in> set (map fst (count_app (appcache s) a))" unfolding count_app_keys by auto
  ultimately have "a \<in> fst ` set (appcache ?s1)" by simp
  from get_stats_fault [OF s1 this assms(6,7), of M'] obtain f where "get_stats W M' ?s1 = Inl f" ..
  then show ?thesis
    by (auto simp: rev_rejected [OF assms(3)] handle_connection_cases(1) [OF assms(2)]
        handle_connection_cases(2) [OF assms(8)])
qed

lemma kill_then_lookup:
  assumes "ok s" and "moment_ok M" and "moment_ok M'"
    and "is_get rq ''/kill''" and "is_get rq' ''/lookup''"
    and "rq_arg rq (ascii ''geohash'') = Some k" and "rq_arg rq' (ascii ''geohash'') = Some k" and "k \<noteq> []"
  shows "\<exists>s1 s2. handle_connection W M rq s
      = Inr (if disk (records s) p k = None then text_answer M ''Not deleted'' 404 else text_answer M ''deleted'' 200, s1)
    \<and> handle_connection W M' rq' s1 = Inr (text_answer M' ''not found'' 404, s2)"
proof -
  obtain l where l: "healthy l" "env l e = Some (Opened p)" "disk l p = (disk (records s) p)(k := None)"
    "get_kill W M rq s = Inr (if disk (records s) p k = None then text_answer M ''Not deleted'' 404
              else text_answer M ''deleted'' 200, s\<lparr>records := l\<rparr>)"
    using get_kill_ok [where rq = rq and M = M, OF assms(1)] assms(6,8) by auto
  have ok: "ok (s\<lparr>records := l\<rparr>)" using assms(1) l(1-3) by (rule ok_deleted)
  obtain l' where "get_lookup W M' rq' (s\<lparr>records := l\<rparr>) = Inr (text_answer M' ''not found'' 404, s\<lparr>records := l'\<rparr>)"
    using get_lookup_ok [where rq = rq', OF ok assms(3)] assms(7,8) l(3) by auto
  then show ?thesis using l(4) assms(4,5) by (simp add: handle_connection_cases)
qed

end

section \<open>The second request for a cell\<close>

lemma names_distinct:
  "distinct [ascii ''village'', ascii ''locality'', ascii ''cc'', ascii ''tzname'']"
  by code_simp

lemmas names_differ [simp] = names_distinct [simplified, THEN conjunct1]

lemma names_differ_all [simp]:
  "ascii ''village'' \<noteq> ascii ''cc''" "ascii ''village'' \<noteq> ascii ''tzname''" "ascii ''cc'' \<noteq> ascii ''village''"
  "ascii ''cc'' \<noteq> ascii ''locality''" "ascii ''cc'' \<noteq> ascii ''tzname''" "ascii ''locality'' \<noteq> ascii ''village''"
  "ascii ''locality'' \<noteq> ascii ''cc''" "ascii ''locality'' \<noteq> ascii ''tzname''" "ascii ''tzname'' \<noteq> ascii ''village''"
  "ascii ''tzname'' \<noteq> ascii ''cc''" "ascii ''tzname'' \<noteq> ascii ''locality''"
  by code_simp+

lemma strings_in_record:
  "strings_in (Some (record_of u)) elems = members
     ([(''village'', JString (t_addr u))]
      @ (if t_locality u \<noteq> [] then [(''locality'', JString (t_locality u))] else [])
      @ [(''cc'', JString (t_cc u))]
      @ (if t_tzname u \<noteq> [] then [(''tzname'', JString (t_tzname u))] else []))"
  by (simp add: elems_def record_of_def)

definition cached_answer_of :: "texts \<Rightarrow> json" where
  "cached_answer_of u = JObject (members
     ([(''village'', JString (t_addr u))]
      @ (if t_locality u \<noteq> [] then [(''locality'', JString (t_locality u))] else [])
      @ [(''cc'', JString (t_cc u))]
      @ (if t_tzname u \<noteq> [] then [(''tzname'', JString (t_tzname u))] else [])
      @ [(''s'', JString (ascii ''lmdb''))]))"

lemma cached_of_record:
  assumes "round_ok (record_of u)"
  shows "cached_of (shown (record_of u) @ [0]) = cached_answer_of u"
proof -
  have "json_stringify (record_of u) (Some JSON_SPACE) = Inr (shown (record_of u))"
    using assms by (intro stringify_shown round_ok_printable)
  then have "json_decode (shown (record_of u) @ 0 # []) = Inr (Some (record_of u))"
    using assms JSON_SPACE_ws by (intro stringify_decode [where space = "Some JSON_SPACE"]) simp_all
  then show ?thesis
    by (simp add: cached_of_def cached_members_def strings_in_record cached_answer_of_def)
qed

context daemon
begin

lemma rev_twice:
  assumes "ok s" and "moment_ok M" and "moment_ok M'" and "app_ok rq" and "app_ok rq'"
    and "service_ok (api_provider s) (lib_curl W)"
    and rev: "is_get rq ''/rev''" "is_get rq' ''/rev''"
    and point: "cell_wanted rq = Some (lat, lon)" "cell_wanted rq' = Some (lat', lon')"
    and cell: "point_key lat' lon' = point_key lat lon"
    and miss: "disk (records s) p (point_key lat lon) = None"
    and ans: "answer_for W s lat lon = Some u" and round: "round_ok (record_of u)"
  shows "\<exists>s1 s2. handle_connection W M rq s = Inr (address_answer M (fresh_of (t_addr u) (api_provider s) u), s1)
    \<and> handle_connection W M' rq' s1 = Inr (address_answer M' (cached_answer_of u), s2)
    \<and> geo_static s2 = geo_static s1 \<and> lmdb_hits (stat_counts s2) = lmdb_hits (stat_counts s1) + 1"
proof -
  let ?s = "count_arg rq (bump_requests s)"
  have ok: "ok ?s" using assms(1,4) by (intro ok_count_arg ok_bump)
  have p1: "point_of rq = Some (lat, lon)" "on_earth lat lon"
    and p2: "point_of rq' = Some (lat', lon')" "on_earth lat' lon'"
    using point by (auto simp: cell_wanted_def split: option.splits prod.splits if_splits)
  have ans': "answer_for W ?s lat lon = Some u"
    using answer_for_cong [of ?s s W] ans by simp
  obtain s1 where s1: "after_fresh ?s (point_key lat lon) (Some u) s1"
    "reverse_point W M lat lon ?s = Inr (address_answer M (fresh_of (t_addr u) (api_provider s) u), s1)"
    using reverse_point_fresh [OF ok assms(2) p1(2)] assms(6) miss ans' by auto
  let ?s1 = "count_arg rq' (bump_requests s1)"
  have ok1: "ok ?s1" using s1(1) assms(5) by (intro ok_count_arg ok_bump) (simp add: after_fresh_def)
  have hit: "disk (records ?s1) p (point_key lat' lon') = Some (shown (record_of u) @ [0])"
    using s1(1) cell by (simp add: after_fresh_def)
  obtain g l where "reverse_point W M' lat' lon' ?s1
      = Inr (address_answer M' (cached_of (shown (record_of u) @ [0])), ?s1\<lparr>geo_texts := Some g, records := l,
         stat_counts := (stat_counts ?s1)\<lparr>lmdb_hits := lmdb_hits (stat_counts ?s1) + 1\<rparr>\<rparr>)"
    using ok1 assms(3) p2(2) hit by (rule reverse_point_cached)
  then show ?thesis
    using s1(2) rev p1(1) p2(1)
    by (simp add: handle_connection_cases(1) get_reversegeo_cases cached_of_record [OF round])
qed

end

end
