(* ===== verification/Revgeod_Run.thy ===== *)
theory Revgeod_Run
  imports Revgeod_Daemon
begin

text \<open>
  The daemon from its start to its end, and the properties of revgeod.c: an instance of the locale
  \<open>daemon\<close> over the database in memory and a service with a fixed answer, on which the properties
  are exercised, and the properties themselves.
\<close>

section \<open>Start and end\<close>

text \<open>The server that \<open>main\<close> has set up when it starts to serve.\<close>

definition fresh_stats :: "int \<Rightarrow> statistics" where
  "fresh_stats t = \<lparr>launchtime = t, requests = 0, geofail = 0, opencage = 0, locationiq = 0,
     lmdb_hits = 0, stats = 0\<rparr>"

lemma provider_texts: "choose_api ge = Some (key, provider) \<Longrightarrow> utf8_text provider"
proof -
  assume "choose_api ge = Some (key, provider)"
  then have "provider = ascii ''opencage'' \<or> provider = ascii ''locationiq''"
    by (auto simp: choose_api_def split: option.splits)
  then show ?thesis by auto
qed

lemma start_ok:
  assumes laws: "lmdb_laws (lib_lmdb W) disk env txn cursor healthy main"
    and l: "healthy (su_records su)"
    and recs: "\<And>k v. disk (su_records su) (su_database su) k = Some v \<Longrightarrow> record_ok k v"
    and start: "start_server W su = Inr (Serves s)"
  obtains e where "server_ok disk env healthy main e (su_database su) s" "stat_counts s = fresh_stats (su_time su)"
    "appcache s = []" "choose_api (su_getenv su) = Some (apikey s, api_provider s)"
    "disk (records s) = disk (su_records su)"
proof -
  obtain e l' where opened: "db_open (lib_lmdb W) (su_database su) None False (su_records su)
      = Inr (Some \<lparr>db_env = e, db_dbi = main\<rparr>, l')"
    "healthy l'" "env l' e = Some (Opened (su_database su))" "disk l' = disk (su_records su)"
    by (rule lmdb_laws.db_open_ok [OF laws l])
  obtain key provider where api: "choose_api (su_getenv su) = Some (key, provider)"
    using start by (auto simp: start_server_def Let_def split: list.splits option.splits)
  then have s: "s = \<lparr>apikey = key, api_provider = provider, the_db = Some \<lparr>db_env = e, db_dbi = main\<rparr>, appcache = [],
      stat_counts = fresh_stats (su_time su), geo_texts = None,
      geo_static = \<lparr>url_buf = None, curl_buf = None, network = su_network su\<rparr>, records = l'\<rparr>"
    using start opened(1) by (auto simp: start_server_def Let_def fresh_stats_def split: list.splits if_splits)
  show ?thesis
    using opened(2-4) recs provider_texts [OF api] api
    by (intro that [of e]) (simp_all add: s server_ok_def static_ok_def)
qed

lemma start_exits:
  assumes laws: "lmdb_laws (lib_lmdb W) disk env txn cursor healthy main" and l: "healthy (su_records su)"
  shows "\<exists>r. start_server W su = Inr r \<and> ((\<exists>s. r = Serves s) \<longleftrightarrow>
     su_options su = [] \<and> choose_api (su_getenv su) \<noteq> None
     \<and> su_can_parse su (case su_getenv su (ascii ''REVGEO_IP'') of None \<Rightarrow> su_listen_host su | Some ip \<Rightarrow> ip)
     \<and> su_can_listen su (case su_getenv su (ascii ''REVGEO_IP'') of None \<Rightarrow> su_listen_host su | Some ip \<Rightarrow> ip)
         (atoi (case su_getenv su (ascii ''REVGEO_PORT'') of None \<Rightarrow> su_listen_port su | Some q \<Rightarrow> q) mod 65536))
     \<and> (r = Exits 0 \<longleftrightarrow> (\<exists>rest. su_options su = 0x76 # rest))"
proof -
  obtain e l' where "db_open (lib_lmdb W) (su_database su) None False (su_records su)
      = Inr (Some \<lparr>db_env = e, db_dbi = main\<rparr>, l')"
    by (rule lmdb_laws.db_open_ok [OF laws l])
  then show ?thesis
    by (auto simp: start_server_def Let_def split: list.split option.split)
qed

context daemon
begin

lemma catcher_ok:
  assumes "ok s"
  shows "\<exists>l. catcher W sig s = Inr (if sig = SIGINT then (Some 1, s\<lparr>records := l\<rparr>) else (None, s))
    \<and> healthy l \<and> disk l = disk (records s)"
proof -
  have "healthy (records s)" "env (records s) e = Some (Opened p)" using ok_ready [OF assms] by simp_all
  then obtain l where "db_close (lib_lmdb W) handle (records s) = Inr l" "healthy l" "disk l = disk (records s)"
    using db_close_ok by blast
  then show ?thesis by (auto simp: catcher_def ok_db [OF assms])
qed

end

section \<open>A daemon\<close>

definition mem_libs :: "(mem, nat) libs" where
  "mem_libs = \<lparr>lib_lmdb = mem_lmdb, lib_curl = (\<lambda>url n. (brussels_reply, Suc n)),
     lib_mhd_version = ascii ''0.9.75''\<rparr>"

definition mem_moment :: moment where
  "mem_moment = \<lparr>m_time = (\<lambda>_. 1700000000), m_stat = None, m_heap = (\<lambda>_. 0), m_stack = replicate 8192 0,
     m_beyond = [0], m_create = (\<lambda>_. True), m_queue = (\<lambda>_. 1)\<rparr>"

definition get_request :: "string \<Rightarrow> (string \<times> string) list \<Rightarrow> request" where
  "get_request url args = \<lparr>rq_method = ascii ''GET'', rq_url = ascii url,
     rq_arg = map_of (map (\<lambda>(k, v). (ascii k, ascii v)) args)\<rparr>"

definition mem_server :: "(mem, nat) server" where
  "mem_server = \<lparr>apikey = ascii ''key'', api_provider = ascii ''locationiq'',
     the_db = Some \<lparr>db_env = 1, db_dbi = 1\<rparr>, appcache = [], stat_counts = fresh_stats 0, geo_texts = None,
     geo_static = \<lparr>url_buf = None, curl_buf = None, network = 0\<rparr>, records = mem_opened (ascii ''geocache'')\<rparr>"

lemma mem_libs_lmdb: "lib_lmdb mem_libs = mem_lmdb"
  by (simp add: mem_libs_def)

interpretation mem_daemon: daemon mem_libs mem_disk_view mem_env_view mem_txn_view mem_cursor_view
  mem_healthy 1 1 "ascii ''geocache''"
proof (intro daemon.intro open_store.intro daemon_axioms.intro)
  show "lmdb_laws (lib_lmdb mem_libs) mem_disk_view mem_env_view mem_txn_view mem_cursor_view mem_healthy 1"
    by (simp only: mem_libs_lmdb mem.lmdb_laws_axioms)
  show "utf8_text (lib_mhd_version mem_libs)"
    by (rule utf8_text_ascii) (simp add: mem_libs_def plain_ascii_def ascii_def)
  show "utf8_text (ascii ''geocache'')" by (rule utf8_text_ascii) code_simp
qed

lemma mem_server_ok: "server_ok mem_disk_view mem_env_view mem_healthy 1 1 (ascii ''geocache'') mem_server"
  by (simp add: server_ok_def mem_server_def static_ok_def utf8_text_ascii plain_ascii_def ascii_def
      mem_disk_view_def disk_of_def mem_opened_def mem_empty_def mem_views)

lemma mem_daemon_laws:
  "lmdb_laws (lib_lmdb mem_libs) mem_disk_view mem_env_view mem_txn_view mem_cursor_view mem_healthy 1"
  by (simp only: mem_libs_lmdb mem.lmdb_laws_axioms)

lemma mem_moment_ok: "moment_ok mem_moment"
  by (simp add: moment_ok_def mem_moment_def)

lemma get_request_url [simp]: "is_get (get_request url args) url"
  by (simp add: is_get_def get_request_def)

definition brussels_texts :: texts where
  "brussels_texts = no_texts\<lparr>t_addr := ascii ''Brussels''\<rparr>"

lemma brussels_service: "service_texts (ascii ''locationiq'') brussels_reply = Some brussels_texts"
  by code_simp

lemma mem_service_ok: "service_ok (ascii ''locationiq'') (lib_curl mem_libs)"
proof -
  have "readable (ascii ''locationiq'') brussels_reply"
    by (simp add: readable_def reply_ok_def brussels_reply_def ascii_def)
  moreover have "length (shown (record_of brussels_texts)) \<le> 100" by code_simp
  then have "fits brussels_texts" by (simp add: fits_def brussels_texts_def no_texts_def)
  ultimately show ?thesis by (simp add: service_ok_def mem_libs_def brussels_service)
qed

lemma mem_server_service: "service_ok (api_provider mem_server) (lib_curl mem_libs)"
  using mem_service_ok by (simp add: mem_server_def)

definition rev_brussels :: request where
  "rev_brussels = get_request ''/rev'' [(''lat'', ''50''), (''lon'', ''4''), (''app'', ''web'')]"

lemma rev_brussels_args:
  "rq_arg rev_brussels (ascii ''app'') = Some (ascii ''web'')"
  "rq_arg rev_brussels (ascii ''lat'') = Some (ascii ''50'')"
  "rq_arg rev_brussels (ascii ''lon'') = Some (ascii ''4'')"
  by code_simp+

lemma rev_brussels_numbers: "atof (ascii ''50'') = DFin 50" "atof (ascii ''4'') = DFin 4"
  by code_simp+

lemma rev_brussels_ok:
  "app_ok rev_brussels" "is_get rev_brussels ''/rev''" "cell_wanted rev_brussels = Some (DFin 50, DFin 4)"
proof -
  have "utf8_text (ascii ''web'')" by (rule utf8_text_ascii) code_simp
  then show "app_ok rev_brussels" by (simp add: app_ok_def rev_brussels_args)
  show "is_get rev_brussels ''/rev''" by (simp add: rev_brussels_def)
  have "ascii ''50'' \<noteq> []" "ascii ''4'' \<noteq> []" by code_simp+
  then show "cell_wanted rev_brussels = Some (DFin 50, DFin 4)"
    by (simp add: cell_wanted_def point_of_def rev_brussels_args rev_brussels_numbers on_earth_def)
qed

lemma mem_server_empty: "mem_disk_view (records mem_server) (ascii ''geocache'') = Map.empty"
  by (simp add: mem_server_def mem_disk_view_def disk_of_def mem_opened_def mem_empty_def)

lemma mem_answer: "answer_for mem_libs mem_server (DFin 50) (DFin 4) = Some brussels_texts"
  using brussels_service by (simp add: answer_for_def mem_libs_def mem_server_def d_eq_def)

lemma brussels_round: "round_ok (record_of brussels_texts)"
proof -
  have "plain_text (ascii ''village'')" "plain_text (ascii ''cc'')" "plain_text (ascii ''Brussels'')"
    by (simp_all add: plain_text_def utf8_text_ascii plain_ascii_def ascii_def)
  then show ?thesis by (simp add: record_of_def brussels_texts_def no_texts_def plain_text_def utf8_text.Nil)
qed

end
