(* ===== verification/Revgeod_Claims.thy ===== *)
theory Revgeod_Claims
  imports Revgeod_Run
begin

text \<open>
  The properties of revgeod.c: what the daemon answers, counts and keeps, from its start on. Each
  rests on the lemmas of the locale \<open>daemon\<close>; its witness applies it to the daemon of
  \<open>Revgeod_Run\<close>, which runs over the database in memory.
\<close>

section \<open>What holds of revgeod.c\<close>


definition mem_su :: "(mem, nat) surroundings" where
  "mem_su = \<lparr>su_options = [], su_getenv = map_of [(ascii ''LOCATIONIQ_APIKEY'', ascii ''key'')],
     su_can_parse = (\<lambda>_. True), su_can_listen = (\<lambda>_ _. True), su_time = 0,
     su_listen_host = ascii ''127.0.0.1'', su_listen_port = ascii ''8865'', su_database = ascii ''geocache'',
     su_records = mem_empty, su_network = 0\<rparr>"

lemma mem_su_serves:
  assumes "mem_healthy l"
  shows "\<exists>s. start_server mem_libs (mem_su\<lparr>su_records := l\<rparr>) = Inr (Serves s)"
proof -
  let ?su = "mem_su\<lparr>su_records := l\<rparr>"
  have l: "mem_healthy (su_records ?su)" using assms by simp
  have api: "choose_api (su_getenv mem_su) = Some (ascii ''key'', ascii ''locationiq'')" by code_simp
  show ?thesis using start_exits [where su = ?su, OF mem_daemon_laws l] api by (auto simp: mem_su_def)
qed

lemma mem_su_starts:
  obtains s where "start_server mem_libs mem_su = Inr (Serves s)" "api_provider s = ascii ''locationiq''"
proof -
  have l: "mem_healthy (su_records mem_su)" by (simp add: mem_su_def mem_healthy_def mem_empty_def)
  have "mem_su\<lparr>su_records := su_records mem_su\<rparr> = mem_su" by simp
  with mem_su_serves [OF l] obtain s where s: "start_server mem_libs mem_su = Inr (Serves s)" by auto
  have empty: "\<And>k v. mem_disk_view (su_records mem_su) (su_database mem_su) k = Some v \<Longrightarrow> record_ok k v"
    by (simp add: mem_su_def mem_disk_view_def disk_of_def mem_empty_def)
  have api: "choose_api (su_getenv mem_su) = Some (ascii ''key'', ascii ''locationiq'')" by code_simp
  have "api_provider s = ascii ''locationiq''"
    by (rule start_ok [OF mem_daemon_laws l empty s]) (use api in auto)
  with s show ?thesis by (rule that)
qed




text \<open>C4: the database is the cache of an abstract machine: a request that is answered changes it as
  \<open>next_cache\<close> says. Only a request to \<open>/rev\<close> for a cell that has no record adds one, the text of
  the answer of the service; only \<open>/kill\<close> removes one; a failed lookup is not remembered.\<close>

theorem daemon_refines_cache:
  assumes "daemon W disk env txn cursor healthy main p"
    and "server_ok disk env healthy main e p s" and "moment_ok M" and "app_ok rq"
    and "service_ok (api_provider s) (lib_curl W)"
    and "handle_connection W M rq s = Inr (a, s')"
  shows "disk (records s') p = next_cache (answer_for W s) rq (disk (records s) p)"
  using daemon.step_ok [OF assms(1-5)] assms(6) by auto

theorem daemon_refines_cache_witness:
  "\<exists>a s'. handle_connection mem_libs mem_moment rev_brussels mem_server = Inr (a, s')
    \<and> mem_disk_view (records s') (ascii ''geocache'') (point_key (DFin 50) (DFin 4))
        = Some (shown (record_of brussels_texts) @ [0])"
proof -
  obtain a s' where run: "handle_connection mem_libs mem_moment rev_brussels mem_server = Inr (a, s')"
    using mem_daemon.step_ok [OF mem_server_ok mem_moment_ok rev_brussels_ok(1) mem_server_service] by blast
  then have "mem_disk_view (records s') (ascii ''geocache'')
      = next_cache (answer_for mem_libs mem_server) rev_brussels (mem_disk_view (records mem_server) (ascii ''geocache''))"
    by (intro daemon_refines_cache [OF mem_daemon.daemon_axioms mem_server_ok mem_moment_ok rev_brussels_ok(1)
        mem_server_service])
  then show ?thesis
    using run rev_brussels_ok(2,3) by (simp add: next_cache_def mem_answer mem_server_empty)
qed



text \<open>\<open>/kill\<close> of a geohash answers whether there was a record, and a \<open>/lookup\<close> after it finds none.\<close>

theorem kill_removes:
  assumes "daemon W disk env txn cursor healthy main p"
    and "server_ok disk env healthy main e p s" and "moment_ok M" and "moment_ok M'"
    and "is_get rq ''/kill''" and "is_get rq' ''/lookup''"
    and "rq_arg rq (ascii ''geohash'') = Some k" and "rq_arg rq' (ascii ''geohash'') = Some k" and "k \<noteq> []"
  shows "\<exists>s1 s2. handle_connection W M rq s
      = Inr (if disk (records s) p k = None then text_answer M ''Not deleted'' 404 else text_answer M ''deleted'' 200, s1)
    \<and> handle_connection W M' rq' s1 = Inr (text_answer M' ''not found'' 404, s2)"
  using assms by (rule daemon.kill_then_lookup)

definition geohash_request :: "string \<Rightarrow> request" where
  "geohash_request url = get_request url [(''geohash'', ''u150czg5'')]"

lemma geohash_request_arg [simp]:
  "rq_arg (geohash_request url) (ascii ''geohash'') = Some (ascii ''u150czg5'')"
  by (simp add: geohash_request_def get_request_def)

theorem kill_removes_witness:
  "\<exists>s1 s2. handle_connection mem_libs mem_moment (geohash_request ''/kill'') mem_server
      = Inr (text_answer mem_moment ''Not deleted'' 404, s1)
    \<and> handle_connection mem_libs mem_moment (geohash_request ''/lookup'') s1
      = Inr (text_answer mem_moment ''not found'' 404, s2)"
proof -
  have "ascii ''u150czg5'' \<noteq> []" by code_simp
  then show ?thesis
    using kill_removes [OF mem_daemon.daemon_axioms mem_server_ok mem_moment_ok mem_moment_ok _ _
        geohash_request_arg geohash_request_arg]
    by (simp add: geohash_request_def mem_server_empty)
qed

text \<open>C29: \<open>/dump\<close> answers with one object for each record, in the order of the keys: the centre of the
  cell, the geohash, and the texts of the record when it can be read. The database is unchanged.\<close>

theorem dump_lists_records:
  assumes "daemon W disk env txn cursor healthy main p"
    and "server_ok disk env healthy main e p s" and "moment_ok M" and "is_get rq ''/dump''"
  shows "\<exists>kvs l. in_key_order kvs \<and> map_of kvs = disk (records s) p \<and> disk l = disk (records s)
    \<and> handle_connection W M rq s = Inr (json_answer M (JArray (map dump_entry kvs)), s\<lparr>records := l\<rparr>)"
  using daemon.get_dumpall_ok [OF assms(1-3)] handle_connection_cases(3) [OF assms(4), of W M s] by metis

theorem dump_lists_records_witness:
  "\<exists>l. handle_connection mem_libs mem_moment (get_request ''/dump'' []) mem_server
      = Inr (json_answer mem_moment (JArray []), mem_server\<lparr>records := l\<rparr>)"
proof -
  obtain kvs l where "map_of kvs = mem_disk_view (records mem_server) (ascii ''geocache'')"
    "handle_connection mem_libs mem_moment (get_request ''/dump'' []) mem_server
      = Inr (json_answer mem_moment (JArray (map dump_entry kvs)), mem_server\<lparr>records := l\<rparr>)"
    using dump_lists_records [OF mem_daemon.daemon_axioms mem_server_ok mem_moment_ok get_request_url] by metis
  then show ?thesis by (auto simp: mem_server_empty)
qed

lemma ascii_inject [simp]: "ascii s = ascii t \<longleftrightarrow> s = t"
proof -
  have "inj (of_char :: char \<Rightarrow> byte)"
  proof (rule injI)
    fix x y :: char
    assume "(of_char x :: byte) = of_char y"
    then have "unat (of_nat (of_char x) :: byte) = unat (of_nat (of_char y) :: byte)"
      by (simp only: of_nat_of_char)
    then show "x = y" by (simp add: unat_of_nat)
  qed
  then show ?thesis by (simp add: ascii_def inj_map_eq_map)
qed

text \<open>C31: what is refused, and how: another method with 405, an unknown path with 404, a point that is
  missing or off the earth with 406, \<open>/kill\<close> and \<open>/lookup\<close> without a geohash with 422. Nothing but
  the counters of the request to \<open>/rev\<close> changes, whatever the state of the server.\<close>

theorem requests_refused:
  assumes "refusal rq = Some (t, code)"
  shows "handle_connection W M rq s = Inr (text_answer M t code,
    if is_get rq ''/rev'' then count_arg rq (bump_requests s) else s)"
  using assms by (rule refused)

theorem requests_refused_witness:
  "handle_connection mem_libs mem_moment (get_request ''/lookup'' []) mem_server
    = Inr (text_answer mem_moment ''Missing geohash'' 422,
        if is_get (get_request ''/lookup'' []) ''/rev'' then
          count_arg (get_request ''/lookup'' []) (bump_requests mem_server) else mem_server)"
proof (rule requests_refused)
  show "refusal (get_request ''/lookup'' []) = Some (''Missing geohash'', 422)"
    by (simp add: refusal_def get_request_def)
qed




definition bad_app_request :: request where
  "bad_app_request = \<lparr>rq_method = ascii ''GET'', rq_url = ascii ''/rev'', rq_arg = [ascii ''app'' \<mapsto> [0xFF]]\<rparr>"




text \<open>When \<open>main\<close> serves: no option is given, one of the two keys is in the environment, the address
  can be parsed and listened on. The option \<open>-v\<close>, and nothing else, ends it with code 0.\<close>

theorem start_serves_iff:
  assumes "lmdb_laws (lib_lmdb W) disk env txn cursor healthy main" and "healthy (su_records su)"
  shows "\<exists>r. start_server W su = Inr r \<and> ((\<exists>s. r = Serves s) \<longleftrightarrow>
     su_options su = [] \<and> choose_api (su_getenv su) \<noteq> None
     \<and> su_can_parse su (case su_getenv su (ascii ''REVGEO_IP'') of None \<Rightarrow> su_listen_host su | Some ip \<Rightarrow> ip)
     \<and> su_can_listen su (case su_getenv su (ascii ''REVGEO_IP'') of None \<Rightarrow> su_listen_host su | Some ip \<Rightarrow> ip)
         (atoi (case su_getenv su (ascii ''REVGEO_PORT'') of None \<Rightarrow> su_listen_port su | Some q \<Rightarrow> q) mod 65536))
     \<and> (r = Exits 0 \<longleftrightarrow> (\<exists>rest. su_options su = 0x76 # rest))"
  using assms by (rule start_exits)

theorem start_serves_iff_witness:
  "\<exists>r. start_server mem_libs (mem_su\<lparr>su_options := ascii ''v''\<rparr>) = Inr r \<and> r = Exits 0"
proof -
  let ?su = "mem_su\<lparr>su_options := ascii ''v''\<rparr>"
  have "mem_healthy (su_records ?su)" by (simp add: mem_su_def mem_healthy_def mem_empty_def)
  moreover have "ascii ''v'' = [0x76]" by code_simp
  ultimately show ?thesis
    using start_serves_iff [where su = ?su, OF mem_daemon_laws] by auto
qed

end
