(* ===== verification/Uthash.thy ===== *)
theory Uthash
  imports Prelude
begin

text \<open>
  uthash.h: the hash table that revgeod.c keeps its table of applications in, as far as the program
  uses it: \<open>HASH_FIND\<close>, \<open>HASH_ADD_KEYPTR\<close> with the expansion of the buckets, and \<open>HASH_ITER\<close>, with
  the hash function of Bob Jenkins and no Bloom filter.

  The elements are a list in the order of the links \<open>next\<close>, in which they were added; a pointer to
  an element or its handle is its position there. A chain of handles through \<open>hh_next\<close> is a list of
  positions. The counters of the table are words of 32 bits, as in the structures. \<open>malloc\<close> succeeds.
\<close>

section \<open>Structures\<close>

record elem =
  key :: "byte list"
  keylen :: "32 word"
  hashv :: "32 word"
  queries :: "64 word"

record bucket =
  chain :: "nat list"
  count :: "32 word"
  expand_mult :: "32 word"

record table =
  buckets :: "bucket list"
  num_buckets :: "32 word"
  log2_num_buckets :: "32 word"
  num_items :: "32 word"
  ideal_chain_maxlen :: "32 word"
  nonideal_items :: "32 word"
  ineff_expands :: "32 word"
  noexpand :: "32 word"

record hash =
  uh_elems :: "elem list"
  tbl :: table

section \<open>The hash function\<close>

definition jen_mix :: "32 word \<Rightarrow> 32 word \<Rightarrow> 32 word \<Rightarrow> 32 word \<times> 32 word \<times> 32 word" where
  "jen_mix a b c =
     (let a = xor (a - b - c) (drop_bit 13 c); b = xor (b - c - a) (push_bit 8 a); c = xor (c - a - b) (drop_bit 13 b);
          a = xor (a - b - c) (drop_bit 12 c); b = xor (b - c - a) (push_bit 16 a); c = xor (c - a - b) (drop_bit 5 b);
          a = xor (a - b - c) (drop_bit 3 c); b = xor (b - c - a) (push_bit 10 a); c = xor (c - a - b) (drop_bit 15 b)
      in (a, b, c))"

text \<open>Four bytes from an offset on, of which those from \<open>k\<close> on count as zero.\<close>

definition key_byte :: "byte list \<Rightarrow> nat \<Rightarrow> nat \<Rightarrow> 32 word" where
  "key_byte s k n = (if n < k then ucast (s ! n) else 0)"

definition key_word :: "byte list \<Rightarrow> nat \<Rightarrow> nat \<Rightarrow> 32 word" where
  "key_word s k n = key_byte s k n + push_bit 8 (key_byte s k (n + 1)) + push_bit 16 (key_byte s k (n + 2))
     + push_bit 24 (key_byte s k (n + 3))"

text \<open>The last bytes of the key; the lowest byte of \<open>hashv\<close> is left for the length.\<close>

definition jen_tail :: "byte list \<Rightarrow> nat \<Rightarrow> 32 word \<Rightarrow> 32 word \<Rightarrow> 32 word \<Rightarrow> 32 word" where
  "jen_tail s k i j h =
     (let h = h + push_bit 8 (key_byte s k 8) + push_bit 16 (key_byte s k 9) + push_bit 24 (key_byte s k 10);
          j = j + key_word s k 4;
          i = i + key_word s k 0
      in snd (snd (jen_mix i j h)))"

fun jen_loop :: "byte list \<Rightarrow> 32 word \<Rightarrow> 32 word \<Rightarrow> 32 word \<Rightarrow> nat \<Rightarrow> 32 word" where
  "jen_loop s i j h len =
     (if length s \<ge> 12 then
        (case jen_mix (i + key_word s 12 0) (j + key_word s 12 4) (h + key_word s 12 8) of
           (i, j, h) \<Rightarrow> jen_loop (drop 12 s) i j h len)
      else jen_tail s (length s) i j (h + of_nat len))"

declare jen_loop.simps [simp del]

definition HASH_JEN :: "byte list \<Rightarrow> 32 word" where
  "HASH_JEN s = jen_loop s 0x9e3779b9 0x9e3779b9 0xfeedbeef (length s)"

definition HASH_TO_BKT :: "32 word \<Rightarrow> 32 word \<Rightarrow> 32 word" where
  "HASH_TO_BKT h num_bkts = and h (num_bkts - 1)"

section \<open>Lookup\<close>

definition at_index :: "'a list \<Rightarrow> nat \<Rightarrow> 'a cres" where
  "at_index xs i = (if i < length xs then Inr (xs ! i) else Inl OutOfBounds)"

fun HASH_FIND_IN_BKT :: "elem list \<Rightarrow> nat list \<Rightarrow> byte list \<Rightarrow> nat option cres" where
  "HASH_FIND_IN_BKT es [] k = Inr None"
| "HASH_FIND_IN_BKT es (out # rest) k =
     c_bind (at_index es out) (\<lambda>e.
       if unat (keylen e) = length k \<and> take (length k) (key e) = k then Inr (Some out)
       else HASH_FIND_IN_BKT es rest k)"

definition HASH_FIND :: "hash option \<Rightarrow> byte list \<Rightarrow> nat option cres" where
  "HASH_FIND head k =
     (case head of None \<Rightarrow> Inr None
      | Some u \<Rightarrow>
          c_bind (at_index (buckets (tbl u)) (unat (HASH_TO_BKT (HASH_JEN k) (num_buckets (tbl u))))) (\<lambda>b.
            HASH_FIND_IN_BKT (uh_elems u) (chain b) k))"

section \<open>Insertion\<close>

definition empty_bucket :: bucket where
  "empty_bucket = \<lparr>chain = [], count = 0, expand_mult = 0\<rparr>"

definition HASH_MAKE_TABLE :: table where
  "HASH_MAKE_TABLE = \<lparr>buckets = replicate 32 empty_bucket, num_buckets = 32, log2_num_buckets = 5, num_items = 0,
     ideal_chain_maxlen = 0, nonideal_items = 0, ineff_expands = 0, noexpand = 0\<rparr>"

text \<open>
  One handle is moved into the new buckets; \<open>nb\<close> is their number. A division by zero ends the
  process.
\<close>

definition move_handle ::
  "elem list \<Rightarrow> 32 word \<Rightarrow> 32 word \<Rightarrow> nat \<Rightarrow> bucket list \<times> 32 word \<Rightarrow> (bucket list \<times> 32 word) cres" where
  "move_handle es nb ideal thh st = (case st of (new, nonideal) \<Rightarrow>
     c_bind (at_index es thh) (\<lambda>e.
       let bkt = unat (HASH_TO_BKT (hashv e) nb)
       in c_bind (at_index new bkt) (\<lambda>newbkt.
          let c = count newbkt + 1;
              newbkt = newbkt\<lparr>count := c, chain := thh # chain newbkt\<rparr>
          in if c > ideal then
               (if ideal = 0 then Inl NoReturn
                else Inr (new[bkt := newbkt\<lparr>expand_mult := c div ideal\<rparr>], nonideal + 1))
             else Inr (new[bkt := newbkt], nonideal))))"

fun move_chain ::
  "elem list \<Rightarrow> 32 word \<Rightarrow> 32 word \<Rightarrow> nat list \<Rightarrow> bucket list \<times> 32 word \<Rightarrow> (bucket list \<times> 32 word) cres" where
  "move_chain es nb ideal [] st = Inr st"
| "move_chain es nb ideal (thh # nxt) st = c_bind (move_handle es nb ideal thh st) (move_chain es nb ideal nxt)"

fun move_buckets ::
  "elem list \<Rightarrow> 32 word \<Rightarrow> 32 word \<Rightarrow> bucket list \<Rightarrow> bucket list \<times> 32 word \<Rightarrow> (bucket list \<times> 32 word) cres" where
  "move_buckets es nb ideal [] st = Inr st"
| "move_buckets es nb ideal (b # bs) st = c_bind (move_chain es nb ideal (chain b) st) (move_buckets es nb ideal bs)"

definition HASH_EXPAND_BUCKETS :: "elem list \<Rightarrow> table \<Rightarrow> table cres" where
  "HASH_EXPAND_BUCKETS es t =
     (let nb = num_buckets t * 2;
          ideal = drop_bit (unat (log2_num_buckets t + 1)) (num_items t)
            + (if and (num_items t) (nb - 1) \<noteq> 0 then 1 else 0)
      in c_bind (move_buckets es nb ideal (buckets t) (replicate (unat nb) empty_bucket, 0)) (\<lambda>(new, nonideal).
         let ineff = (if nonideal > drop_bit 1 (num_items t) then ineff_expands t + 1 else 0)
         in Inr (t\<lparr>buckets := new, num_buckets := nb, log2_num_buckets := log2_num_buckets t + 1,
              ideal_chain_maxlen := ideal, nonideal_items := nonideal, ineff_expands := ineff,
              noexpand := (if ineff > 1 then 1 else noexpand t)\<rparr>)))"

definition HASH_ADD_TO_BKT :: "elem list \<Rightarrow> table \<Rightarrow> nat \<Rightarrow> nat \<Rightarrow> table cres" where
  "HASH_ADD_TO_BKT es t bkt addhh =
     c_bind (at_index (buckets t) bkt) (\<lambda>head.
       let head = head\<lparr>count := count head + 1, chain := addhh # chain head\<rparr>;
           t = t\<lparr>buckets := (buckets t)[bkt := head]\<rparr>
       in if count head \<ge> (expand_mult head + 1) * 10 \<and> noexpand t \<noteq> 1 then HASH_EXPAND_BUCKETS es t
          else Inr t)"

text \<open>An element with the key \<open>k\<close> and the value \<open>q\<close> is added; a table is made for the first.\<close>

definition HASH_ADD_KEYPTR :: "hash option \<Rightarrow> byte list \<Rightarrow> 64 word \<Rightarrow> hash option cres" where
  "HASH_ADD_KEYPTR head k q =
     (let u = (case head of None \<Rightarrow> \<lparr>uh_elems = [], tbl = HASH_MAKE_TABLE\<rparr> | Some u \<Rightarrow> u);
          h = HASH_JEN k;
          es = uh_elems u @ [\<lparr>key = k, keylen = of_nat (length k), hashv = h, queries = q\<rparr>];
          t = (tbl u)\<lparr>num_items := num_items (tbl u) + 1\<rparr>
      in c_bind (HASH_ADD_TO_BKT es t (unat (HASH_TO_BKT h (num_buckets t))) (length (uh_elems u))) (\<lambda>t.
           Inr (Some \<lparr>uh_elems = es, tbl = t\<rparr>)))"

section \<open>The invariant\<close>

text \<open>The bucket of an element in a table with \<open>2 ^ n\<close> buckets.\<close>

definition home :: "nat \<Rightarrow> elem \<Rightarrow> nat" where
  "home n e = unat (hashv e) mod 2 ^ n"

definition elem_ok :: "elem \<Rightarrow> bool" where
  "elem_ok e \<longleftrightarrow> length (key e) < 2 ^ 32 \<and> keylen e = of_nat (length (key e)) \<and> hashv e = HASH_JEN (key e)"

text \<open>\<open>P\<close> are the positions that have been put into the buckets.\<close>

definition spread :: "elem list \<Rightarrow> nat \<Rightarrow> nat set \<Rightarrow> bucket list \<Rightarrow> bool" where
  "spread es n P bs \<longleftrightarrow> length bs = 2 ^ n
     \<and> (\<forall>b < 2 ^ n. set (chain (bs ! b)) = {a \<in> P. home n (es ! a) = b} \<and> distinct (chain (bs ! b))
          \<and> count (bs ! b) = of_nat (length (chain (bs ! b))))"

definition uh_ok :: "hash option \<Rightarrow> bool" where
  "uh_ok head \<longleftrightarrow> (case head of None \<Rightarrow> True
     | Some u \<Rightarrow> \<exists>n < 32. num_buckets (tbl u) = 2 ^ n \<and> log2_num_buckets (tbl u) = of_nat n
         \<and> length (uh_elems u) < 2 ^ 32 \<and> num_items (tbl u) = of_nat (length (uh_elems u))
         \<and> (\<forall>e \<in> set (uh_elems u). elem_ok e) \<and> distinct (map key (uh_elems u))
         \<and> spread (uh_elems u) n {..<length (uh_elems u)} (buckets (tbl u)))"

definition contents :: "hash option \<Rightarrow> (byte list \<times> 64 word) list" where
  "contents head = (case head of None \<Rightarrow> [] | Some u \<Rightarrow> map (\<lambda>e. (key e, queries e)) (uh_elems u))"

lemma to_bkt_home: "unat (HASH_TO_BKT h (2 ^ n)) = unat h mod 2 ^ n"
proof -
  have "and h (2 ^ n - 1) = take_bit n h" by (simp add: take_bit_eq_mask mask_eq_exp_minus_1)
  then have "unat (HASH_TO_BKT h (2 ^ n)) = take_bit n (unat h)"
    by (simp only: HASH_TO_BKT_def unsigned_take_bit_eq)
  then show ?thesis by (simp add: take_bit_eq_mod)
qed

lemma at_index_ok [simp]: "i < length xs \<Longrightarrow> at_index xs i = Inr (xs ! i)"
  by (simp add: at_index_def)

lemma spread_empty: "spread es n {} (replicate (2 ^ n) empty_bucket)"
  by (simp add: spread_def empty_bucket_def)

lemma spread_insert:
  assumes "spread es n P bs" and "a \<notin> P" and "b = home n (es ! a)"
    and "chain nb = a # chain (bs ! b)" and "count nb = count (bs ! b) + 1"
  shows "spread es n (insert a P) (bs[b := nb])"
proof -
  have b: "b < 2 ^ n" using assms(3) by (simp add: home_def)
  have len: "length bs = 2 ^ n" using assms(1) by (simp add: spread_def)
  show ?thesis
    unfolding spread_def
  proof (intro conjI allI impI)
    fix c :: nat
    assume c: "c < 2 ^ n"
    have old: "set (chain (bs ! c)) = {a \<in> P. home n (es ! a) = c}" "distinct (chain (bs ! c))"
      "count (bs ! c) = of_nat (length (chain (bs ! c)))" using assms(1) c by (auto simp: spread_def)
    show "set (chain (bs[b := nb] ! c)) = {a' \<in> insert a P. home n (es ! a') = c}"
      "distinct (chain (bs[b := nb] ! c))" "count (bs[b := nb] ! c) = of_nat (length (chain (bs[b := nb] ! c)))"
      using old assms(2-5) len b c by (cases "c = b"; auto simp: nth_list_update)+
  qed (simp add: len)
qed

section \<open>Lookup is right\<close>

lemma find_in_bkt:
  assumes "\<forall>a \<in> set as. a < length es" and "\<forall>e \<in> set es. elem_ok e" and "length k < 2 ^ 32"
  shows "HASH_FIND_IN_BKT es as k = Inr (find (\<lambda>a. key (es ! a) = k) as)"
  using assms(1)
proof (induction as)
  case (Cons a as)
  have e: "elem_ok (es ! a)" using Cons.prems assms(2) by simp
  have "unat (keylen (es ! a)) = length k \<and> take (length k) (key (es ! a)) = k \<longleftrightarrow> key (es ! a) = k"
    using e assms(3) by (auto simp: elem_ok_def unat_of_nat)
  then show ?case using Cons by simp
qed simp

text \<open>A lookup finds the position of the key, if there is one.\<close>

lemma HASH_FIND_ok:
  assumes "uh_ok (Some u)" and "length k < 2 ^ 32"
  obtains "HASH_FIND (Some u) k = Inr None" "k \<notin> key ` set (uh_elems u)"
  | a where "HASH_FIND (Some u) k = Inr (Some a)" "a < length (uh_elems u)" "key (uh_elems u ! a) = k"
proof -
  obtain n where n: "num_buckets (tbl u) = 2 ^ n" "\<forall>e \<in> set (uh_elems u). elem_ok e"
    "spread (uh_elems u) n {..<length (uh_elems u)} (buckets (tbl u))"
    using assms(1) by (auto simp: uh_ok_def)
  let ?b = "unat (HASH_JEN k) mod 2 ^ n"
  let ?c = "chain (buckets (tbl u) ! ?b)"
  have b: "?b < length (buckets (tbl u))" using n(3) by (simp add: spread_def)
  have c: "set ?c = {a. a < length (uh_elems u) \<and> home n (uh_elems u ! a) = ?b}"
    using n(3) by (auto simp: spread_def)
  have run: "HASH_FIND (Some u) k = Inr (find (\<lambda>a. key (uh_elems u ! a) = k) ?c)"
    using b find_in_bkt [of ?c "uh_elems u" k] c n(2) assms(2)
    by (simp add: HASH_FIND_def n(1) to_bkt_home)
  show ?thesis
  proof (cases "find (\<lambda>a. key (uh_elems u ! a) = k) ?c")
    case None
    have "k \<notin> key ` set (uh_elems u)"
    proof
      assume "k \<in> key ` set (uh_elems u)"
      then obtain a where a: "a < length (uh_elems u)" "key (uh_elems u ! a) = k"
        by (auto simp: in_set_conv_nth)
      then have "home n (uh_elems u ! a) = ?b" using n(2) by (simp add: home_def elem_ok_def)
      then have "a \<in> set ?c" using c a(1) by simp
      with a(2) None show False by (auto simp: find_None_iff)
    qed
    with run None show ?thesis by (intro that(1)) simp_all
  next
    case (Some a)
    then have "a \<in> set ?c" "key (uh_elems u ! a) = k" by (auto simp: find_Some_iff)
    with run Some c show ?thesis by (intro that(2) [of a]) simp_all
  qed
qed

section \<open>Insertion is right\<close>

lemma move_handle_ok:
  assumes "spread es n P new" and "thh < length es" and "thh \<notin> P" and "ideal \<noteq> 0"
  obtains new' nonideal' where "move_handle es (2 ^ n) ideal thh (new, nonideal) = Inr (new', nonideal')"
    "spread es n (insert thh P) new'"
proof -
  let ?b = "home n (es ! thh)"
  have b: "?b < length new" using assms(1) by (simp add: spread_def home_def)
  have bkt: "unat (HASH_TO_BKT (hashv (es ! thh)) (2 ^ n)) = ?b" by (simp add: to_bkt_home home_def)
  have ins: "spread es n (insert thh P) (new[?b := nb])"
    if "chain nb = thh # chain (new ! ?b)" "count nb = count (new ! ?b) + 1" for nb
    using assms(1,3) refl that by (rule spread_insert)
  show ?thesis
  proof (cases "ideal < count (new ! ?b) + 1")
    case True
    show ?thesis
      by (rule that [of "new[?b := (new ! ?b)\<lparr>count := count (new ! ?b) + 1, chain := thh # chain (new ! ?b),
            expand_mult := (count (new ! ?b) + 1) div ideal\<rparr>]" "nonideal + 1"], use True assms(2,4) b in
          \<open>simp add: move_handle_def bkt Let_def\<close>, rule ins) simp_all
  next
    case False
    show ?thesis
      by (rule that [of "new[?b := (new ! ?b)\<lparr>count := count (new ! ?b) + 1, chain := thh # chain (new ! ?b)\<rparr>]"
            nonideal], use False assms(2,4) b in \<open>simp add: move_handle_def bkt Let_def\<close>, rule ins) simp_all
  qed
qed

lemma move_chain_ok:
  assumes "spread es n P new" and "set as \<subseteq> {..<length es}" and "set as \<inter> P = {}" and "distinct as"
    and "ideal \<noteq> 0"
  shows "\<exists>new' nonideal'. move_chain es (2 ^ n) ideal as (new, nonideal) = Inr (new', nonideal')
     \<and> spread es n (set as \<union> P) new'"
  using assms(1-4)
proof (induction as arbitrary: P new nonideal)
  case (Cons a as)
  obtain new1 nonideal1 where one: "move_handle es (2 ^ n) ideal a (new, nonideal) = Inr (new1, nonideal1)"
    "spread es n (insert a P) new1"
    by (rule move_handle_ok [OF Cons.prems(1), of a ideal nonideal]) (use Cons.prems assms(5) in auto)
  have "\<exists>new' nonideal'. move_chain es (2 ^ n) ideal as (new1, nonideal1) = Inr (new', nonideal')
     \<and> spread es n (set as \<union> insert a P) new'"
    using Cons.prems by (intro Cons.IH one(2)) auto
  with one(1) show ?case by simp
qed simp

lemma move_buckets_ok:
  assumes "spread es n P new" and "\<forall>b \<in> set bs. set (chain b) \<subseteq> {..<length es} \<and> distinct (chain b)"
    and "\<forall>b \<in> set bs. set (chain b) \<inter> P = {}"
    and "\<forall>i < length bs. \<forall>j < i. set (chain (bs ! i)) \<inter> set (chain (bs ! j)) = {}" and "ideal \<noteq> 0"
  shows "\<exists>new' nonideal'. move_buckets es (2 ^ n) ideal bs (new, nonideal) = Inr (new', nonideal')
     \<and> spread es n ((\<Union>b \<in> set bs. set (chain b)) \<union> P) new'"
  using assms(1-4)
proof (induction bs arbitrary: P new nonideal)
  case (Cons b bs)
  obtain new1 nonideal1 where one: "move_chain es (2 ^ n) ideal (chain b) (new, nonideal) = Inr (new1, nonideal1)"
    "spread es n (set (chain b) \<union> P) new1"
    using move_chain_ok [of es n P new "chain b" ideal nonideal] Cons.prems(1-3) assms(5) by auto
  have disj: "\<forall>c \<in> set bs. set (chain c) \<inter> (set (chain b) \<union> P) = {}"
  proof
    fix c assume c: "c \<in> set bs"
    then obtain i where "i < length bs" "bs ! i = c" by (auto simp: in_set_conv_nth)
    then show "set (chain c) \<inter> (set (chain b) \<union> P) = {}"
      using Cons.prems(4) [rule_format, of "Suc i" 0] Cons.prems(3) c by auto
  qed
  have rest: "\<forall>i < length bs. \<forall>j < i. set (chain (bs ! i)) \<inter> set (chain (bs ! j)) = {}"
    using Cons.prems(4) by (metis Suc_less_eq length_Cons nth_Cons_Suc)
  have "\<exists>new' nonideal'. move_buckets es (2 ^ n) ideal bs (new1, nonideal1) = Inr (new', nonideal')
     \<and> spread es n ((\<Union>c \<in> set bs. set (chain c)) \<union> (set (chain b) \<union> P)) new'"
    using Cons.prems(2) by (intro Cons.IH one(2) disj rest) simp
  with one(1) show ?case by (auto simp: Un_ac)
qed simp

text \<open>The chains of a spread table hold every position once.\<close>

lemma spread_chains:
  assumes "spread es n P bs" and "P \<subseteq> {..<length es}"
  shows "\<forall>b \<in> set bs. set (chain b) \<subseteq> {..<length es} \<and> distinct (chain b)"
    and "\<forall>i < length bs. \<forall>j < i. set (chain (bs ! i)) \<inter> set (chain (bs ! j)) = {}"
    and "(\<Union>b \<in> set bs. set (chain b)) = P"
proof -
  have len: "length bs = 2 ^ n" and c: "\<And>i. i < 2 ^ n \<Longrightarrow> set (chain (bs ! i)) = {a \<in> P. home n (es ! a) = i}"
    and d: "\<And>i. i < 2 ^ n \<Longrightarrow> distinct (chain (bs ! i))"
    using assms(1) by (auto simp: spread_def)
  show "\<forall>b \<in> set bs. set (chain b) \<subseteq> {..<length es} \<and> distinct (chain b)"
  proof
    fix b assume "b \<in> set bs"
    then obtain i where "i < 2 ^ n" "bs ! i = b" using len by (auto simp: in_set_conv_nth)
    then show "set (chain b) \<subseteq> {..<length es} \<and> distinct (chain b)"
      using c [of i] d [of i] assms(2) by auto
  qed
  show "\<forall>i < length bs. \<forall>j < i. set (chain (bs ! i)) \<inter> set (chain (bs ! j)) = {}"
    using c len by auto
  have "(\<Union>b \<in> set bs. set (chain b)) = (\<Union>i < length bs. set (chain (bs ! i)))"
    by (simp add: set_conv_nth [of bs] UN_UN_flatten) blast
  also have "\<dots> = (\<Union>i < 2 ^ n. {a \<in> P. home n (es ! a) = i})" using c len by auto
  also have "\<dots> = P" by (auto simp: home_def)
  finally show "(\<Union>b \<in> set bs. set (chain b)) = P" .
qed

lemma small_nat: "n < 32 \<Longrightarrow> unat (of_nat n :: 32 word) = n"
  by (simp add: unat_of_nat)

lemma small_power: "m < 32 \<Longrightarrow> unat (2 ^ m :: 32 word) = 2 ^ m"
  using unat_of_nat [of "2 ^ m", where ?'a = 32] power_strict_increasing [of m 32 "2 :: nat"] by simp

lemma unat_lt2p32: "unat (x :: 32 word) < 2 ^ 32"
  using unsigned_less [of x, where ?'a = nat] by simp

lemma ideal_nonzero:
  assumes "x \<noteq> (0 :: 32 word)"
  shows "drop_bit (n + 1) x + (if and x (2 ^ (n + 1) - 1) \<noteq> 0 then 1 else 0) \<noteq> 0"
proof (cases "and x (2 ^ (n + 1) - 1) = 0")
  case True
  then have "take_bit (n + 1) x = 0" by (simp only: take_bit_eq_mask mask_eq_exp_minus_1)
  moreover have "push_bit (n + 1) (drop_bit (n + 1) x) + take_bit (n + 1) x = x" by (rule bits_ident)
  ultimately have "drop_bit (n + 1) x \<noteq> 0" using assms by auto
  with True show ?thesis by simp
next
  case False
  have "unat (drop_bit (n + 1) x) = unat x div 2 ^ (n + 1)"
    using take_bit_nat_eq_self [OF unat_lt2p32 [of x]]
    by (simp only: unsigned_drop_bit_eq) (simp add: drop_bit_eq_div)
  also have "\<dots> \<le> unat x div 2" by (simp add: div_mult2_eq)
  also have "\<dots> < 2 ^ 31" using unat_lt2p32 [of x] by simp
  finally have "unat (drop_bit (n + 1) x) + 1 < 2 ^ 32" by simp
  then have "unat (drop_bit (n + 1) x + 1) = unat (drop_bit (n + 1) x) + 1" by (simp add: unat_word_ariths)
  then have "drop_bit (n + 1) x + 1 \<noteq> 0" by (metis add_is_0 one_neq_zero unsigned_0)
  with False show ?thesis by simp
qed

lemma expand_ok:
  assumes "spread es n {..<length es} (buckets t)" and "num_buckets t = 2 ^ n" and "log2_num_buckets t = of_nat n"
    and "n < 31" and "num_items t \<noteq> 0"
  shows "\<exists>t'. HASH_EXPAND_BUCKETS es t = Inr t' \<and> spread es (n + 1) {..<length es} (buckets t')
     \<and> num_buckets t' = 2 ^ (n + 1) \<and> log2_num_buckets t' = of_nat (n + 1) \<and> num_items t' = num_items t"
proof -
  define ideal where "ideal = drop_bit (n + 1) (num_items t)
    + (if and (num_items t) (2 ^ (n + 1) - 1) \<noteq> 0 then 1 else 0)"
  have lg: "unat (log2_num_buckets t + 1) = n + 1"
    using small_nat [of "n + 1"] assms(3,4) by (simp only: of_nat_add of_nat_1)
  have nb: "num_buckets t * 2 = 2 ^ (n + 1)" "unat (2 ^ (n + 1) :: 32 word) = 2 ^ (n + 1)"
    using assms(2,4) small_power [of "n + 1"] by simp_all
  have ideal: "ideal \<noteq> 0" unfolding ideal_def using assms(5) by (rule ideal_nonzero)
  obtain new nonideal where mv: "move_buckets es (2 ^ (n + 1)) ideal (buckets t) (replicate (2 ^ (n + 1)) empty_bucket, 0)
      = Inr (new, nonideal)" "spread es (n + 1) {..<length es} new"
    using move_buckets_ok [OF spread_empty [of es "n + 1"], of "buckets t" ideal 0] ideal
      spread_chains [OF assms(1) order_refl] by auto
  then show ?thesis
    using assms(3) unfolding HASH_EXPAND_BUCKETS_def Let_def lg nb ideal_def [symmetric] by simp
qed

lemma spread_append:
  assumes "spread es n {..<length es} bs" shows "spread (es @ xs) n {..<length es} bs"
proof -
  have "{a \<in> {..<length es}. home n ((es @ xs) ! a) = b} = {a \<in> {..<length es}. home n (es ! a) = b}" for b
    by (auto simp: nth_append)
  with assms show ?thesis by (simp add: spread_def)
qed

lemma add_to_bkt_ok:
  assumes "spread (es @ [e]) n {..<length es} (buckets t)" and "num_buckets t = 2 ^ n"
    and "log2_num_buckets t = of_nat n" and "n < 31" and "num_items t \<noteq> 0"
  shows "\<exists>t' m. HASH_ADD_TO_BKT (es @ [e]) t (home n e) (length es) = Inr t' \<and> m < 32
     \<and> spread (es @ [e]) m {..<length (es @ [e])} (buckets t')
     \<and> num_buckets t' = 2 ^ m \<and> log2_num_buckets t' = of_nat m \<and> num_items t' = num_items t"
proof -
  let ?b = "home n e"
  let ?h = "buckets t ! ?b"
  let ?h' = "?h\<lparr>count := count ?h + 1, chain := length es # chain ?h\<rparr>"
  let ?t = "t\<lparr>buckets := (buckets t)[?b := ?h']\<rparr>"
  have b: "?b < length (buckets t)" using assms(1) by (simp add: spread_def home_def)
  have sp: "spread (es @ [e]) n {..<length (es @ [e])} (buckets ?t)"
    using spread_insert [OF assms(1), of "length es" ?b ?h'] by (simp add: lessThan_Suc)
  show ?thesis
  proof (cases "count ?h' \<ge> (expand_mult ?h' + 1) * 10 \<and> noexpand ?t \<noteq> 1")
    case True
    have "HASH_ADD_TO_BKT (es @ [e]) t ?b (length es) = HASH_EXPAND_BUCKETS (es @ [e]) ?t"
      using True b by (simp add: HASH_ADD_TO_BKT_def Let_def)
    moreover obtain t' where "HASH_EXPAND_BUCKETS (es @ [e]) ?t = Inr t'"
      "spread (es @ [e]) (n + 1) {..<length (es @ [e])} (buckets t')" "num_buckets t' = 2 ^ (n + 1)"
      "log2_num_buckets t' = of_nat (n + 1)" "num_items t' = num_items ?t"
      using expand_ok [OF sp _ _ assms(4)] assms(2,3,5) by auto
    ultimately show ?thesis using assms(4) by (intro exI [of _ t'] exI [of _ "n + 1"]) simp
  next
    case False
    then have "HASH_ADD_TO_BKT (es @ [e]) t ?b (length es) = Inr ?t"
      unfolding HASH_ADD_TO_BKT_def Let_def at_index_ok [OF b] by (simp only: c_bind_simps if_False)
    then show ?thesis using sp assms(2-4) by (intro exI [of _ ?t] exI [of _ n]) simp
  qed
qed

text \<open>The table can still be doubled.\<close>

definition room :: "hash option \<Rightarrow> bool" where
  "room head \<longleftrightarrow> length (contents head) + 1 < 2 ^ 32
     \<and> (case head of None \<Rightarrow> True | Some u \<Rightarrow> num_buckets (tbl u) < 2 ^ 31)"

lemma make_table_spread: "spread [] 5 {} (buckets HASH_MAKE_TABLE)"
  using spread_empty [of "[]" 5] by (simp add: HASH_MAKE_TABLE_def)

lemma HASH_ADD_KEYPTR_ok:
  assumes "uh_ok head" and "room head" and "k \<notin> fst ` set (contents head)" and "length k < 2 ^ 32"
  obtains head' where "HASH_ADD_KEYPTR head k q = Inr head'" "uh_ok head'"
    "contents head' = contents head @ [(k, q)]"
proof -
  define u where "u = (case head of None \<Rightarrow> \<lparr>uh_elems = [], tbl = HASH_MAKE_TABLE\<rparr> | Some u \<Rightarrow> u)"
  define t where "t = (tbl u)\<lparr>num_items := num_items (tbl u) + 1\<rparr>"
  define e where "e = \<lparr>key = k, keylen = of_nat (length k), hashv = HASH_JEN k, queries = q\<rparr>"
  have c: "contents head = map (\<lambda>e. (key e, queries e)) (uh_elems u)"
    by (simp add: u_def contents_def split: option.split)
  obtain n where n: "n < 31" "num_buckets (tbl u) = 2 ^ n" "log2_num_buckets (tbl u) = of_nat n"
    "num_items (tbl u) = of_nat (length (uh_elems u))" "\<forall>e \<in> set (uh_elems u). elem_ok e"
    "distinct (map key (uh_elems u))" "spread (uh_elems u) n {..<length (uh_elems u)} (buckets (tbl u))"
  proof (cases head)
    case None
    show ?thesis
      by (rule that [of 5]) (use make_table_spread in \<open>simp_all add: u_def None HASH_MAKE_TABLE_def\<close>)
  next
    case (Some v)
    then obtain n where n: "n < 32" "num_buckets (tbl v) = 2 ^ n" "log2_num_buckets (tbl v) = of_nat n"
      "num_items (tbl v) = of_nat (length (uh_elems v))" "\<forall>e \<in> set (uh_elems v). elem_ok e"
      "distinct (map key (uh_elems v))" "spread (uh_elems v) n {..<length (uh_elems v)} (buckets (tbl v))"
      using assms(1) by (auto simp: uh_ok_def)
    have "n \<noteq> 31" using assms(2) n(2) by (auto simp: room_def Some)
    then show ?thesis by (intro that [of n]) (use n in \<open>simp_all add: u_def Some\<close>)
  qed
  have len: "length (uh_elems u) + 1 < 2 ^ 32" using assms(2) by (simp add: room_def c)
  have items: "num_items t = of_nat (length (uh_elems u @ [e]))" by (simp add: t_def n(4))
  have "unat (num_items t) = length (uh_elems u) + 1" unfolding items unat_of_nat using len by simp
  then have nz: "num_items t \<noteq> 0" by auto
  have home: "unat (HASH_TO_BKT (HASH_JEN k) (num_buckets t)) = home n e"
    by (simp add: t_def n(2) to_bkt_home home_def e_def)
  obtain t' m where t': "HASH_ADD_TO_BKT (uh_elems u @ [e]) t (home n e) (length (uh_elems u)) = Inr t'" "m < 32"
    "spread (uh_elems u @ [e]) m {..<length (uh_elems u @ [e])} (buckets t')" "num_buckets t' = 2 ^ m"
    "log2_num_buckets t' = of_nat m" "num_items t' = num_items t"
    using add_to_bkt_ok [of "uh_elems u" e n t] spread_append [OF n(7), of "[e]"] n(1-3) nz
    by (auto simp: t_def)
  have eok: "elem_ok e" using assms(4) by (simp add: elem_ok_def e_def)
  have new: "k \<notin> key ` set (uh_elems u)" using assms(3) by (force simp: c)
  have "HASH_ADD_KEYPTR head k q = Inr (Some \<lparr>uh_elems = uh_elems u @ [e], tbl = t'\<rparr>)"
    unfolding HASH_ADD_KEYPTR_def Let_def u_def [symmetric] e_def [symmetric] t_def [symmetric] home t'(1) by simp
  moreover have "uh_ok (Some \<lparr>uh_elems = uh_elems u @ [e], tbl = t'\<rparr>)"
    using t'(2-6) n(5,6) eok new len items by (auto simp: uh_ok_def e_def)
  moreover have "contents (Some \<lparr>uh_elems = uh_elems u @ [e], tbl = t'\<rparr>) = contents head @ [(k, q)]"
    by (simp add: contents_def c [unfolded contents_def] e_def)
  ultimately show ?thesis by (rule that)
qed

end
