(* ===== verification/Uthash_Apps.thy ===== *)
theory Uthash_Apps
  imports Revgeod_Server Uthash
begin

text \<open>
  The table of applications of revgeod.c, \<open>appcache\<close>, as the hash table that it is: the model of the
  daemon keeps an association list (\<open>count_app\<close>, \<open>find_app\<close>), and this theory shows that the hash
  table implements it. The locale \<open>app_table\<close> states what counting a request needs of a table.
\<close>

section \<open>Counting a request\<close>

text \<open>
  \<open>look\<close> looks a name up, \<open>ins\<close> puts an application with its number of queries into the table and
  \<open>incr\<close> increments the queries behind a pointer.
\<close>

definition count_query ::
  "('s \<Rightarrow> byte list \<Rightarrow> 'p option cres) \<Rightarrow> ('s \<Rightarrow> byte list \<Rightarrow> 64 word \<Rightarrow> 's cres) \<Rightarrow> ('s \<Rightarrow> 'p \<Rightarrow> 's)
     \<Rightarrow> 's \<Rightarrow> byte list \<Rightarrow> 's cres" where
  "count_query look ins incr s s_app =
     c_bind (look s s_app) (\<lambda>app. case app of None \<Rightarrow> ins s s_app 1 | Some p \<Rightarrow> Inr (incr s p))"

fun count_queries ::
  "('s \<Rightarrow> byte list \<Rightarrow> 'p option cres) \<Rightarrow> ('s \<Rightarrow> byte list \<Rightarrow> 64 word \<Rightarrow> 's cres) \<Rightarrow> ('s \<Rightarrow> 'p \<Rightarrow> 's)
     \<Rightarrow> 's \<Rightarrow> byte list list \<Rightarrow> 's cres" where
  "count_queries look ins incr s [] = Inr s"
| "count_queries look ins incr s (a # names) =
     c_bind (count_query look ins incr s a) (\<lambda>s. count_queries look ins incr s names)"

locale app_table =
  fixes look :: "'s \<Rightarrow> byte list \<Rightarrow> 'p option cres"
    and ins :: "'s \<Rightarrow> byte list \<Rightarrow> 64 word \<Rightarrow> 's cres"
    and incr :: "'s \<Rightarrow> 'p \<Rightarrow> 's"
    and ok :: "'s \<Rightarrow> bool"
    and has_room :: "'s \<Rightarrow> bool"
    and apps :: "'s \<Rightarrow> (byte list \<times> 64 word) list"
    and name_ok :: "byte list \<Rightarrow> bool"
  assumes look_law: "ok s \<Longrightarrow> name_ok a \<Longrightarrow>
      look s a = Inr None \<and> find_app (apps s) a = None
      \<or> (\<exists>p q. look s a = Inr (Some p) \<and> find_app (apps s) a = Some q
           \<and> ok (incr s p) \<and> apps (incr s p) = set_app (apps s) a (q + 1))"
    and ins_law: "ok s \<Longrightarrow> has_room s \<Longrightarrow> name_ok a \<Longrightarrow> find_app (apps s) a = None \<Longrightarrow>
      \<exists>s'. ins s a q = Inr s' \<and> ok s' \<and> apps s' = apps s @ [(a, q)]"
begin

text \<open>A request is counted as in the association list.\<close>

lemma count_query_refines:
  assumes "ok s" and "has_room s" and "name_ok a"
  obtains s' where "count_query look ins incr s a = Inr s'" "ok s'" "apps s' = count_app (apps s) a"
proof -
  show ?thesis
    using look_law [OF assms(1,3)]
  proof (elim disjE conjE exE)
    assume none: "look s a = Inr None" "find_app (apps s) a = None"
    obtain s' where "ins s a 1 = Inr s'" "ok s'" "apps s' = apps s @ [(a, 1)]"
      using ins_law [OF assms none(2), of 1] by (elim exE conjE) (rule that)
    with none show ?thesis by (intro that [of s']) (simp_all add: count_query_def count_app_def)
  next
    fix p q
    assume "look s a = Inr (Some p)" "find_app (apps s) a = Some q" "ok (incr s p)"
      "apps (incr s p) = set_app (apps s) a (q + 1)"
    then show ?thesis by (intro that [of "incr s p"]) (simp_all add: count_query_def count_app_def)
  qed
qed

text \<open>A sequence of requests, as long as there is room before each of them.\<close>

lemma count_queries_refine:
  "ok s \<Longrightarrow> \<forall>a \<in> set names. name_ok a \<Longrightarrow>
    \<forall>i < length names. \<forall>s'. count_queries look ins incr s (take i names) = Inr s' \<longrightarrow> has_room s' \<Longrightarrow>
    \<exists>s'. count_queries look ins incr s names = Inr s' \<and> ok s' \<and> apps s' = foldl count_app (apps s) names"
proof (induction names arbitrary: s)
  case (Cons a names)
  have room: "has_room s" using Cons.prems(3) [rule_format, of 0 s] by simp
  obtain s' where s': "count_query look ins incr s a = Inr s'" "ok s'" "apps s' = count_app (apps s) a"
    by (rule count_query_refines [OF Cons.prems(1) room, of a]) (use Cons.prems(2) in simp_all)
  have "\<forall>i < length names. \<forall>t. count_queries look ins incr s' (take i names) = Inr t \<longrightarrow> has_room t"
    using Cons.prems(3) s'(1) by (metis Suc_less_eq c_bind_simps(2) count_queries.simps(2) length_Cons take_Suc_Cons)
  then show ?case using Cons.IH [OF s'(2)] Cons.prems(2) s'(1,3) by simp
qed simp

end

section \<open>The hash table is such a table\<close>

definition incr_queries :: "hash option \<Rightarrow> nat \<Rightarrow> hash option" where
  "incr_queries head p = map_option (\<lambda>u. u\<lparr>uh_elems := (uh_elems u)[p := (uh_elems u ! p)\<lparr>queries := queries (uh_elems u ! p) + 1\<rparr>]\<rparr>) head"

lemma map_key_incr [simp]:
  "map key (es[p := (es ! p)\<lparr>queries := q\<rparr>]) = map key es"
  by (induction es arbitrary: p) (auto split: nat.split)

lemma hashv_incr [simp]: "hashv (es[p := (es ! p)\<lparr>queries := q\<rparr>] ! a) = hashv (es ! a)"
  by (cases "p < length es") (simp_all add: nth_list_update list_update_beyond)

lemma elem_ok_incr:
  assumes "\<forall>e \<in> set es. elem_ok e" shows "\<forall>e \<in> set (es[p := (es ! p)\<lparr>queries := q\<rparr>]). elem_ok e"
proof (cases "p < length es")
  case True
  then have "elem_ok ((es ! p)\<lparr>queries := q\<rparr>)" using assms by (auto simp: elem_ok_def)
  with assms show ?thesis using set_update_subset_insert [of es p] by blast
qed (use assms in \<open>simp add: list_update_beyond\<close>)

lemma uh_ok_incr:
  assumes "uh_ok head" shows "uh_ok (incr_queries head p)"
proof (cases head)
  case (Some u)
  show ?thesis
    using assms elem_ok_incr [of "uh_elems u" p] unfolding Some incr_queries_def uh_ok_def
    by (auto simp: spread_def home_def)
qed (use assms in \<open>simp add: incr_queries_def\<close>)

lemma contents_incr:
  assumes "distinct (map key es)" and "p < length es"
  shows "map (\<lambda>e. (key e, queries e)) (es[p := (es ! p)\<lparr>queries := q\<rparr>])
    = set_app (map (\<lambda>e. (key e, queries e)) es) (key (es ! p)) q"
  using assms by (induction es arbitrary: p) (auto simp: nth_Cons split: nat.splits)

lemma find_app_None: "find_app cache a = None \<longleftrightarrow> a \<notin> fst ` set cache"
  by (simp add: find_app_map_of map_of_eq_None_iff)

lemma uthash_look:
  assumes "uh_ok s" and "length a < 2 ^ 32"
  shows "HASH_FIND s a = Inr None \<and> find_app (contents s) a = None
      \<or> (\<exists>p q. HASH_FIND s a = Inr (Some p) \<and> find_app (contents s) a = Some q
           \<and> uh_ok (incr_queries s p) \<and> contents (incr_queries s p) = set_app (contents s) a (q + 1))"
proof (cases s)
  case None
  then show ?thesis by (simp add: HASH_FIND_def contents_def)
next
  case (Some u)
  have d: "distinct (map key (uh_elems u))" using assms(1) by (auto simp: Some uh_ok_def)
  show ?thesis
  proof (rule HASH_FIND_ok [OF assms [unfolded Some]])
    assume "HASH_FIND (Some u) a = Inr None" "a \<notin> key ` set (uh_elems u)"
    then show ?thesis by (simp add: Some find_app_None contents_def image_image)
  next
    fix p
    assume p: "HASH_FIND (Some u) a = Inr (Some p)" "p < length (uh_elems u)" "key (uh_elems u ! p) = a"
    have "find_app (contents s) a = Some (queries (uh_elems u ! p))"
      unfolding find_app_map_of using d p(2,3)
      by (auto simp: Some contents_def o_def intro!: map_of_is_SomeI image_eqI [where x = "uh_elems u ! p"])
    moreover have "contents (incr_queries s p) = set_app (contents s) a (queries (uh_elems u ! p) + 1)"
      using contents_incr [OF d p(2)] p(3) by (simp add: Some contents_def incr_queries_def)
    ultimately show ?thesis using p(1) uh_ok_incr [OF assms(1)] Some by blast
  qed
qed

interpretation uthash: app_table HASH_FIND HASH_ADD_KEYPTR incr_queries uh_ok room contents "\<lambda>a. length a < 2 ^ 32"
proof (unfold_locales, goal_cases)
  case (1 s a)
  then show ?case by (rule uthash_look)
next
  case (2 s a q)
  then show ?case using HASH_ADD_KEYPTR_ok [of s a q] by (metis find_app_None)
qed

section \<open>Counting requests\<close>

text \<open>What a table holds and how many buckets it has, for concrete requests.\<close>

definition measured :: "hash option cres \<Rightarrow> ((byte list \<times> 64 word) list \<times> 32 word) option" where
  "measured r = (case r of Inr (Some u) \<Rightarrow> Some (contents (Some u), num_buckets (tbl u)) | _ \<Rightarrow> None)"

lemma measured_room:
  "measured (Inr u) = Some (c, 32) \<Longrightarrow> length c + 1 < 2 ^ 32 \<Longrightarrow> room u"
  by (auto simp: measured_def room_def split: option.splits)

lemma measure_a:
  "measured (count_queries HASH_FIND HASH_ADD_KEYPTR incr_queries None [ascii ''a'']) = Some ([(ascii ''a'', 1)], 32)"
  by code_simp

lemma measure_ab:
  "measured (count_queries HASH_FIND HASH_ADD_KEYPTR incr_queries None [ascii ''a'', ascii ''b''])
     = Some ([(ascii ''a'', 1), (ascii ''b'', 1)], 32)"
  by code_simp

lemma room_aba:
  assumes "i < length [ascii ''a'', ascii ''b'', ascii ''a'']"
    and "count_queries HASH_FIND HASH_ADD_KEYPTR incr_queries None (take i [ascii ''a'', ascii ''b'', ascii ''a'']) = Inr u"
  shows "room u"
proof -
  consider "i = 0" | "i = 1" | "i = 2" using assms(1) by fastforce
  then show ?thesis
  proof cases
    case 1
    then show ?thesis using assms(2) by (auto simp: room_def contents_def)
  next
    case 2
    then show ?thesis using assms(2) measure_a by (intro measured_room [of u "[(ascii ''a'', 1)]"]) simp_all
  next
    case 3
    then show ?thesis
      using assms(2) measure_ab by (intro measured_room [of u "[(ascii ''a'', 1), (ascii ''b'', 1)]"]) simp_all
  qed
qed

text \<open>C14: The hash table of applications counts requests like the association list of the daemon:
  from an empty table on, as long as its buckets can be doubled, no operation fails, lookups find what
  was added, and walking the table gives the applications in the order of their first request with
  their numbers of requests.\<close>

theorem uthash_counts_apps:
  assumes "\<forall>a \<in> set names. length a < 2 ^ 32"
    and "\<forall>i < length names. \<forall>u. count_queries HASH_FIND HASH_ADD_KEYPTR incr_queries None (take i names) = Inr u
      \<longrightarrow> room u"
  shows "\<exists>u. count_queries HASH_FIND HASH_ADD_KEYPTR incr_queries None names = Inr u \<and> uh_ok u
     \<and> contents u = foldl count_app [] names
     \<and> (\<forall>a. length a < 2 ^ 32 \<longrightarrow> (HASH_FIND u a = Inr None \<longleftrightarrow> a \<notin> set names))"
proof -
  obtain u where u: "count_queries HASH_FIND HASH_ADD_KEYPTR incr_queries None names = Inr u" "uh_ok u"
    "contents u = foldl count_app [] names"
    using uthash.count_queries_refine [OF _ assms] by (auto simp: uh_ok_def contents_def)
  have "fst ` set (foldl count_app cache names) = fst ` set cache \<union> set names" for cache
    by (induction names arbitrary: cache) (auto simp: count_app_keys simp flip: set_map split: if_splits)
  then have "HASH_FIND u a = Inr None \<longleftrightarrow> a \<notin> set names" if "length a < 2 ^ 32" for a
    using uthash.look_law [OF u(2) that] find_app_None [of "contents u" a] by (auto simp: u(3))
  with u show ?thesis by blast
qed

lemma uthash_counts_apps_witness:
  "\<exists>u. count_queries HASH_FIND HASH_ADD_KEYPTR incr_queries None [ascii ''a'', ascii ''b'', ascii ''a''] = Inr u
     \<and> contents u = [(ascii ''a'', 2), (ascii ''b'', 1)] \<and> HASH_FIND u (ascii ''c'') = Inr None"
proof -
  have "foldl count_app [] [ascii ''a'', ascii ''b'', ascii ''a''] = [(ascii ''a'', 2), (ascii ''b'', 1)]"
    "ascii ''c'' \<notin> set [ascii ''a'', ascii ''b'', ascii ''a'']" by code_simp+
  moreover have "length (ascii ''c'') < 2 ^ 32" "\<forall>a \<in> set [ascii ''a'', ascii ''b'', ascii ''a'']. length a < 2 ^ 32"
    by (simp_all add: ascii_def)
  ultimately show ?thesis
    using uthash_counts_apps [of "[ascii ''a'', ascii ''b'', ascii ''a'']"] room_aba by auto
qed

end
