(* ===== verification/Uthash_Links.thy ===== *)
theory Uthash_Links
  imports Uthash
begin

text \<open>
  The elements of a hash table of uthash.h as they are linked in memory: by \<open>next\<close> and \<open>prev\<close> in the
  order of the application, and by \<open>hh_next\<close> and \<open>hh_prev\<close> within a bucket. Uthash has lists in their
  place; the operations that move links around, sorting and deletion, are modelled on this memory.

  An element and its handle lie at a fixed distance, and both are named by one address. Each field is
  a map from addresses. The elements belong to the program, which does not free them while they are
  in a table, so that the only faulty access is the one through a null pointer.
\<close>

section \<open>Memory\<close>

type_synonym hptr = "nat option"

record links =
  app_prev :: "nat \<Rightarrow> hptr"
  app_next :: "nat \<Rightarrow> hptr"
  bkt_prev :: "nat \<Rightarrow> hptr"
  bkt_next :: "nat \<Rightarrow> hptr"
  el_key :: "nat \<Rightarrow> byte list"
  el_hashv :: "nat \<Rightarrow> 32 word"

record lbucket =
  hh_head :: hptr
  lcount :: "32 word"
  lexpand_mult :: "32 word"

record ltable =
  lbuckets :: "lbucket list"
  lnum_buckets :: "32 word"
  llog2_num_buckets :: "32 word"
  lnum_items :: "32 word"
  ltail :: hptr
  lideal :: "32 word"
  lnonideal :: "32 word"
  lineff :: "32 word"
  lnoexpand :: "32 word"

text \<open>A table with its head; without elements there is no table, and \<open>ltbl\<close> is what is left of it.\<close>

record uhash =
  lhead :: hptr
  ltbl :: ltable
  lmem :: links

definition hh_of :: "hptr \<Rightarrow> nat cres" where
  "hh_of p = (case p of None \<Rightarrow> Inl BadPointer | Some a \<Rightarrow> Inr a)"

lemma hh_of_Some [simp]: "hh_of (Some a) = Inr a"
  by (simp add: hh_of_def)

section \<open>Lists in memory\<close>

text \<open>From the pointer \<open>p\<close> the links \<open>N\<close> lead over \<open>xs\<close> to \<open>q\<close>; the links \<open>P\<close> lead back, to \<open>p\<close> at last.\<close>

fun path :: "(nat \<Rightarrow> hptr) \<Rightarrow> hptr \<Rightarrow> nat list \<Rightarrow> hptr \<Rightarrow> bool" where
  "path N p [] q = (p = q)"
| "path N p (x # xs) q = (p = Some x \<and> path N (N x) xs q)"

fun backs :: "(nat \<Rightarrow> hptr) \<Rightarrow> hptr \<Rightarrow> nat list \<Rightarrow> bool" where
  "backs P p [] = True"
| "backs P p (x # xs) = (P x = p \<and> backs P (Some x) xs)"

definition end_of :: "hptr \<Rightarrow> nat list \<Rightarrow> hptr" where
  "end_of p xs = (if xs = [] then p else Some (last xs))"

definition start_of :: "nat list \<Rightarrow> hptr \<Rightarrow> hptr" where
  "start_of xs q = (case xs of [] \<Rightarrow> q | x # _ \<Rightarrow> Some x)"

lemma end_of_simps [simp]:
  "end_of p [] = p" "end_of p (xs @ [x]) = Some x" "end_of p (x # xs) = end_of (Some x) xs"
  "end_of p (xs @ ys) = end_of (end_of p xs) ys"
  by (simp_all add: end_of_def)

lemma start_of_simps [simp]:
  "start_of [] q = q" "start_of (x # xs) q = Some x" "start_of (xs @ ys) q = start_of xs (start_of ys q)"
  by (simp_all add: start_of_def split: list.split)

lemma path_append [simp]: "path N p (xs @ ys) q \<longleftrightarrow> (\<exists>r. path N p xs r \<and> path N r ys q)"
  by (induction xs arbitrary: p) auto

lemma path_start: "path N p xs q \<Longrightarrow> p = start_of xs q"
  by (cases xs) auto

lemma path_unique: "path N p xs None \<Longrightarrow> path N p ys None \<Longrightarrow> xs = ys"
proof (induction xs arbitrary: p ys)
  case Nil
  then show ?case by (cases ys) auto
next
  case (Cons x xs)
  then show ?case by (cases ys) auto
qed

lemma path_upd [simp]: "a \<notin> set xs \<Longrightarrow> path (N(a := v)) p xs q \<longleftrightarrow> path N p xs q"
  by (induction xs arbitrary: p) auto

lemma path_cong: "path N p xs q \<Longrightarrow> \<forall>x \<in> set xs. N' x = N x \<Longrightarrow> path N' p xs q"
  by (induction xs arbitrary: p) auto

lemma backs_append [simp]: "backs P p (xs @ ys) \<longleftrightarrow> backs P p xs \<and> backs P (end_of p xs) ys"
  by (induction xs arbitrary: p) auto

lemma backs_upd [simp]: "a \<notin> set xs \<Longrightarrow> backs (P(a := v)) p xs \<longleftrightarrow> backs P p xs"
  by (induction xs arbitrary: p) auto

lemma backs_cong: "backs P p xs \<Longrightarrow> \<forall>x \<in> set xs. P' x = P x \<Longrightarrow> backs P' p xs"
  by (induction xs arbitrary: p) auto

text \<open>The last link of a path can be redirected.\<close>

lemma path_redirect:
  "path N p (xs @ [x]) q \<Longrightarrow> distinct (xs @ [x]) \<Longrightarrow> path (N(x := q')) p (xs @ [x]) q'"
  by auto

text \<open>The whole list in the order of the application.\<close>

definition app_list :: "links \<Rightarrow> hptr \<Rightarrow> hptr \<Rightarrow> nat list \<Rightarrow> bool" where
  "app_list m front lst xs \<longleftrightarrow> path (app_next m) front xs None \<and> backs (app_prev m) None xs \<and> distinct xs
     \<and> lst = end_of None xs"

end
