(* ===== verification/Uthash_Sort.thy ===== *)
theory Uthash_Sort
  imports Uthash_Links "HOL-Library.Sorting_Algorithms"
begin

text \<open>
  \<open>HASH_SRT\<close> of uthash.h: the merge sort of Simon Tatham on the doubly linked list of the elements, which
  doubles the length of the sorted runs in each pass and needs no memory of its own. It is shown to be
  the stable sort of the library.
\<close>

section \<open>The code\<close>

text \<open>The variables of the macro, with the prefix \<open>so\<close> in place of \<open>_hs\<close>.\<close>

record sorting =
  so_mem :: links
  so_p :: hptr
  so_q :: hptr
  so_psize :: "32 word"
  so_qsize :: "32 word"
  so_list :: hptr
  so_tail :: hptr

text \<open>The loop that steps over at most \<open>insize\<close> elements and counts them.\<close>

fun run_length :: "(nat \<Rightarrow> hptr) \<Rightarrow> nat \<Rightarrow> hptr \<Rightarrow> 32 word \<Rightarrow> (hptr \<times> 32 word) cres" where
  "run_length N 0 q psize = Inr (q, psize)"
| "run_length N (Suc k) q psize = c_bind (hh_of q) (\<lambda>a.
     if N a = None then Inr (None, psize + 1) else run_length N k (N a) (psize + 1))"

definition take_p :: "sorting \<Rightarrow> (hptr \<times> sorting) cres" where
  "take_p s = Inr (so_p s, s\<lparr>so_p := (case so_p s of None \<Rightarrow> None | Some a \<Rightarrow> app_next (so_mem s) a),
     so_psize := so_psize s - 1\<rparr>)"

definition take_q :: "sorting \<Rightarrow> (hptr \<times> sorting) cres" where
  "take_q s = c_bind (hh_of (so_q s)) (\<lambda>b.
     Inr (Some b, s\<lparr>so_q := app_next (so_mem s) b, so_qsize := so_qsize s - 1\<rparr>))"

definition next_elem :: "(nat \<Rightarrow> nat \<Rightarrow> int) \<Rightarrow> sorting \<Rightarrow> (hptr \<times> sorting) cres" where
  "next_elem cmpfcn s =
     (if so_psize s = 0 then take_q s
      else if so_qsize s = 0 \<or> so_q s = None then take_p s
      else c_bind (hh_of (so_p s)) (\<lambda>a. c_bind (hh_of (so_q s)) (\<lambda>b.
             if cmpfcn a b \<le> 0 then take_p s else take_q s)))"

definition append_elem :: "hptr \<Rightarrow> sorting \<Rightarrow> sorting" where
  "append_elem e s =
     (let m = so_mem s;
          m = (case so_tail s of None \<Rightarrow> m | Some t \<Rightarrow> m\<lparr>app_next := (app_next m)(t := e)\<rparr>);
          m = (case e of None \<Rightarrow> m | Some a \<Rightarrow> m\<lparr>app_prev := (app_prev m)(a := so_tail s)\<rparr>)
      in s\<lparr>so_mem := m, so_list := (if so_tail s = None then e else so_list s), so_tail := e\<rparr>)"

lemma next_elem_sizes:
  assumes "next_elem cmpfcn s = Inr (e, s')" and "so_psize s \<noteq> 0 \<or> (so_qsize s \<noteq> 0 \<and> so_q s \<noteq> None)"
  shows "unat (so_psize s') + unat (so_qsize s') < unat (so_psize s) + unat (so_qsize s)"
proof -
  have dec: "unat (w - 1) < unat w" if "w \<noteq> 0" for w :: "32 word"
    using that by (simp add: unat_minus_one unat_gt_0)
  show ?thesis using assms dec by (auto simp: next_elem_def take_p_def take_q_def c_iff split: if_splits)
qed

function merge_runs :: "(nat \<Rightarrow> nat \<Rightarrow> int) \<Rightarrow> sorting \<Rightarrow> sorting cres" where
  "merge_runs cmpfcn s =
     (if so_psize s \<noteq> 0 \<or> (so_qsize s \<noteq> 0 \<and> so_q s \<noteq> None) then
        c_bind (next_elem cmpfcn s) (\<lambda>(e, s). merge_runs cmpfcn (append_elem e s))
      else Inr s)"
  by pat_completeness auto
termination
proof (relation "measure (\<lambda>(c, s). unat (so_psize s) + unat (so_qsize s))", goal_cases)
  case (2 cmpfcn s x e s')
  then show ?case using next_elem_sizes by (fastforce simp: append_elem_def Let_def)
qed simp

declare merge_runs.simps [simp del]

text \<open>One pass over the list; the fuel bounds the number of merges.\<close>

fun merge_pass :: "nat \<Rightarrow> (nat \<Rightarrow> nat \<Rightarrow> int) \<Rightarrow> 32 word \<Rightarrow> 32 word \<Rightarrow> sorting \<Rightarrow> (32 word \<times> sorting) cres" where
  "merge_pass 0 cmpfcn insize nmerges s = Inl NoReturn"
| "merge_pass (Suc fuel) cmpfcn insize nmerges s =
     (if so_p s = None then Inr (nmerges, s)
      else c_bind (run_length (app_next (so_mem s)) (unat insize) (so_p s) 0) (\<lambda>(q, psize).
           c_bind (merge_runs cmpfcn (s\<lparr>so_q := q, so_psize := psize, so_qsize := insize\<rparr>)) (\<lambda>s.
             merge_pass fuel cmpfcn insize (nmerges + 1) (s\<lparr>so_p := so_q s\<rparr>))))"

fun sort_loop :: "nat \<Rightarrow> nat \<Rightarrow> (nat \<Rightarrow> nat \<Rightarrow> int) \<Rightarrow> 32 word \<Rightarrow> links \<Rightarrow> hptr \<Rightarrow> (links \<times> hptr \<times> hptr) cres" where
  "sort_loop 0 n cmpfcn insize m lst = Inl NoReturn"
| "sort_loop (Suc fuel) n cmpfcn insize m lst =
     c_bind (merge_pass n cmpfcn insize 0 \<lparr>so_mem = m, so_p = lst, so_q = None, so_psize = 0, so_qsize = 0,
       so_list = None, so_tail = None\<rparr>) (\<lambda>(nmerges, s).
     let m = so_mem s;
         m = (case so_tail s of None \<Rightarrow> m | Some t \<Rightarrow> m\<lparr>app_next := (app_next m)(t := None)\<rparr>)
     in if nmerges \<le> 1 then Inr (m, so_list s, so_tail s)
        else sort_loop fuel n cmpfcn (insize * 2) m (so_list s))"

definition HASH_SRT :: "nat \<Rightarrow> (nat \<Rightarrow> nat \<Rightarrow> int) \<Rightarrow> uhash \<Rightarrow> uhash cres" where
  "HASH_SRT fuel cmpfcn u =
     (if lhead u = None then Inr u
      else c_bind (sort_loop fuel fuel cmpfcn 1 (lmem u) (lhead u)) (\<lambda>(m, lst, last_one).
        c_bind (hh_of lst) (\<lambda>front.
          Inr (u\<lparr>lhead := Some front, ltbl := (ltbl u)\<lparr>ltail := last_one\<rparr>, lmem := m\<rparr>))))"

section \<open>Passes over lists\<close>

text \<open>What a pass does to the list, with runs of length \<open>k\<close>, and how many merges it takes.\<close>

function pass :: "'a comparator \<Rightarrow> nat \<Rightarrow> 'a list \<Rightarrow> 'a list" where
  "pass c k xs = (if xs = [] \<or> k = 0 then xs
     else Sorting_Algorithms.merge c (take k xs) (take k (drop k xs)) @ pass c k (drop (k + k) xs))"
  by pat_completeness auto
termination by (relation "measure (\<lambda>(c, k, xs). length xs)") auto

function merges :: "nat \<Rightarrow> 'a list \<Rightarrow> nat" where
  "merges k xs = (if xs = [] \<or> k = 0 then 0 else 1 + merges k (drop (k + k) xs))"
  by pat_completeness auto
termination by (relation "measure (\<lambda>(k, xs). length xs)") auto

text \<open>The list consists of sorted runs of length \<open>k\<close>, the last one may be shorter.\<close>

function runs :: "'a comparator \<Rightarrow> nat \<Rightarrow> 'a list \<Rightarrow> bool" where
  "runs c k xs = (if xs = [] \<or> k = 0 then True else Sorting_Algorithms.sorted c (take k xs) \<and> runs c k (drop k xs))"
  by pat_completeness auto
termination by (relation "measure (\<lambda>(c, k, xs). length xs)") auto

declare pass.simps [simp del] merges.simps [simp del] runs.simps [simp del]

lemma runsD: "runs c k xs \<Longrightarrow> k \<noteq> 0 \<Longrightarrow> Sorting_Algorithms.sorted c (take k xs) \<and> runs c k (drop k xs)"
  by (cases "xs = []") (simp_all add: runs.simps [of c k xs] runs.simps [of c k "[]"])

lemma runs_one: "runs c 1 xs"
proof (induction xs)
  case (Cons x xs)
  then show ?case by (simp add: runs.simps [of c "Suc 0" "x # xs"])
qed (simp add: runs.simps)

lemma length_merge [simp]: "length (Sorting_Algorithms.merge c xs ys) = length xs + length ys"
  by (metis Sorting_Algorithms.mset_merge size_mset size_union)

lemma split_runs: "xs = take k xs @ take k (drop k xs) @ drop (k + k) xs"
  by (metis append_take_drop_id drop_drop)

lemma pass_mset: "mset (pass c k xs) = mset xs"
proof (induction c k xs rule: pass.induct)
  case (1 c k xs)
  show ?case
  proof (cases "xs = [] \<or> k = 0")
    case False
    have "mset (pass c k xs) = mset (take k xs) + mset (take k (drop k xs)) + mset (drop (k + k) xs)"
      using 1 False by (simp add: pass.simps [of c k xs] Sorting_Algorithms.mset_merge)
    also have "\<dots> = mset (take k xs @ take k (drop k xs) @ drop (k + k) xs)" by (simp only: mset_append add.assoc)
    also have "\<dots> = mset xs" using split_runs [of xs k] by simp
    finally show ?thesis .
  qed (simp add: pass.simps)
qed

lemma pass_length [simp]: "length (pass c k xs) = length xs"
  by (metis pass_mset size_mset)

lemma pass_stable:
  "runs c k xs \<Longrightarrow> filter (\<lambda>y. compare c x y = Equiv) (pass c k xs) = filter (\<lambda>y. compare c x y = Equiv) xs"
proof (induction c k xs rule: pass.induct)
  case (1 c k xs)
  let ?f = "filter (\<lambda>y. compare c x y = Equiv)"
  show ?case
  proof (cases "xs = [] \<or> k = 0")
    case False
    then have s: "Sorting_Algorithms.sorted c (take k xs)" "Sorting_Algorithms.sorted c (take k (drop k xs))"
      "runs c k (drop (k + k) xs)"
      using runsD [OF 1(2)] runsD [of c k "drop k xs"] by auto
    have "?f (Sorting_Algorithms.merge c (take k xs) (take k (drop k xs))) = ?f (take k xs) @ ?f (take k (drop k xs))"
      by (simp only: Sorting_Algorithms.filter_merge [OF s(1,2)] Sorting_Algorithms.merge_stable_segments)
    then have "?f (pass c k xs) = ?f (take k xs @ take k (drop k xs) @ drop (k + k) xs)"
      using 1(1) [OF False s(3)] False by (simp add: pass.simps [of c k xs])
    then show ?thesis using split_runs [of xs k] by simp
  qed (simp add: pass.simps)
qed

lemma pass_runs: "runs c k xs \<Longrightarrow> runs c (k + k) (pass c k xs)"
proof (induction c k xs rule: pass.induct)
  case (1 c k xs)
  show ?case
  proof (cases "xs = [] \<or> k = 0")
    case True
    then show ?thesis by (auto simp: pass.simps runs.simps [of c 0] runs.simps [of c _ "[]"])
  next
    case False
    let ?m = "Sorting_Algorithms.merge c (take k xs) (take k (drop k xs))"
    have s: "Sorting_Algorithms.sorted c (take k xs)" "Sorting_Algorithms.sorted c (take k (drop k xs))"
      "runs c k (drop (k + k) xs)"
      using False runsD [OF 1(2)] runsD [of c k "drop k xs"] by auto
    have p: "pass c k xs = ?m @ pass c k (drop (k + k) xs)" using False by (simp add: pass.simps [of c k xs])
    have m: "length ?m = k + k \<or> drop (k + k) xs = [] \<and> length ?m \<le> k + k" by auto
    have n: "pass c k [] = []" by (simp add: pass.simps)
    have "take (k + k) (pass c k xs) = ?m" "drop (k + k) (pass c k xs) = pass c k (drop (k + k) xs)"
      using m n by (auto simp: p)
    then show ?thesis
      using 1(1) [OF False s(3)] Sorting_Algorithms.sorted_merge [OF s(1,2)]
      by (subst runs.simps) simp
  qed
qed

lemma sort_pass: "runs c k xs \<Longrightarrow> Sorting_Algorithms.sort c (pass c k xs) = Sorting_Algorithms.sort c xs"
  by (rule Sorting_Algorithms.sort_eqI) (simp_all add: pass_mset pass_stable Sorting_Algorithms.stable_sort)

lemma last_pass:
  assumes "runs c k xs" and "length xs \<le> k + k"
  shows "Sorting_Algorithms.sort c xs = pass c k xs"
proof (rule Sorting_Algorithms.sort_eqI)
  have r: "runs c (k + k) (pass c k xs)" by (rule pass_runs [OF assms(1)])
  show "Sorting_Algorithms.sorted c (pass c k xs)"
  proof (cases "k = 0")
    case True
    then show ?thesis using assms(2) by (simp add: pass.simps)
  next
    case False
    then show ?thesis using runsD [OF r] assms(2) by simp
  qed
qed (simp_all add: pass_mset pass_stable [OF assms(1)])

lemma merges_le: "merges k xs \<le> length xs"
proof (induction k xs rule: merges.induct)
  case (1 k xs)
  show ?case
  proof (cases "xs = [] \<or> k = 0")
    case False
    then have "length xs - (k + k) < length xs" by simp
    moreover have "merges k (drop (k + k) xs) \<le> length xs - (k + k)" using 1 False by simp
    moreover have "merges k xs = Suc (merges k (drop (k + k) xs))" using False by (simp add: merges.simps [of k xs])
    ultimately show ?thesis by linarith
  qed (simp add: merges.simps)
qed

lemma merges_one: "0 < k \<Longrightarrow> merges k xs \<le> 1 \<longleftrightarrow> length xs \<le> k + k"
  by (cases "xs = []"; cases "drop (k + k) xs = []")
    (auto simp: merges.simps [of k xs] merges.simps [of k "[]"] merges.simps [of k "drop (k + k) xs"])

section \<open>The merge of two runs\<close>

text \<open>Nothing but the links between the elements \<open>X\<close> in the order of the application has changed.\<close>

definition same_rest :: "nat set \<Rightarrow> links \<Rightarrow> links \<Rightarrow> bool" where
  "same_rest X m m' \<longleftrightarrow> bkt_prev m' = bkt_prev m \<and> bkt_next m' = bkt_next m \<and> el_key m' = el_key m
     \<and> el_hashv m' = el_hashv m \<and> (\<forall>x. x \<notin> X \<longrightarrow> app_next m' x = app_next m x \<and> app_prev m' x = app_prev m x)"

text \<open>\<open>ys\<close> is the list that has been built: its links are set but for the one at the end.\<close>

definition built :: "nat set \<Rightarrow> links \<Rightarrow> sorting \<Rightarrow> nat list \<Rightarrow> bool" where
  "built X m0 s ys \<longleftrightarrow> path (app_next (so_mem s)) (so_list s) (butlast ys) (so_tail s) \<and> so_tail s = end_of None ys
     \<and> backs (app_prev (so_mem s)) None ys \<and> distinct ys \<and> set ys \<subseteq> X \<and> same_rest X m0 (so_mem s)"

text \<open>The runs \<open>as\<close> and \<open>bs\<close> are still to be merged, \<open>rest\<close> is behind them.\<close>

definition merging :: "nat set \<Rightarrow> links \<Rightarrow> sorting \<Rightarrow> nat list \<Rightarrow> nat list \<Rightarrow> nat list \<Rightarrow> nat list \<Rightarrow> bool" where
  "merging X m0 s ys as bs rest \<longleftrightarrow> built X m0 s ys \<and> unat (so_psize s) = length as
     \<and> (\<exists>r. path (app_next (so_mem s)) (so_p s) as r) \<and> path (app_next (so_mem s)) (so_q s) (bs @ rest) None
     \<and> length bs \<le> unat (so_qsize s) \<and> (unat (so_qsize s) = length bs \<or> rest = [])
     \<and> distinct (ys @ as @ bs @ rest) \<and> set (as @ bs @ rest) \<subseteq> X"

lemma unat_pred: "unat w = Suc n \<Longrightarrow> unat (w - 1 :: 32 word) = n"
  by (metis One_nat_def diff_Suc_1 nat.distinct(1) unat_0 unat_minus_one)

lemma take_p_ok:
  assumes "merging X m0 s ys (a # as) bs rest"
  obtains s' where "take_p s = Inr (Some a, s')" "merging X m0 s' ys as bs rest"
proof
  show "take_p s = Inr (Some a, s\<lparr>so_p := app_next (so_mem s) a, so_psize := so_psize s - 1\<rparr>)"
    using assms by (auto simp: take_p_def merging_def)
  show "merging X m0 (s\<lparr>so_p := app_next (so_mem s) a, so_psize := so_psize s - 1\<rparr>) ys as bs rest"
    using assms unat_pred [of "so_psize s" "length as"] by (auto simp: merging_def built_def)
qed

lemma take_q_ok:
  assumes "merging X m0 s ys as (b # bs) rest"
  obtains s' where "take_q s = Inr (Some b, s')" "merging X m0 s' ys as bs rest"
proof
  show "take_q s = Inr (Some b, s\<lparr>so_q := app_next (so_mem s) b, so_qsize := so_qsize s - 1\<rparr>)"
    using assms by (auto simp: take_q_def merging_def)
  obtain n where "unat (so_qsize s) = Suc n" using assms by (cases "unat (so_qsize s)") (auto simp: merging_def)
  then show "merging X m0 (s\<lparr>so_q := app_next (so_mem s) b, so_qsize := so_qsize s - 1\<rparr>) ys as bs rest"
    using assms unat_pred [of "so_qsize s" n] by (auto simp: merging_def built_def)
qed

lemma append_built:
  assumes "built X m0 s ys" and "a \<in> X" and "a \<notin> set ys"
  shows "built X m0 (append_elem (Some a) s) (ys @ [a])"
proof (cases ys rule: rev_cases)
  case Nil
  then show ?thesis using assms by (auto simp: built_def append_elem_def same_rest_def Let_def)
next
  case (snoc us t)
  have "path ((app_next (so_mem s))(t := Some a)) (so_list s) (us @ [t]) (Some a)"
    using assms(1) snoc by (auto simp: built_def)
  moreover have "backs ((app_prev (so_mem s))(a := Some t)) None (ys @ [a])"
    using assms(1,3) snoc by (auto simp: built_def)
  moreover have "so_tail s = Some t" using assms(1) snoc by (simp add: built_def)
  ultimately show ?thesis
    using assms snoc by (auto simp: built_def append_elem_def same_rest_def Let_def butlast_append)
qed

lemma append_elem_fields [simp]:
  "so_p (append_elem e s) = so_p s" "so_q (append_elem e s) = so_q s"
  "so_psize (append_elem e s) = so_psize s" "so_qsize (append_elem e s) = so_qsize s"
  by (simp_all add: append_elem_def Let_def)

lemma append_next: "so_tail s \<noteq> Some x \<Longrightarrow> app_next (so_mem (append_elem e s)) x = app_next (so_mem s) x"
  by (auto simp: append_elem_def Let_def split: option.split)

lemma append_merging:
  assumes "merging X m0 s ys as bs rest" and "a \<in> X" and "a \<notin> set (ys @ as @ bs @ rest)"
  shows "merging X m0 (append_elem (Some a) s) (ys @ [a]) as bs rest"
proof -
  let ?N = "app_next (so_mem (append_elem (Some a) s))"
  have b: "built X m0 s ys" using assms(1) by (simp add: merging_def)
  have keep: "?N x = app_next (so_mem s) x" if "x \<in> set (as @ bs @ rest)" for x
  proof (rule append_next)
    have "x \<notin> set ys" using that assms(1) by (auto simp: merging_def)
    then show "so_tail s \<noteq> Some x" using b by (cases ys rule: rev_cases) (auto simp: built_def)
  qed
  obtain r where r: "path (app_next (so_mem s)) (so_p s) as r" "path (app_next (so_mem s)) (so_q s) (bs @ rest) None"
    using assms(1) by (auto simp: merging_def)
  have p: "path ?N (so_p s) as r" by (rule path_cong [OF r(1)]) (use keep in auto)
  have q: "path ?N (so_q s) (bs @ rest) None" by (rule path_cong [OF r(2)]) (use keep in auto)
  have "built X m0 (append_elem (Some a) s) (ys @ [a])" using append_built [OF b assms(2)] assms(3) by simp
  with p q show ?thesis using assms(1,3) unfolding merging_def by (auto simp del: path_append)
qed

text \<open>The comparison function of the program orders the elements like the comparator \<open>c\<close>.\<close>

definition compares :: "(nat \<Rightarrow> nat \<Rightarrow> int) \<Rightarrow> nat comparator \<Rightarrow> bool" where
  "compares cmpfcn c \<longleftrightarrow> (\<forall>a b. cmpfcn a b \<le> 0 \<longleftrightarrow> compare c a b \<noteq> Greater)"

lemma merging_more:
  assumes "merging X m0 s ys as bs rest"
  shows "so_psize s \<noteq> 0 \<longleftrightarrow> as \<noteq> []" and "so_qsize s \<noteq> 0 \<and> so_q s \<noteq> None \<longleftrightarrow> bs \<noteq> []"
    and "\<And>a as'. as = a # as' \<Longrightarrow> so_p s = Some a" and "\<And>b bs'. bs = b # bs' \<Longrightarrow> so_q s = Some b"
proof -
  note m = assms [unfolded merging_def]
  show "so_psize s \<noteq> 0 \<longleftrightarrow> as \<noteq> []" using m by (metis length_0_conv unat_eq_zero)
  show "so_qsize s \<noteq> 0 \<and> so_q s \<noteq> None \<longleftrightarrow> bs \<noteq> []"
    using m by (cases bs) (auto simp: unat_eq_zero [symmetric])
  show "\<And>a as'. as = a # as' \<Longrightarrow> so_p s = Some a" "\<And>b bs'. bs = b # bs' \<Longrightarrow> so_q s = Some b" using m by auto
qed

lemma merge_Nil [simp]: "Sorting_Algorithms.merge c xs [] = xs"
  by (cases xs) simp_all

lemma next_elem_ok:
  assumes "merging X m0 s ys as bs rest" and "compares cmpfcn c" and "as \<noteq> [] \<or> bs \<noteq> []"
  obtains e s' as' bs' where "next_elem cmpfcn s = Inr (Some e, s')" and "merging X m0 s' ys as' bs' rest"
    and "Sorting_Algorithms.merge c as bs = e # Sorting_Algorithms.merge c as' bs'"
    and "e \<in> set (as @ bs)" and "e \<notin> set (as' @ bs')" and "length as' + length bs' < length as + length bs"
proof -
  note more = merging_more [OF assms(1)]
  have d: "distinct (ys @ as @ bs @ rest)" using assms(1) by (simp add: merging_def)
  show ?thesis
  proof (cases as)
    case Nil
    then obtain b bs' where bs: "bs = b # bs'" using assms(3) by (cases bs) auto
    obtain s' where "take_q s = Inr (Some b, s')" "merging X m0 s' ys as bs' rest"
      using take_q_ok assms(1) bs by metis
    then show ?thesis using Nil bs more(1) d by (intro that [of b s' as bs']) (simp_all add: next_elem_def)
  next
    case a: (Cons a as')
    obtain s1 where s1: "take_p s = Inr (Some a, s1)" "merging X m0 s1 ys as' bs rest"
      using take_p_ok assms(1) a by metis
    show ?thesis
    proof (cases bs)
      case Nil
      then have "so_qsize s = 0 \<or> so_q s = None" using more(2) by blast
      then show ?thesis
        using Nil a s1 more(1) d by (intro that [of a s1 as' bs]) (simp_all add: next_elem_def)
    next
      case b: (Cons b bs')
      obtain s2 where s2: "take_q s = Inr (Some b, s2)" "merging X m0 s2 ys as bs' rest"
        using take_q_ok assms(1) b by metis
      have q: "so_qsize s \<noteq> 0" "so_q s = Some b" "so_p s = Some a" "so_psize s \<noteq> 0" using more a b by auto
      show ?thesis
      proof (cases "compare c a b = Greater")
        case True
        then have "\<not> cmpfcn a b \<le> 0" using assms(2) by (simp add: compares_def)
        then show ?thesis
          using True s2 q a b d by (intro that [of b s2 as bs']) (simp_all add: next_elem_def)
      next
        case False
        then have "cmpfcn a b \<le> 0" using assms(2) by (simp add: compares_def)
        then show ?thesis
          using False s1 q a b d by (intro that [of a s1 as' bs]) (simp_all add: next_elem_def)
      qed
    qed
  qed
qed

lemma merge_runs_ok:
  assumes "compares cmpfcn c"
  shows "merging X m0 s ys as bs rest \<Longrightarrow>
    \<exists>s'. merge_runs cmpfcn s = Inr s' \<and> merging X m0 s' (ys @ Sorting_Algorithms.merge c as bs) [] [] rest"
proof (induction "length as + length bs" arbitrary: s ys as bs rule: less_induct)
  case less
  note more = merging_more [OF less.prems]
  show ?case
  proof (cases "as = [] \<and> bs = []")
    case True
    then have "\<not> (so_psize s \<noteq> 0 \<or> (so_qsize s \<noteq> 0 \<and> so_q s \<noteq> None))" using more(1,2) by blast
    then have "merge_runs cmpfcn s = Inr s" by (subst merge_runs.simps) (rule if_not_P)
    then show ?thesis using less.prems True by simp
  next
    case False
    then have loop: "so_psize s \<noteq> 0 \<or> (so_qsize s \<noteq> 0 \<and> so_q s \<noteq> None)" using more(1,2) by blast
    obtain e s' as' bs' where e: "next_elem cmpfcn s = Inr (Some e, s')" "merging X m0 s' ys as' bs' rest"
      "Sorting_Algorithms.merge c as bs = e # Sorting_Algorithms.merge c as' bs'"
      "e \<in> set (as @ bs)" "e \<notin> set (as' @ bs')" "length as' + length bs' < length as + length bs"
      using next_elem_ok [OF less.prems assms] False by metis
    have "e \<in> X" "e \<notin> set ys" "e \<notin> set rest" using e(4) less.prems by (auto simp: merging_def)
    then have "merging X m0 (append_elem (Some e) s') (ys @ [e]) as' bs' rest"
      using append_merging [OF e(2), of e] e(5) by auto
    from less.hyps [OF e(6) this] show ?thesis
      using loop e(1,3) by (simp add: merge_runs.simps [of _ s])
  qed
qed

section \<open>The whole sort\<close>

lemma run_length_ok:
  "path N p (as @ rest) None \<Longrightarrow> length as = k \<or> rest = [] \<and> 0 < length as \<and> length as \<le> k \<Longrightarrow>
   run_length N k p ps = Inr (start_of rest None, ps + of_nat (length as))"
proof (induction k arbitrary: p as ps)
  case 0
  then show ?case by (auto dest: path_start)
next
  case (Suc k)
  then obtain a as' where as: "as = a # as'" by (cases as) auto
  then have p: "p = Some a" "path N (N a) (as' @ rest) None" using Suc.prems(1) by auto
  have N: "N a = start_of as' (start_of rest None)" using path_start [OF p(2)] by simp
  show ?case
  proof (cases "N a")
    case None
    then have "as' = []" "rest = []" using N by (cases as'; cases rest; simp)+
    then show ?thesis using None p(1) as by simp
  next
    case (Some b)
    then have "as' @ rest \<noteq> []" using N by auto
    then have "length as' = k \<or> rest = [] \<and> 0 < length as' \<and> length as' \<le> k" using Suc.prems(2) as by auto
    from Suc.IH [OF p(2) this] show ?thesis using Some p(1) as by (simp add: algebra_simps)
  qed
qed

definition passing :: "nat set \<Rightarrow> links \<Rightarrow> sorting \<Rightarrow> nat list \<Rightarrow> nat list \<Rightarrow> bool" where
  "passing X m0 s ys xs \<longleftrightarrow> built X m0 s ys \<and> path (app_next (so_mem s)) (so_p s) xs None
     \<and> distinct (ys @ xs) \<and> set xs \<subseteq> X"

lemma merge_pass_ok:
  assumes "compares cmpfcn c" and "insize \<noteq> 0" and k: "k = unat insize"
  shows "passing X m0 s ys xs \<Longrightarrow> length xs < fuel \<Longrightarrow>
    \<exists>s'. merge_pass fuel cmpfcn insize nm s = Inr (nm + of_nat (merges k xs), s') \<and> built X m0 s' (ys @ pass c k xs)"
proof (induction fuel arbitrary: s ys xs nm)
  case (Suc fuel)
  have k0: "0 < k" using assms(2) k by (simp add: unat_gt_0)
  show ?case
  proof (cases "xs = []")
    case True
    then show ?thesis using Suc.prems by (auto simp: passing_def merges.simps pass.simps)
  next
    case False
    let ?as = "take k xs" and ?r = "drop k xs"
    let ?bs = "take k ?r" and ?rest = "drop k ?r"
    have p: "path (app_next (so_mem s)) (so_p s) (?as @ ?r) None" using Suc.prems(1) by (simp add: passing_def)
    have sz: "length ?as = k \<or> ?r = [] \<and> 0 < length ?as \<and> length ?as \<le> k" using False k0 by auto
    obtain y where pn: "so_p s = Some y" using Suc.prems(1) False by (cases xs) (auto simp: passing_def)
    have len: "unat (of_nat (length ?as) :: 32 word) = length ?as"
      using k unsigned_less [of insize, where ?'a = nat] by (simp add: unat_of_nat)
    let ?s = "s\<lparr>so_q := start_of ?r None, so_psize := of_nat (length ?as), so_qsize := insize\<rparr>"
    obtain r where r: "path (app_next (so_mem s)) (so_p s) ?as r" "path (app_next (so_mem s)) r ?r None"
      using p by (auto simp del: append_take_drop_id)
    have q: "path (app_next (so_mem s)) (start_of ?r None) (?bs @ ?rest) None"
      using r(2) path_start [OF r(2)] by (simp del: path_append drop_drop)
    have sub: "set ?as \<union> set ?bs \<union> set ?rest = set xs"
      using append_take_drop_id [of k xs] append_take_drop_id [of k ?r] by (metis Un_assoc set_append)
    have dist: "distinct (ys @ ?as @ ?bs @ ?rest)"
      using Suc.prems(1) by (simp only: append_take_drop_id passing_def)
    have "merging X m0 ?s ys ?as ?bs ?rest"
      unfolding merging_def using Suc.prems(1) r(1) q dist sub len k
      by (auto simp: passing_def built_def simp del: path_append drop_drop)
    then obtain s1 where s1: "merge_runs cmpfcn ?s = Inr s1"
      "merging X m0 s1 (ys @ Sorting_Algorithms.merge c ?as ?bs) [] [] ?rest"
      using merge_runs_ok [OF assms(1)] by blast
    then have "passing X m0 (s1\<lparr>so_p := so_q s1\<rparr>) (ys @ Sorting_Algorithms.merge c ?as ?bs) ?rest"
      by (auto simp: merging_def passing_def built_def)
    moreover have "length ?rest < fuel" using Suc.prems(2) False k0 by (cases xs) auto
    ultimately obtain s' where s': "merge_pass fuel cmpfcn insize (nm + 1) (s1\<lparr>so_p := so_q s1\<rparr>)
        = Inr (nm + 1 + of_nat (merges k ?rest), s')"
      "built X m0 s' ((ys @ Sorting_Algorithms.merge c ?as ?bs) @ pass c k ?rest)"
      using Suc.IH by blast
    show ?thesis
      using s1(1) s' pn False k0 run_length_ok [OF p sz, of 0]
      by (simp add: k [symmetric] merges.simps [of k xs] pass.simps [of c k xs] add.assoc)
  qed
qed simp

lemma built_closed:
  assumes "built X m0 s ys" and "ys \<noteq> []"
    and m: "m = (case so_tail s of None \<Rightarrow> so_mem s | Some t \<Rightarrow> (so_mem s)\<lparr>app_next := (app_next (so_mem s))(t := None)\<rparr>)"
  shows "app_list m (so_list s) (so_tail s) ys" and "same_rest X m0 m"
proof -
  obtain us t where ys: "ys = us @ [t]" using assms(2) by (cases ys rule: rev_cases) auto
  have t: "so_tail s = Some t" using assms(1) by (simp add: built_def ys)
  show "app_list m (so_list s) (so_tail s) ys" using assms(1) by (auto simp: built_def app_list_def ys m t)
  show "same_rest X m0 m" using assms(1) by (auto simp: built_def same_rest_def ys m t)
qed

lemma sort_loop_ok:
  assumes "compares cmpfcn c" and "set xs \<subseteq> X" and "length xs < 2 ^ 32" and "length xs < n"
  shows "path (app_next m) lst ys None \<Longrightarrow> distinct ys \<Longrightarrow> mset ys = mset xs \<Longrightarrow> same_rest X m0 m \<Longrightarrow>
    Sorting_Algorithms.sort c ys = Sorting_Algorithms.sort c xs \<Longrightarrow> runs c (unat insize) ys \<Longrightarrow> insize \<noteq> 0 \<Longrightarrow>
    ys \<noteq> [] \<Longrightarrow> 0 < fuel \<Longrightarrow> length ys \<le> unat insize * 2 ^ fuel \<Longrightarrow>
    \<exists>m' lst' last_one. sort_loop fuel n cmpfcn insize m lst = Inr (m', lst', last_one)
      \<and> app_list m' lst' last_one (Sorting_Algorithms.sort c xs) \<and> same_rest X m0 m'"
proof (induction fuel arbitrary: m lst ys insize)
  case (Suc fuel)
  let ?k = "unat insize"
  let ?s = "\<lparr>so_mem = m, so_p = lst, so_q = None, so_psize = 0, so_qsize = 0, so_list = None, so_tail = None\<rparr>"
  have k: "0 < ?k" using Suc.prems(7) by (simp add: unat_gt_0)
  have set: "set ys = set xs" and len: "length ys = length xs"
    using Suc.prems(3) by (metis set_mset_mset, metis size_mset)
  have "passing X m0 ?s [] ys"
    using Suc.prems(1,2,4) assms(2) set by (simp add: passing_def built_def)
  then obtain s where s: "merge_pass n cmpfcn insize 0 ?s = Inr (of_nat (merges ?k ys), s)" "built X m0 s (pass c ?k ys)"
    using merge_pass_ok [OF assms(1) Suc.prems(7) refl, of X m0 ?s "[]" ys n 0] assms(4) len by auto
  let ?m = "case so_tail s of None \<Rightarrow> so_mem s | Some t \<Rightarrow> (so_mem s)\<lparr>app_next := (app_next (so_mem s))(t := None)\<rparr>"
  have ne: "pass c ?k ys \<noteq> []" using Suc.prems(8) pass_length [of c ?k ys] by (metis length_0_conv)
  note closed = built_closed [OF s(2) ne refl]
  have "merges ?k ys < 2 ^ 32" using merges_le [of ?k ys] len assms(3) by linarith
  then have "unat (of_nat (merges ?k ys) :: 32 word) = merges ?k ys" by (simp add: unat_of_nat)
  then have one: "(of_nat (merges ?k ys) :: 32 word) \<le> 1 \<longleftrightarrow> length ys \<le> ?k + ?k"
    using merges_one [OF k, of ys] by (simp add: word_le_nat_alt)
  show ?case
  proof (cases "length ys \<le> ?k + ?k")
    case True
    then have "Sorting_Algorithms.sort c xs = pass c ?k ys" using last_pass Suc.prems(5,6) by metis
    then show ?thesis using True one closed s(1) by (simp add: Let_def)
  next
    case False
    have "2 * ?k < 2 ^ 32" using False len assms(3) by linarith
    then have k2: "unat (insize * 2) = ?k + ?k" by (simp add: unat_word_ariths)
    have "insize * 2 \<noteq> 0" using k2 k by (metis add_gr_0 less_numeral_extra(3) unat_0)
    moreover have "path (app_next ?m) (so_list s) (pass c ?k ys) None" "distinct (pass c ?k ys)"
      using closed(1) unfolding app_list_def by blast+
    moreover have "runs c (unat (insize * 2)) (pass c ?k ys)" unfolding k2 by (rule pass_runs [OF Suc.prems(6)])
    moreover have "length (pass c ?k ys) \<le> unat (insize * 2) * 2 ^ fuel" unfolding k2 using Suc.prems(10) by (simp add: algebra_simps)
    moreover have "0 < fuel" using False Suc.prems(10) by (cases fuel) simp_all
    ultimately obtain m' lst' last_one where
      "sort_loop fuel n cmpfcn (insize * 2) ?m (so_list s) = Inr (m', lst', last_one)"
      "app_list m' lst' last_one (Sorting_Algorithms.sort c xs)" "same_rest X m0 m'"
      using Suc.IH [of ?m "so_list s" "pass c ?k ys" "insize * 2"] closed(2) ne Suc.prems(3,5)
        sort_pass [OF Suc.prems(6)] by (auto simp: pass_mset)
    then show ?thesis using False one s(1) by (simp add: Let_def)
  qed
qed simp

text \<open>C19: \<open>HASH_SRT\<close> ends and leaves the elements linked, forwards and backwards, in the order of the
  stable sort by the comparison function: equal elements keep their order. The head and the tail of
  the table are the first and the last of them; buckets, keys and hash values are untouched.\<close>

theorem HASH_SRT_sorts:
  assumes "app_list (lmem u) (lhead u) (ltail (ltbl u)) xs" and "compares cmpfcn c"
    and "length xs < 2 ^ 32" and "length xs < fuel"
  shows "\<exists>u'. HASH_SRT fuel cmpfcn u = Inr u'
    \<and> app_list (lmem u') (lhead u') (ltail (ltbl u')) (Sorting_Algorithms.sort c xs)
    \<and> same_rest (set xs) (lmem u) (lmem u') \<and> ltbl u' = (ltbl u)\<lparr>ltail := ltail (ltbl u')\<rparr>"
proof (cases xs)
  case Nil
  then have "lhead u = None" using assms(1) by (simp add: app_list_def)
  then show ?thesis using assms(1) Nil by (simp add: HASH_SRT_def same_rest_def)
next
  case (Cons x xs')
  have p: "path (app_next (lmem u)) (lhead u) xs None" "distinct xs" using assms(1) by (simp_all add: app_list_def)
  have h: "lhead u = Some x" using p(1) Cons by simp
  have "length xs < 2 ^ length xs" by (rule less_exp)
  also have "\<dots> \<le> 2 ^ fuel" using assms(4) by (intro power_increasing) simp_all
  finally have f: "length xs \<le> unat (1 :: 32 word) * 2 ^ fuel" by simp
  have same: "same_rest (set xs) (lmem u) (lmem u)" by (simp add: same_rest_def)
  have ne: "xs \<noteq> []" "0 < fuel" using Cons assms(4) by simp_all
  have one: "runs c (unat (1 :: 32 word)) xs" using runs_one by simp
  obtain m' lst' last_one where r: "sort_loop fuel fuel cmpfcn 1 (lmem u) (lhead u) = Inr (m', lst', last_one)"
    "app_list m' lst' last_one (Sorting_Algorithms.sort c xs)" "same_rest (set xs) (lmem u) m'"
    using sort_loop_ok [OF assms(2) subset_refl assms(3,4) p refl same refl one one_neq_zero ne f] by blast
  have "Sorting_Algorithms.sort c xs \<noteq> []" using ne(1) by (metis Sorting_Algorithms.set_sort set_empty)
  then obtain y ys where "Sorting_Algorithms.sort c xs = y # ys" by (cases "Sorting_Algorithms.sort c xs") auto
  then have "lst' = Some y" using r(2) by (simp add: app_list_def)
  then show ?thesis using r h by (simp add: HASH_SRT_def)
qed

definition by_parity :: "nat comparator" where
  "by_parity = Comparator.key (\<lambda>a. a mod 2) default"

definition demo_sort :: uhash where
  "demo_sort = \<lparr>lhead = Some 3, ltbl = \<lparr>lbuckets = [], lnum_buckets = 32, llog2_num_buckets = 5, lnum_items = 3,
       ltail = Some 5, lideal = 0, lnonideal = 0, lineff = 0, lnoexpand = 0\<rparr>,
     lmem = \<lparr>app_prev = (\<lambda>_. None)(4 := Some 3, 5 := Some 4), app_next = (\<lambda>_. None)(3 := Some 4, 4 := Some 5),
       bkt_prev = \<lambda>_. None, bkt_next = \<lambda>_. None, el_key = \<lambda>_. [], el_hashv = \<lambda>_. 0\<rparr>\<rparr>"

theorem HASH_SRT_sorts_witness:
  "\<exists>u'. HASH_SRT 4 (\<lambda>a b. int (a mod 2) - int (b mod 2)) demo_sort = Inr u'
     \<and> app_list (lmem u') (lhead u') (ltail (ltbl u')) [4, 3, 5]"
proof -
  let ?cmp = "\<lambda>a b :: nat. int (a mod 2) - int (b mod 2)"
  have a: "app_list (lmem demo_sort) (lhead demo_sort) (ltail (ltbl demo_sort)) [3, 4, 5]"
    by (simp add: app_list_def demo_sort_def)
  have c: "compares ?cmp by_parity" by (auto simp: compares_def by_parity_def)
  have "Sorting_Algorithms.sort by_parity [3, 4, 5] = [4, 3, 5]" by (simp add: by_parity_def)
  then show ?thesis using HASH_SRT_sorts [OF a c, of 4] by auto
qed

end
