(* ===== verification/Uthash_Insert.thy ===== *)
theory Uthash_Insert
  imports Uthash_Table
begin

text \<open>
  Insertion into the linked hash table of uthash.h: an element is appended to the list and pushed into
  its bucket, and the buckets are doubled when one of them is full. The handles of the old chains are
  moved one by one while the chains are walked, so that \<open>relinked\<close> says which links are still old. With
  deletion and lookup this gives \<open>HASH_REPLACE\<close>.
\<close>

section \<open>Insertion is right\<close>

text \<open>Only links within the buckets have changed, and those forward only at \<open>X\<close>.\<close>

definition relinked :: "nat set \<Rightarrow> links \<Rightarrow> links \<Rightarrow> bool" where
  "relinked X m m' \<longleftrightarrow> (\<exists>N P. m' = m\<lparr>bkt_next := N, bkt_prev := P\<rparr> \<and> (\<forall>x. x \<notin> X \<longrightarrow> N x = bkt_next m x))"

lemma relinked_refl: "relinked X m m"
  unfolding relinked_def by (rule exI [of _ "bkt_next m"], rule exI [of _ "bkt_prev m"]) simp

lemma relinked_trans:
  assumes "relinked X m m'" and "relinked Y m' m''"
  shows "relinked (X \<union> Y) m m''"
proof -
  obtain N P where 1: "m' = m\<lparr>bkt_next := N, bkt_prev := P\<rparr>" "\<forall>x. x \<notin> X \<longrightarrow> N x = bkt_next m x"
    using assms(1) by (auto simp: relinked_def)
  obtain N' P' where 2: "m'' = m'\<lparr>bkt_next := N', bkt_prev := P'\<rparr>" "\<forall>x. x \<notin> Y \<longrightarrow> N' x = bkt_next m' x"
    using assms(2) by (auto simp: relinked_def)
  have "m'' = m\<lparr>bkt_next := N', bkt_prev := P'\<rparr>" by (simp add: 1(1) 2(1))
  moreover have "\<forall>x. x \<notin> X \<union> Y \<longrightarrow> N' x = bkt_next m x" using 1 2(2) by simp
  ultimately show ?thesis unfolding relinked_def by blast
qed

lemma relinked_fields:
  "relinked X m m' \<Longrightarrow> app_next m' = app_next m \<and> app_prev m' = app_prev m \<and> el_key m' = el_key m
     \<and> el_hashv m' = el_hashv m"
  by (auto simp: relinked_def)

lemma relinked_path:
  "relinked X m m' \<Longrightarrow> path (bkt_next m) p as q \<Longrightarrow> set as \<inter> X = {} \<Longrightarrow> path (bkt_next m') p as q"
  by (erule path_cong) (auto simp: relinked_def)

lemma push_at_ok:
  assumes "bucket_list m b as" and "a \<notin> set as" and "hh_head b1 = hh_head b" and "lcount b1 = lcount b + 1"
  obtains m' b' where "push_at m b1 a = (m', b')" "bucket_list m' b' (a # as)" "relinked {a} m m'"
    "\<forall>x. x \<notin> set (a # as) \<longrightarrow> bkt_prev m' x = bkt_prev m x"
    "lcount b' = lcount b1" "lexpand_mult b' = lexpand_mult b1"
proof -
  let ?N = "(bkt_next m)(a := hh_head b)"
  let ?P = "case hh_head b of None \<Rightarrow> (bkt_prev m)(a := None) | Some f \<Rightarrow> (bkt_prev m)(a := None, f := Some a)"
  have run: "push_at m b1 a = (m\<lparr>bkt_next := ?N, bkt_prev := ?P\<rparr>, b1\<lparr>hh_head := Some a\<rparr>)"
    by (simp add: push_at_def Let_def assms(3) split: option.split)
  have l: "path (bkt_next m) (hh_head b) as None" "backs (bkt_prev m) None as" "distinct as"
    using assms(1) by (simp_all add: bucket_list_def)
  have P: "backs ?P (Some a) as" "?P a = None" "\<forall>x. x \<notin> set (a # as) \<longrightarrow> ?P x = bkt_prev m x"
    using l assms(2) by (cases as; auto)+
  show ?thesis
  proof (rule that [OF run])
    show "bucket_list (m\<lparr>bkt_next := ?N, bkt_prev := ?P\<rparr>) (b1\<lparr>hh_head := Some a\<rparr>) (a # as)"
      using l P(1,2) assms by (simp add: bucket_list_def)
    show "relinked {a} m (m\<lparr>bkt_next := ?N, bkt_prev := ?P\<rparr>)"
      unfolding relinked_def by (rule exI [of _ ?N], rule exI [of _ ?P]) simp
  qed (use P(3) in simp_all)
qed

text \<open>One more element in the buckets.\<close>

lemma lspread_push:
  assumes "lspread m n X bs C" and "a \<notin> X" and "i = lhome m n a"
    and "hh_head b1 = hh_head (bs ! i)" and "lcount b1 = lcount (bs ! i) + 1"
  obtains m' b' C' where "push_at m b1 a = (m', b')" "lspread m' n (insert a X) (bs[i := b']) C'"
    "relinked {a} m m'" "lcount b' = lcount b1" "lexpand_mult b' = lexpand_mult b1"
proof -
  have i: "i < 2 ^ n" using assms(3) by simp
  note c = lspread_chain(1,2) [OF assms(1) i]
  have "a \<notin> set (C i)" using c(2) assms(2) by simp
  then obtain m' b' where p: "push_at m b1 a = (m', b')" "bucket_list m' b' (a # C i)" "relinked {a} m m'"
    "\<forall>x. x \<notin> set (a # C i) \<longrightarrow> bkt_prev m' x = bkt_prev m x" "lcount b' = lcount b1"
    "lexpand_mult b' = lexpand_mult b1"
    using push_at_ok [OF c(1) _ assms(4,5)] by metis
  have "lspread m' n (insert a X) (bs[i := b']) (C(i := a # C i))"
  proof (rule lspread_change [OF assms(1) i p(2)])
    show "el_hashv m' = el_hashv m" using relinked_fields [OF p(3)] by simp
    show "set (a # C i) = {x \<in> insert a X. lhome m n x = i}" using c(2) assms(3) by auto
    show "\<forall>x. lhome m n x \<noteq> i \<longrightarrow> (x \<in> insert a X \<longleftrightarrow> x \<in> X)" using assms(3) by auto
    show "\<forall>x. x \<in> X \<and> lhome m n x \<noteq> i \<longrightarrow> bkt_next m' x = bkt_next m x \<and> bkt_prev m' x = bkt_prev m x"
    proof (intro allI impI, elim conjE)
      fix x assume x: "x \<in> X" "lhome m n x \<noteq> i"
      then have "x \<notin> set (a # C i)" using c(2) assms(2) by auto
      then show "bkt_next m' x = bkt_next m x \<and> bkt_prev m' x = bkt_prev m x"
        using p(3,4) by (auto simp: relinked_def)
    qed
  qed
  with p(1,3,5,6) show ?thesis by (intro that)
qed

lemma move_at_ok:
  assumes "lspread m n X new C" and "a \<notin> X" and "ideal \<noteq> 0"
  shows "\<exists>m' new' nonideal' C'. move_at (2 ^ n) ideal a (m, new, nonideal) = Inr (m', new', nonideal')
     \<and> lspread m' n (insert a X) new' C' \<and> relinked {a} m m'"
proof -
  let ?i = "lhome m n a"
  have i: "?i < length new" using lspread_chain(3) [OF assms(1)] by simp
  have bkt: "unat (HASH_TO_BKT (el_hashv m a) (2 ^ n)) = ?i" by (simp add: to_bkt_home lhome_def)
  let ?c = "lcount (new ! ?i) + 1"
  let ?b = "(new ! ?i)\<lparr>lcount := ?c\<rparr>"
  let ?b1 = "if ?c > ideal then ?b\<lparr>lexpand_mult := ?c div ideal\<rparr> else ?b"
  obtain m' b' C' where p: "push_at m ?b1 a = (m', b')" "lspread m' n (insert a X) (new[?i := b']) C'"
    "relinked {a} m m'"
    by (rule lspread_push [OF assms(1,2) refl, of ?b1]) auto
  have "move_at (2 ^ n) ideal a (m, new, nonideal) = Inr (m', new[?i := b'], if ?c > ideal then nonideal + 1 else nonideal)"
    using p(1) i assms(3) by (auto simp: move_at_def bkt Let_def)
  with p(2,3) show ?thesis by blast
qed

lemma move_chain_at_ok:
  assumes "lspread m n X new C" and "path (bkt_next m) p as None" and "set as \<inter> X = {}" and "distinct as"
    and "length as < fuel" and "ideal \<noteq> 0"
  shows "\<exists>m' new' nonideal' C'. move_chain_at fuel (2 ^ n) ideal p (m, new, nonideal) = Inr (m', new', nonideal')
     \<and> lspread m' n (set as \<union> X) new' C' \<and> relinked (set as) m m'"
  using assms(1-5)
proof (induction as arbitrary: m X new nonideal C p fuel)
  case Nil
  then obtain f where "fuel = Suc f" by (cases fuel) auto
  with Nil show ?case using relinked_refl by auto
next
  case (Cons a as)
  then obtain f where f: "fuel = Suc f" by (cases fuel) auto
  have p: "p = Some a" "path (bkt_next m) (bkt_next m a) as None" using Cons.prems(2) by simp_all
  obtain m1 new1 ni1 C1 where one: "move_at (2 ^ n) ideal a (m, new, nonideal) = Inr (m1, new1, ni1)"
    "lspread m1 n (insert a X) new1 C1" "relinked {a} m m1"
    using move_at_ok [OF Cons.prems(1) _ assms(6), of a nonideal] Cons.prems(3) by auto
  have "path (bkt_next m1) (bkt_next m a) as None"
    using relinked_path [OF one(3) p(2)] Cons.prems(4) by simp
  then obtain m2 new2 ni2 C2 where
    two: "move_chain_at f (2 ^ n) ideal (bkt_next m a) (m1, new1, ni1) = Inr (m2, new2, ni2)"
      "lspread m2 n (set as \<union> insert a X) new2 C2" "relinked (set as) m1 m2"
    using Cons.IH [OF one(2), of "bkt_next m a" f ni1] Cons.prems(3-5) f by auto
  have "relinked (set (a # as)) m m2" using relinked_trans [OF one(3) two(3)] by simp
  with one(1) two(1,2) show ?case by (auto simp: f p(1))
qed

lemma move_buckets_at_ok:
  assumes "lspread m n X new C"
    and "\<forall>i < length bs. path (bkt_next m) (hh_head (bs ! i)) (D i) None \<and> distinct (D i)
      \<and> length (D i) < fuel \<and> set (D i) \<inter> X = {}"
    and "\<forall>i < length bs. \<forall>j < i. set (D i) \<inter> set (D j) = {}" and "ideal \<noteq> 0"
  shows "\<exists>m' new' nonideal' C'. move_buckets_at fuel (2 ^ n) ideal bs (m, new, nonideal) = Inr (m', new', nonideal')
     \<and> lspread m' n ((\<Union>i < length bs. set (D i)) \<union> X) new' C' \<and> relinked (\<Union>i < length bs. set (D i)) m m'"
  using assms(1-3)
proof (induction bs arbitrary: m X new nonideal C D)
  case Nil
  then show ?case using relinked_refl by auto
next
  case (Cons b bs)
  have b: "path (bkt_next m) (hh_head b) (D 0) None" "distinct (D 0)" "length (D 0) < fuel" "set (D 0) \<inter> X = {}"
    using Cons.prems(2) by auto
  obtain m1 new1 ni1 C1 where
    one: "move_chain_at fuel (2 ^ n) ideal (hh_head b) (m, new, nonideal) = Inr (m1, new1, ni1)"
      "lspread m1 n (set (D 0) \<union> X) new1 C1" "relinked (set (D 0)) m m1"
    using move_chain_at_ok [OF Cons.prems(1) b(1,4,2,3) assms(4), of nonideal] by blast
  have rest: "path (bkt_next m1) (hh_head (bs ! i)) (D (Suc i)) None \<and> distinct (D (Suc i))
      \<and> length (D (Suc i)) < fuel \<and> set (D (Suc i)) \<inter> (set (D 0) \<union> X) = {}" if "i < length bs" for i
  proof -
    have i: "path (bkt_next m) (hh_head (bs ! i)) (D (Suc i)) None" "distinct (D (Suc i))"
      "length (D (Suc i)) < fuel" "set (D (Suc i)) \<inter> X = {}"
      using Cons.prems(2) [rule_format, of "Suc i"] that by simp_all
    have d: "set (D (Suc i)) \<inter> set (D 0) = {}" using Cons.prems(3) [rule_format, of "Suc i" 0] that by simp
    show ?thesis using relinked_path [OF one(3) i(1) d] i d by blast
  qed
  have apart: "\<forall>i < length bs. \<forall>j < i. set (D (Suc i)) \<inter> set (D (Suc j)) = {}"
    using Cons.prems(3) by (metis Suc_less_eq length_Cons)
  obtain m2 new2 ni2 C2 where two: "move_buckets_at fuel (2 ^ n) ideal bs (m1, new1, ni1) = Inr (m2, new2, ni2)"
      "lspread m2 n ((\<Union>i < length bs. set (D (Suc i))) \<union> (set (D 0) \<union> X)) new2 C2"
      "relinked (\<Union>i < length bs. set (D (Suc i))) m1 m2"
    using Cons.IH [OF one(2), of "\<lambda>i. D (Suc i)" ni1] rest apart by blast
  have un: "(\<Union>i < length (b # bs). set (D i)) = set (D 0) \<union> (\<Union>i < length bs. set (D (Suc i)))"
    by (simp add: lessThan_Suc_eq_insert_0)
  show ?case
    using one(1) two(1,2) relinked_trans [OF one(3) two(3)] unfolding un by (auto simp: Un_ac)
qed

lemma lspread_empty: "lspread m n {} (replicate (2 ^ n) lempty) (\<lambda>_. [])"
  by (simp add: lspread_def bucket_list_def lempty_def)

text \<open>The buckets are doubled.\<close>

lemma EXPAND_at_ok:
  assumes "lspread m n (set xs) (lbuckets t) C" and "lnum_buckets t = 2 ^ n" and "llog2_num_buckets t = of_nat n"
    and "n < 31" and "lnum_items t \<noteq> 0" and "distinct xs" and "length xs < fuel"
  shows "\<exists>m' t' C'. EXPAND_at fuel m t = Inr (m', t') \<and> lspread m' (n + 1) (set xs) (lbuckets t') C'
     \<and> lnum_buckets t' = 2 ^ (n + 1) \<and> llog2_num_buckets t' = of_nat (n + 1) \<and> lnum_items t' = lnum_items t
     \<and> ltail t' = ltail t \<and> relinked (set xs) m m'"
proof -
  define ideal where "ideal = drop_bit (n + 1) (lnum_items t)
    + (if and (lnum_items t) (2 ^ (n + 1) - 1) \<noteq> 0 then 1 else 0)"
  have lg: "unat (llog2_num_buckets t + 1) = n + 1"
    using small_nat [of "n + 1"] assms(3,4) by (simp only: of_nat_add of_nat_1)
  have nb: "lnum_buckets t * 2 = 2 ^ (n + 1)" "unat (2 ^ (n + 1) :: 32 word) = 2 ^ (n + 1)"
    using assms(2,4) small_power [of "n + 1"] by simp_all
  have ideal: "ideal \<noteq> 0" unfolding ideal_def using assms(5) by (rule ideal_nonzero)
  have len: "length (lbuckets t) = 2 ^ n" by (rule lspread_chain(3) [OF assms(1)])
  have "(\<Union>i < 2 ^ n. set (C i)) = set xs" using lspread_chain(2) [OF assms(1)] by auto
  then have un: "(\<Union>i < length (lbuckets t). set (C i)) = set xs" by (simp add: len)
  have old: "\<forall>i < length (lbuckets t). path (bkt_next m) (hh_head (lbuckets t ! i)) (C i) None \<and> distinct (C i)
      \<and> length (C i) < fuel \<and> set (C i) \<inter> {} = {}"
  proof (intro allI impI)
    fix i assume "i < length (lbuckets t)"
    then have i: "i < 2 ^ n" by (simp add: len)
    show "path (bkt_next m) (hh_head (lbuckets t ! i)) (C i) None \<and> distinct (C i) \<and> length (C i) < fuel
        \<and> set (C i) \<inter> {} = {}"
      using lspread_chain(1) [OF assms(1) i] chain_length [OF assms(1) i assms(6)] assms(7)
      by (simp add: bucket_list_def)
  qed
  have apart: "\<forall>i < length (lbuckets t). \<forall>j < i. set (C i) \<inter> set (C j) = {}"
    using lspread_chain(2) [OF assms(1)] by (auto simp: len)
  obtain m' new nonideal C' where
    mv: "move_buckets_at fuel (2 ^ (n + 1)) ideal (lbuckets t) (m, replicate (2 ^ (n + 1)) lempty, 0)
        = Inr (m', new, nonideal)" "lspread m' (n + 1) (set xs) new C'" "relinked (set xs) m m'"
    using move_buckets_at_ok [OF lspread_empty [of m "n + 1"] old apart ideal, of 0]
    unfolding un by auto
  then show ?thesis
    using assms(3) unfolding EXPAND_at_def Let_def lg nb ideal_def [symmetric] by auto
qed

text \<open>A doubling divides by the number of items, which is not zero unless the buckets are new.\<close>

lemma ADD_TO_BKT_at_ok:
  assumes "lspread m n (set xs) (lbuckets t) C" and "lnum_buckets t = 2 ^ n" and "llog2_num_buckets t = of_nat n"
    and "n < 31" and "lnum_items t \<noteq> 0 \<or> (\<forall>b \<in> set (lbuckets t). b = lempty)" and "distinct (xs @ [a])" and "length xs + 1 < fuel"
  shows "\<exists>m' t' k C'. ADD_TO_BKT_at fuel m t (lhome m n a) a = Inr (m', t') \<and> k < 32
     \<and> lspread m' k (set (xs @ [a])) (lbuckets t') C' \<and> lnum_buckets t' = 2 ^ k \<and> llog2_num_buckets t' = of_nat k
     \<and> lnum_items t' = lnum_items t \<and> ltail t' = ltail t \<and> relinked (set (xs @ [a])) m m'"
proof -
  let ?i = "lhome m n a"
  let ?b = "lbuckets t ! ?i"
  have i: "?i < length (lbuckets t)" using lspread_chain(3) [OF assms(1)] by simp
  obtain m1 b1 C1 where p: "push_at m (?b\<lparr>lcount := lcount ?b + 1\<rparr>) a = (m1, b1)"
    "lspread m1 n (insert a (set xs)) ((lbuckets t)[?i := b1]) C1" "relinked {a} m m1"
    "lcount b1 = lcount ?b + 1" "lexpand_mult b1 = lexpand_mult ?b"
    by (rule lspread_push [OF assms(1) _ refl, of a "?b\<lparr>lcount := lcount ?b + 1\<rparr>"]) (use assms(6) in auto)
  let ?t = "t\<lparr>lbuckets := (lbuckets t)[?i := b1]\<rparr>"
  have sp: "lspread m1 n (set (xs @ [a])) (lbuckets ?t) C1" using p(2) by simp
  show ?thesis
  proof (cases "lcount b1 \<ge> (lexpand_mult b1 + 1) * 10 \<and> lnoexpand ?t \<noteq> 1")
    case True
    have "?b \<noteq> lempty" using True p(4,5) by (auto simp: lempty_def word_le_nat_alt)
    then have nz: "lnum_items t \<noteq> 0" using assms(5) i by auto
    have run: "ADD_TO_BKT_at fuel m t ?i a = EXPAND_at fuel m1 ?t"
      using True i p(1) by (simp add: ADD_TO_BKT_at_def Let_def)
    obtain m' t' C' where "EXPAND_at fuel m1 ?t = Inr (m', t')" "lspread m' (n + 1) (set (xs @ [a])) (lbuckets t') C'"
      "lnum_buckets t' = 2 ^ (n + 1)" "llog2_num_buckets t' = of_nat (n + 1)" "lnum_items t' = lnum_items ?t"
      "ltail t' = ltail ?t" "relinked (set (xs @ [a])) m1 m'"
      using EXPAND_at_ok [OF sp _ _ assms(4) _ assms(6), of fuel] assms(2,3,7) nz by auto
    moreover have "relinked (set (xs @ [a])) m m'"
      using relinked_trans [OF p(3) calculation(7)] by (simp add: insert_absorb)
    ultimately show ?thesis using run assms(4)
      by (intro exI [of _ m'] exI [of _ t'] exI [of _ "n + 1"] exI [of _ C']) simp
  next
    case False
    then have run: "ADD_TO_BKT_at fuel m t ?i a = Inr (m1, ?t)"
      using i p(1) by (auto simp: ADD_TO_BKT_at_def Let_def)
    have "relinked (set (xs @ [a])) m m1" using p(3) by (auto simp: relinked_def)
    then show ?thesis using run sp assms(2-4)
      by (intro exI [of _ m1] exI [of _ ?t] exI [of _ n] exI [of _ C1]) simp
  qed
qed

text \<open>The number of elements and of buckets can grow.\<close>

definition lroom :: "uhash \<Rightarrow> nat list \<Rightarrow> bool" where
  "lroom u xs \<longleftrightarrow> length xs + 1 < 2 ^ 32 \<and> (xs = [] \<or> lnum_buckets (ltbl u) < 2 ^ 31)"

text \<open>The element is appended in the order of the application.\<close>

lemma app_add:
  assumes "app_list m p (Some t) (ys @ [t])" and "a \<notin> set (ys @ [t])"
    and "app_next m' = (app_next m)(a := None, t := Some a)" and "app_prev m' = (app_prev m)(a := Some t)"
  shows "app_list m' p (Some a) ((ys @ [t]) @ [a])"
  using assms by (auto simp: app_list_def)

text \<open>What holds between the two halves of the insertion.\<close>

lemma APPEND_at_ok:
  assumes "table_ok u xs" and "lroom u xs" and "a \<notin> set xs"
  obtains u1 n C where "APPEND_at u k a = Inr u1"
    "n < 31" "lnum_buckets (ltbl u1) = 2 ^ n" "llog2_num_buckets (ltbl u1) = of_nat n"
    "app_list (lmem u1) (lhead u1) (ltail (ltbl u1)) (xs @ [a])" "lnum_items (ltbl u1) = of_nat (length xs)"
    "\<forall>x \<in> set xs. lelem_ok (lmem u1) x" "distinct (map (el_key (lmem u1)) xs)"
    "lspread (lmem u1) n (set xs) (lbuckets (ltbl u1)) C" "el_key (lmem u1) = (el_key (lmem u))(a := k)"
proof (cases xs rule: rev_cases)
  case Nil
  let ?u = "u\<lparr>lhead := Some a, ltbl := MAKE_TABLE_at a, lmem := (lmem u)\<lparr>app_next := (app_next (lmem u))(a := None),
    el_key := (el_key (lmem u))(a := k), app_prev := (app_prev (lmem u))(a := None)\<rparr>\<rparr>"
  have "lhead u = None" using assms(1) Nil by (simp add: table_ok_def)
  then have "APPEND_at u k a = Inr ?u" by (simp add: APPEND_at_def Let_def)
  then show ?thesis
    by (rule that [of _ 5 "\<lambda>_. []"]) (use lspread_empty [of _ 5] Nil in \<open>simp_all add: MAKE_TABLE_at_def app_list_def\<close>)
next
  case (snoc ys t)
  then obtain n C where ok: "n < 32" "lnum_buckets (ltbl u) = 2 ^ n" "llog2_num_buckets (ltbl u) = of_nat n"
    "app_list (lmem u) (lhead u) (ltail (ltbl u)) xs" "lnum_items (ltbl u) = of_nat (length xs)"
    "\<forall>x \<in> set xs. lelem_ok (lmem u) x" "distinct (map (el_key (lmem u)) xs)"
    "lspread (lmem u) n (set xs) (lbuckets (ltbl u)) C"
    using assms(1) unfolding table_ok_def by auto
  have "n \<noteq> 31" using assms(2) ok(2) snoc by (auto simp: lroom_def)
  then have n: "n < 31" using ok(1) by simp
  have t: "ltail (ltbl u) = Some t" using ok(4) snoc by (simp add: app_list_def)
  obtain f where f: "lhead u = Some f" using ok(4) snoc by (cases ys) (auto simp: app_list_def)
  let ?u = "u\<lparr>ltbl := (ltbl u)\<lparr>ltail := Some a\<rparr>, lmem := (lmem u)\<lparr>app_next := (app_next (lmem u))(a := None, t := Some a),
    el_key := (el_key (lmem u))(a := k), app_prev := (app_prev (lmem u))(a := Some t)\<rparr>\<rparr>"
  have run: "APPEND_at u k a = Inr ?u" by (simp add: APPEND_at_def Let_def f t)
  have app: "app_list (lmem ?u) (lhead ?u) (ltail (ltbl ?u)) (xs @ [a])"
    using app_add [of "lmem u" "lhead u" t ys a "lmem ?u"] ok(4) assms(3) snoc t by simp
  have keys: "distinct (map (el_key (lmem ?u)) xs)" using ok(7) assms(3) by simp
  have el: "\<forall>x \<in> set xs. lelem_ok (lmem ?u) x" using ok(6) assms(3) by (auto simp: lelem_ok_def)
  have sp: "lspread (lmem ?u) n (set xs) (lbuckets (ltbl ?u)) C"
    using ok(8) by (simp add: lspread_def lhome_def bucket_list_def)
  show ?thesis
    by (rule that [OF run, of n C], use n ok(2,3,5) app el keys sp in simp_all)
qed

lemma HASH_ADD_at_appends:
  assumes "table_ok u xs" and "lroom u xs" and "a \<notin> set xs" and "k \<notin> el_key (lmem u) ` set xs"
    and "length k < 2 ^ 32" and "length xs + 1 < fuel"
  shows "\<exists>u'. HASH_ADD_at fuel u k a = Inr u' \<and> table_ok u' (xs @ [a])
     \<and> el_key (lmem u') = (el_key (lmem u))(a := k)"
proof -
  obtain u1 n C where u1: "APPEND_at u k a = Inr u1"
    "n < 31" "lnum_buckets (ltbl u1) = 2 ^ n" "llog2_num_buckets (ltbl u1) = of_nat n"
    "app_list (lmem u1) (lhead u1) (ltail (ltbl u1)) (xs @ [a])" "lnum_items (ltbl u1) = of_nat (length xs)"
    "\<forall>x \<in> set xs. lelem_ok (lmem u1) x" "distinct (map (el_key (lmem u1)) xs)"
    "lspread (lmem u1) n (set xs) (lbuckets (ltbl u1)) C" "el_key (lmem u1) = (el_key (lmem u))(a := k)"
    by (rule APPEND_at_ok [OF assms(1-3)])
  define t1 where "t1 = (ltbl u1)\<lparr>lnum_items := lnum_items (ltbl u1) + 1\<rparr>"
  define m1 where "m1 = (lmem u1)\<lparr>el_hashv := (el_hashv (lmem u1))(a := HASH_JEN k)\<rparr>"
  have len: "length xs + 1 < 2 ^ 32" using assms(2) by (simp add: lroom_def)
  have "unat (lnum_items t1) = length xs + 1"
    using len by (simp add: t1_def u1(6) unat_word_ariths unat_of_nat)
  then have nz: "lnum_items t1 \<noteq> 0" by auto
  have d: "distinct (xs @ [a])" using u1(5) by (simp add: app_list_def)
  have sp: "lspread m1 n (set xs) (lbuckets t1) C"
    using u1(9) assms(3) unfolding lspread_def m1_def t1_def by (auto simp: bucket_list_def lhome_def)
  have home: "unat (HASH_TO_BKT (HASH_JEN k) (lnum_buckets t1)) = lhome m1 n a"
    by (simp add: t1_def u1(3) to_bkt_home lhome_def m1_def)
  obtain m2 t2 l C2 where two: "ADD_TO_BKT_at fuel m1 t1 (lhome m1 n a) a = Inr (m2, t2)" "l < 32"
    "lspread m2 l (set (xs @ [a])) (lbuckets t2) C2" "lnum_buckets t2 = 2 ^ l" "llog2_num_buckets t2 = of_nat l"
    "lnum_items t2 = lnum_items t1" "ltail t2 = ltail t1" "relinked (set (xs @ [a])) m1 m2"
    using ADD_TO_BKT_at_ok [OF sp _ _ u1(2) disjI1 [OF nz] d assms(6)] u1(3,4) by (auto simp: t1_def)
  have run: "HASH_ADD_at fuel u k a = Inr (u1\<lparr>ltbl := t2, lmem := m2\<rparr>)"
    unfolding HASH_ADD_at_def Let_def u1(1) c_bind_simps t1_def [symmetric] m1_def [symmetric] home two(1) by simp
  have m2: "el_key m2 = (el_key (lmem u))(a := k)" "el_hashv m2 = (el_hashv (lmem u1))(a := HASH_JEN k)"
    "app_next m2 = app_next (lmem u1)" "app_prev m2 = app_prev (lmem u1)"
    using relinked_fields [OF two(8)] by (simp_all add: m1_def u1(10))
  have "\<forall>x \<in> set (xs @ [a]). lelem_ok m2 x"
    using u1(7) assms(5) by (auto simp: lelem_ok_def m2 u1(10))
  moreover have "distinct (map (el_key m2) (xs @ [a]))"
    using u1(8) assms(3,4) by (auto simp: m2 u1(10))
  moreover have "app_list m2 (lhead u1) (ltail t2) (xs @ [a])"
    using u1(5) by (simp add: app_list_def m2 two(7) t1_def)
  moreover have "lnum_items t2 = of_nat (length (xs @ [a]))" by (simp add: two(6) t1_def u1(6))
  ultimately have "table_ok (u1\<lparr>ltbl := t2, lmem := m2\<rparr>) (xs @ [a])"
    using two(2-5) len unfolding table_ok_def by auto
  with run m2(1) show ?thesis by simp
qed

text \<open>The list of the table after \<open>HASH_REPLACE\<close>: the old element with the key is gone, the new one is the last.\<close>

lemma distinct_key_split:
  assumes "distinct (map f (us @ a # vs))"
  shows "filter (\<lambda>x. f x \<noteq> f a) (us @ a # vs) = us @ vs" and "find (\<lambda>x. f x = f a) (us @ vs) = None"
proof -
  have "f a \<notin> f ` set us" "f a \<notin> f ` set vs" using assms by simp_all
  then have 1: "\<forall>x \<in> set us. f x \<noteq> f a" "\<forall>x \<in> set vs. f x \<noteq> f a" by (metis imageI)+
  then show "filter (\<lambda>x. f x \<noteq> f a) (us @ a # vs) = us @ vs" by (simp add: filter_id_conv)
  show "find (\<lambda>x. f x = f a) (us @ vs) = None" using 1 by (auto simp: find_None_iff)
qed

lemma find_skip: "\<not> P a \<Longrightarrow> find P (us @ a # vs) = find P (us @ vs)"
  by (induction us) auto

lemma find_replaced:
  assumes "a \<notin> set xs"
  shows "find (\<lambda>x. (f(a := k)) x = k') (filter (\<lambda>x. f x \<noteq> k) xs @ [a]) = (if k' = k then Some a else find (\<lambda>x. f x = k') xs)"
proof -
  have last: "find P (ys @ [a]) = Some a" if "\<forall>x \<in> set ys. \<not> P x" "P a" for P and ys :: "'a list"
    using that by (induction ys) auto
  show ?thesis
  proof (cases "k' = k")
    case True
    with assms show ?thesis by (subst last) auto
  next
    case False
    with assms show ?thesis by (induction xs) auto
  qed
qed

lemma table_ok_keys: "table_ok u xs \<Longrightarrow> distinct (map (el_key (lmem u)) xs)"
  by (auto simp: table_ok_def split: if_splits)

lemma HASH_REPLACE_ok:
  assumes "table_ok u xs" and "lroom u xs" and "a \<notin> set xs" and "length k < 2 ^ 32" and "length xs + 1 < fuel"
  shows "\<exists>u'. HASH_REPLACE fuel u k a = Inr (find (\<lambda>x. el_key (lmem u) x = k) xs, u')
     \<and> table_ok u' (filter (\<lambda>x. el_key (lmem u) x \<noteq> k) xs @ [a]) \<and> el_key (lmem u') = (el_key (lmem u))(a := k)"
proof -
  let ?key = "el_key (lmem u)"
  have look: "HASH_FIND_at fuel u k = Inr (find (\<lambda>x. ?key x = k) xs)"
    using HASH_FIND_at_find [OF assms(1,4)] assms(5) by simp
  show ?thesis
  proof (cases "find (\<lambda>x. ?key x = k) xs")
    case None
    then have new: "k \<notin> ?key ` set xs" by (auto simp: find_None_iff)
    then have "filter (\<lambda>x. ?key x \<noteq> k) xs = xs" by (auto simp: filter_id_conv)
    then show ?thesis
      using HASH_ADD_at_appends [OF assms(1-3) new assms(4,5)] look None by (auto simp: HASH_REPLACE_def)
  next
    case (Some old)
    then have "old \<in> set xs" and k: "?key old = k" by (auto simp: find_Some_iff)
    then obtain us vs where xs: "xs = us @ old # vs" by (metis split_list)
    have rest: "filter (\<lambda>x. ?key x \<noteq> k) xs = us @ vs"
      using distinct_key_split(1) [of ?key us old vs] table_ok_keys [OF assms(1)] by (simp add: xs k)
    obtain u1 where del: "HASH_DELETE u old = Inr u1" "table_ok u1 (us @ vs)" "el_key (lmem u1) = ?key"
      "lnum_buckets (ltbl u1) = lnum_buckets (ltbl u)"
      using HASH_DELETE_ok [of u us old vs] assms(1) xs by auto
    have room: "lroom u1 (us @ vs)" using assms(2) by (auto simp: lroom_def xs del(4))
    have new: "k \<notin> el_key (lmem u1) ` set (us @ vs)" by (auto simp: del(3) rest [symmetric])
    have a: "a \<notin> set (us @ vs)" "length (us @ vs) + 1 < fuel" using assms(3,5) by (auto simp: xs)
    obtain u2 where "HASH_ADD_at fuel u1 k a = Inr u2" "table_ok u2 ((us @ vs) @ [a])"
      "el_key (lmem u2) = (el_key (lmem u1))(a := k)"
      using HASH_ADD_at_appends [OF del(2) room a(1) new assms(4) a(2)] by auto
    then show ?thesis using look Some del(1,3) rest by (auto simp: HASH_REPLACE_def)
  qed
qed

section \<open>A small table\<close>

text \<open>Two elements are added to an empty table.\<close>

definition uh_none :: uhash where
  "uh_none = \<lparr>lhead = None, ltbl = MAKE_TABLE_at 0, lmem = \<lparr>app_prev = \<lambda>_. None, app_next = \<lambda>_. None,
     bkt_prev = \<lambda>_. None, bkt_next = \<lambda>_. None, el_key = \<lambda>_. [], el_hashv = \<lambda>_. 0\<rparr>\<rparr>"

definition uh_pair :: uhash where
  "uh_pair = (case c_bind (HASH_ADD_at 9 uh_none (ascii ''a'') 1) (\<lambda>u. HASH_ADD_at 9 u (ascii ''b'') 2) of
     Inr u \<Rightarrow> u | Inl _ \<Rightarrow> uh_none)"

lemma uh_pair_ok: "table_ok uh_pair [1, 2]" "el_key (lmem uh_pair) 1 = ascii ''a''" "el_key (lmem uh_pair) 2 = ascii ''b''"
proof -
  have none: "table_ok uh_none []" "lroom uh_none []" by (simp_all add: table_ok_def uh_none_def lroom_def)
  obtain u where u: "HASH_ADD_at 9 uh_none (ascii ''a'') 1 = Inr u" "table_ok u [1]"
    "el_key (lmem u) 1 = ascii ''a''"
    using HASH_ADD_at_appends [OF none, of 1 "ascii ''a''" 9] by (auto simp: ascii_def)
  have "(case HASH_ADD_at 9 uh_none (ascii ''a'') 1 of Inr u \<Rightarrow> lnum_buckets (ltbl u) = 32 | Inl _ \<Rightarrow> False)"
    by code_simp
  then have "lnum_buckets (ltbl u) = 32" unfolding u(1) by simp
  then have "lroom u [1]" by (simp add: lroom_def)
  then obtain v where v: "HASH_ADD_at 9 u (ascii ''b'') 2 = Inr v" "table_ok v [1, 2]"
    "el_key (lmem v) = (el_key (lmem u))(2 := ascii ''b'')"
    using HASH_ADD_at_appends [OF u(2), of 2 "ascii ''b''" 9] u(3) by (auto simp: ascii_def)
  then have "uh_pair = v" unfolding uh_pair_def u(1) by simp
  with v(2,3) u(3) show "table_ok uh_pair [1, 2]" "el_key (lmem uh_pair) 1 = ascii ''a''"
    "el_key (lmem uh_pair) 2 = ascii ''b''" by simp_all
qed

lemma uh_pair_room: "lroom uh_pair [1, 2]"
proof -
  have "lnum_buckets (ltbl uh_pair) = 32" by code_simp
  then show ?thesis by (simp add: lroom_def)
qed

section \<open>What the operations promise\<close>

text \<open>C18: \<open>HASH_DELETE\<close> of an element of a table in order takes it out of the list and out of its bucket
  and leaves a table in order with the other elements in their order, which passes the check; the key
  of the element is no longer found, and every other key is found as before.
\<close>

theorem HASH_DELETE_removes:
  assumes "table_ok u (us @ a # vs)" and "length (us @ a # vs) < fuel"
  shows "\<exists>u'. HASH_DELETE u a = Inr u' \<and> table_ok u' (us @ vs) \<and> HASH_FSCK fuel u' = Inr True
     \<and> HASH_COUNT u' = of_nat (length (us @ vs))
     \<and> (\<forall>k. length k < 2 ^ 32 \<longrightarrow>
          HASH_FIND_at fuel u' k = (if k = el_key (lmem u) a then Inr None else HASH_FIND_at fuel u k))"
proof -
  let ?key = "el_key (lmem u)"
  obtain u' where u': "HASH_DELETE u a = Inr u'" "table_ok u' (us @ vs)" "el_key (lmem u') = ?key"
    using HASH_DELETE_ok [OF assms(1)] by auto
  have fuel: "length (us @ vs) < fuel" using assms(2) by simp
  have d: "distinct (map ?key (us @ a # vs))" by (rule table_ok_keys [OF assms(1)])
  have "HASH_FIND_at fuel u' k = (if k = ?key a then Inr None else HASH_FIND_at fuel u k)" if "length k < 2 ^ 32" for k
  proof -
    have "find (\<lambda>x. ?key x = k) (us @ vs) = (if k = ?key a then None else find (\<lambda>x. ?key x = k) (us @ a # vs))"
      using distinct_key_split(2) [OF d] by (auto simp: find_skip)
    then show ?thesis
      using HASH_FIND_at_find [OF u'(2) that fuel] HASH_FIND_at_find [OF assms(1) that assms(2)] by (simp add: u'(3))
  qed
  with u'(1,2) HASH_FSCK_accepts [OF u'(2) fuel] HASH_COUNT_ok [OF u'(2)] show ?thesis by blast
qed

lemma HASH_DELETE_removes_witness:
  "\<exists>u'. HASH_DELETE uh_pair 1 = Inr u' \<and> table_ok u' [2] \<and> HASH_FSCK 9 u' = Inr True \<and> HASH_COUNT u' = 1
     \<and> HASH_FIND_at 9 u' (ascii ''a'') = Inr None"
proof -
  have "length (ascii ''a'') < 2 ^ 32" by (simp add: ascii_def)
  then show ?thesis
    using HASH_DELETE_removes [of uh_pair "[]" 1 "[2]" 9] uh_pair_ok by auto
qed

text \<open>C24: \<open>HASH_REPLACE\<close> returns the element that had the key and takes it out; the new element is the
  last of the list and the only one with its key, and the table is in order and passes the check.
\<close>

theorem HASH_REPLACE_replaces:
  assumes "table_ok u xs" and "lroom u xs" and "a \<notin> set xs" and "length k < 2 ^ 32" and "length xs + 1 < fuel"
  shows "\<exists>u'. HASH_REPLACE fuel u k a = Inr (find (\<lambda>x. el_key (lmem u) x = k) xs, u')
     \<and> table_ok u' (filter (\<lambda>x. el_key (lmem u) x \<noteq> k) xs @ [a]) \<and> HASH_FSCK fuel u' = Inr True
     \<and> (\<forall>k'. length k' < 2 ^ 32 \<longrightarrow>
          HASH_FIND_at fuel u' k' = (if k' = k then Inr (Some a) else HASH_FIND_at fuel u k'))"
proof -
  let ?key = "el_key (lmem u)"
  let ?ys = "filter (\<lambda>x. ?key x \<noteq> k) xs"
  obtain u' where u': "HASH_REPLACE fuel u k a = Inr (find (\<lambda>x. ?key x = k) xs, u')" "table_ok u' (?ys @ [a])"
    "el_key (lmem u') = ?key(a := k)"
    using HASH_REPLACE_ok [OF assms] by auto
  have "length ?ys \<le> length xs" by (rule length_filter_le)
  then have fuel: "length (?ys @ [a]) < fuel" "length xs < fuel"
    using assms(5) unfolding length_append list.size by linarith+
  have "HASH_FIND_at fuel u' k' = (if k' = k then Inr (Some a) else HASH_FIND_at fuel u k')" if "length k' < 2 ^ 32" for k'
  proof -
    have "find (\<lambda>x. (?key(a := k)) x = k') (?ys @ [a]) = (if k' = k then Some a else find (\<lambda>x. ?key x = k') xs)"
      by (rule find_replaced [OF assms(3)])
    then show ?thesis
      using HASH_FIND_at_find [OF u'(2) that fuel(1)] HASH_FIND_at_find [OF assms(1) that fuel(2)] by (simp add: u'(3))
  qed
  with u'(1,2) HASH_FSCK_accepts [OF u'(2) fuel(1)] show ?thesis by blast
qed

lemma HASH_REPLACE_replaces_witness:
  "\<exists>u'. HASH_REPLACE 9 uh_pair (ascii ''a'') 7 = Inr (Some 1, u') \<and> table_ok u' [2, 7]
     \<and> HASH_FIND_at 9 u' (ascii ''a'') = Inr (Some 7)"
proof -
  have k: "length (ascii ''a'') < 2 ^ 32" and ne: "ascii ''b'' \<noteq> ascii ''a''" by (simp_all add: ascii_def)
  show ?thesis
    using HASH_REPLACE_replaces [OF uh_pair_ok(1) uh_pair_room _ k, of 7 9] uh_pair_ok(2,3) k ne by auto
qed

end
