(* ===== verification/Uthash_Select.thy ===== *)
theory Uthash_Select
  imports Uthash_Insert "HOL-Library.Multiset"
begin

text \<open>
  \<open>HASH_SELECT\<close> of uthash.h: the elements of a table that satisfy a condition are added to another one
  through a second handle. The links of the two handles are two memories over the same addresses, so
  that the table that is read does not change. The elements are taken bucket by bucket; \<open>chained\<close> is
  that order. The macro never moves \<open>tail\<close> on: what follows from that is shown as well.
\<close>

section \<open>The code\<close>

text \<open>The second handle of \<open>a\<close>, which comes behind \<open>prv\<close>, and the table, which is made for the first element.\<close>

definition select_mem :: "links \<Rightarrow> nat \<Rightarrow> hptr \<Rightarrow> links \<Rightarrow> links" where
  "select_mem src a prv m =
     (let m = m\<lparr>el_key := (el_key m)(a := el_key src a), el_hashv := (el_hashv m)(a := el_hashv src a),
        app_prev := (app_prev m)(a := prv), app_next := (app_next m)(a := None)\<rparr>
      in case prv of None \<Rightarrow> m | Some l \<Rightarrow> m\<lparr>app_next := (app_next m)(l := Some a)\<rparr>)"

definition select_tbl :: "nat \<Rightarrow> uhash \<Rightarrow> uhash" where
  "select_tbl a dst = (if lhead dst = None then dst\<lparr>lhead := Some a, ltbl := MAKE_TABLE_at a\<rparr> else dst)"

definition select_elem :: "nat \<Rightarrow> links \<Rightarrow> nat \<Rightarrow> uhash \<times> hptr \<Rightarrow> (uhash \<times> hptr) cres" where
  "select_elem fuel src a st = (case st of (dst, prv) \<Rightarrow>
     let m = select_mem src a prv (lmem dst);
         dst = select_tbl a dst;
         bkt = unat (HASH_TO_BKT (el_hashv m a) (lnum_buckets (ltbl dst)))
     in c_bind (ADD_TO_BKT_at fuel m (ltbl dst) bkt a) (\<lambda>(m, t).
          Inr (dst\<lparr>ltbl := t\<lparr>lnum_items := lnum_items t + 1\<rparr>, lmem := m\<rparr>, Some a)))"

text \<open>The first number bounds the walk along the chain, the second the chains of the table that is filled.\<close>

fun select_chain :: "nat \<Rightarrow> nat \<Rightarrow> (nat \<Rightarrow> bool) \<Rightarrow> links \<Rightarrow> hptr \<Rightarrow> uhash \<times> hptr \<Rightarrow> (uhash \<times> hptr) cres" where
  "select_chain 0 fuel cond src hh st = Inl NoReturn"
| "select_chain (Suc steps) fuel cond src hh st =
     (case hh of None \<Rightarrow> Inr st
      | Some a \<Rightarrow> c_bind (if cond a then select_elem fuel src a st else Inr st)
          (select_chain steps fuel cond src (bkt_next src a)))"

fun select_buckets ::
  "nat \<Rightarrow> (nat \<Rightarrow> bool) \<Rightarrow> links \<Rightarrow> lbucket list \<Rightarrow> uhash \<times> hptr \<Rightarrow> (uhash \<times> hptr) cres" where
  "select_buckets fuel cond src [] st = Inr st"
| "select_buckets fuel cond src (b # bs) st =
     c_bind (select_chain fuel fuel cond src (hh_head b) st) (select_buckets fuel cond src bs)"

definition HASH_SELECT :: "nat \<Rightarrow> uhash \<Rightarrow> uhash \<Rightarrow> (nat \<Rightarrow> bool) \<Rightarrow> uhash cres" where
  "HASH_SELECT fuel dst src cond =
     (if lhead src = None then Inr dst
      else c_bind (select_buckets fuel cond (lmem src) (lbuckets (ltbl src)) (dst, None)) (\<lambda>(dst, _). Inr dst))"

section \<open>The elements in the order of the buckets\<close>

fun select_all :: "nat \<Rightarrow> links \<Rightarrow> nat list \<Rightarrow> uhash \<times> hptr \<Rightarrow> (uhash \<times> hptr) cres" where
  "select_all fuel src [] st = Inr st"
| "select_all fuel src (a # as) st = c_bind (select_elem fuel src a st) (select_all fuel src as)"

lemma select_all_append: "select_all fuel src (as @ bs) st = c_bind (select_all fuel src as st) (select_all fuel src bs)"
proof (induction as arbitrary: st)
  case (Cons a as)
  then have "select_all fuel src (as @ bs) = (\<lambda>st. c_bind (select_all fuel src as st) (select_all fuel src bs))" by blast
  then show ?case by (simp add: c_bind_assoc)
qed simp

lemma select_chain_all:
  "path (bkt_next src) hh as None \<Longrightarrow> length as < steps \<Longrightarrow>
    select_chain steps fuel cond src hh = select_all fuel src (filter cond as)"
proof (induction as arbitrary: hh steps)
  case Nil
  then show ?case by (cases steps) auto
next
  case (Cons a as)
  then obtain f where f: "steps = Suc f" by (cases steps) auto
  then have "select_chain f fuel cond src (bkt_next src a) = select_all fuel src (filter cond as)"
    using Cons by simp
  then show ?case using Cons.prems(1) f by (intro ext) simp
qed

lemma select_buckets_all:
  "list_all2 (chain_passes fuel src) bs D \<Longrightarrow>
    select_buckets fuel cond src bs = select_all fuel src (filter cond (concat D))"
proof (induction bs arbitrary: D)
  case (Cons b bs)
  then obtain as D' where D: "D = as # D'" "chain_passes fuel src b as" "list_all2 (chain_passes fuel src) bs D'"
    by (auto simp: list_all2_Cons1)
  then show ?case
    using Cons.IH [OF D(3)] select_chain_all [of src "hh_head b" as fuel fuel cond]
    by (intro ext) (simp add: chain_passes_def select_all_append)
qed auto

section \<open>The table that is filled\<close>

text \<open>The table has the elements \<open>ys\<close>, but \<open>tail\<close> is the first of them.\<close>

definition selected :: "links \<Rightarrow> uhash \<Rightarrow> nat list \<Rightarrow> bool" where
  "selected src u ys \<longleftrightarrow> (if ys = [] then lhead u = None
     else \<exists>n C. n < 32 \<and> lnum_buckets (ltbl u) = 2 ^ n \<and> llog2_num_buckets (ltbl u) = of_nat n
       \<and> app_list (lmem u) (lhead u) (end_of None ys) ys \<and> ltail (ltbl u) = Some (hd ys)
       \<and> lnum_items (ltbl u) = of_nat (length ys)
       \<and> (\<forall>a \<in> set ys. el_key (lmem u) a = el_key src a \<and> el_hashv (lmem u) a = el_hashv src a)
       \<and> lspread (lmem u) n (set ys) (lbuckets (ltbl u)) C)"

lemma select_mem_simps:
  assumes "a \<notin> set ys"
  shows "bkt_next (select_mem src a prv m) = bkt_next m" "bkt_prev (select_mem src a prv m) = bkt_prev m"
    "el_key (select_mem src a prv m) = (el_key m)(a := el_key src a)"
    "el_hashv (select_mem src a prv m) = (el_hashv m)(a := el_hashv src a)"
    "app_list m p (end_of None ys) ys \<Longrightarrow> ys \<noteq> [] \<Longrightarrow> app_list (select_mem src a (end_of None ys) m) p (Some a) (ys @ [a])"
    "app_list (select_mem src a None m) (Some a) (Some a) [a]"
proof -
  show "app_list (select_mem src a (end_of None ys) m) p (Some a) (ys @ [a])"
    if "app_list m p (end_of None ys) ys" "ys \<noteq> []"
  proof (cases ys rule: rev_cases)
    case (snoc zs t)
    with assms that(1) have "app_list (select_mem src a (Some t) m) p (Some a) ((zs @ [t]) @ [a])"
      by (intro app_add [of m]) (simp_all add: select_mem_def)
    with snoc show ?thesis by simp
  qed (use that(2) in simp)
  show "app_list (select_mem src a None m) (Some a) (Some a) [a]" by (simp add: select_mem_def app_list_def)
qed (simp_all add: select_mem_def Let_def split: option.split)

text \<open>One more element is selected.\<close>

lemma select_elem_ok:
  assumes "selected src u ys" and "a \<notin> set ys" and "ys = [] \<or> lnum_buckets (ltbl u) < 2 ^ 31"
    and "length ys + 1 < fuel" and "length ys + 1 < 2 ^ 32"
  shows "\<exists>u'. select_elem fuel src a (u, end_of None ys) = Inr (u', Some a) \<and> selected src u' (ys @ [a])"
proof -
  define u1 where "u1 = select_tbl a u"
  define m1 where "m1 = select_mem src a (end_of None ys) (lmem u)"
  obtain n C where 1: "n < 31" "lnum_buckets (ltbl u1) = 2 ^ n" "llog2_num_buckets (ltbl u1) = of_nat n"
    "app_list m1 (lhead u1) (Some a) (ys @ [a])" "ltail (ltbl u1) = Some (hd (ys @ [a]))"
    "lnum_items (ltbl u1) = of_nat (length ys)"
    "lnum_items (ltbl u1) \<noteq> 0 \<or> (\<forall>b \<in> set (lbuckets (ltbl u1)). b = lempty)"
    "\<forall>x \<in> set (ys @ [a]). el_key m1 x = el_key src x \<and> el_hashv m1 x = el_hashv src x"
    "lspread m1 n (set ys) (lbuckets (ltbl u1)) C"
  proof (cases "ys = []")
    case True
    then have u1: "u1 = u\<lparr>lhead := Some a, ltbl := MAKE_TABLE_at a\<rparr>"
      using assms(1) by (simp add: selected_def u1_def select_tbl_def)
    show ?thesis
      by (rule that [of 5 "\<lambda>_. []"])
        (use lspread_empty [of m1 5] select_mem_simps [OF assms(2)] True in
          \<open>simp_all add: u1 m1_def MAKE_TABLE_at_def\<close>)
  next
    case False
    then obtain n C where ok: "n < 32" "lnum_buckets (ltbl u) = 2 ^ n" "llog2_num_buckets (ltbl u) = of_nat n"
      "app_list (lmem u) (lhead u) (end_of None ys) ys" "ltail (ltbl u) = Some (hd ys)"
      "lnum_items (ltbl u) = of_nat (length ys)"
      "\<forall>a \<in> set ys. el_key (lmem u) a = el_key src a \<and> el_hashv (lmem u) a = el_hashv src a"
      "lspread (lmem u) n (set ys) (lbuckets (ltbl u)) C"
      using assms(1) unfolding selected_def by auto
    obtain f where "lhead u = Some f" using ok(4) False by (cases ys) (auto simp: app_list_def)
    then have u1: "u1 = u" by (simp add: u1_def select_tbl_def)
    have "n \<noteq> 31" using assms(3) ok(2) False by auto
    then have n: "n < 31" using ok(1) by simp
    have "unat (lnum_items (ltbl u)) = length ys" using assms(5) by (simp add: ok(6) unat_of_nat)
    then have nz: "lnum_items (ltbl u) \<noteq> 0" using False by auto
    have sp: "lspread m1 n (set ys) (lbuckets (ltbl u)) C"
      using ok(8) assms(2) unfolding lspread_def
      by (auto simp: bucket_list_def lhome_def m1_def select_mem_simps [OF assms(2)])
    have "\<forall>x \<in> set (ys @ [a]). el_key m1 x = el_key src x \<and> el_hashv m1 x = el_hashv src x"
      using ok(7) by (simp add: m1_def select_mem_simps [OF assms(2)])
    moreover have "app_list m1 (lhead u) (Some a) (ys @ [a])"
      unfolding m1_def by (rule select_mem_simps(5) [OF assms(2) ok(4) False])
    ultimately show ?thesis
      using n ok(2,3,5,6) nz sp False by (intro that [of n C]) (simp_all add: u1)
  qed
  have d: "distinct (ys @ [a])" using 1(4) by (simp add: app_list_def)
  have home: "unat (HASH_TO_BKT (el_hashv m1 a) (lnum_buckets (ltbl u1))) = lhome m1 n a"
    by (simp add: 1(2) to_bkt_home lhome_def)
  obtain m2 t2 k C2 where 2: "ADD_TO_BKT_at fuel m1 (ltbl u1) (lhome m1 n a) a = Inr (m2, t2)" "k < 32"
    "lspread m2 k (set (ys @ [a])) (lbuckets t2) C2" "lnum_buckets t2 = 2 ^ k" "llog2_num_buckets t2 = of_nat k"
    "lnum_items t2 = lnum_items (ltbl u1)" "ltail t2 = ltail (ltbl u1)" "relinked (set (ys @ [a])) m1 m2"
    using ADD_TO_BKT_at_ok [OF 1(9,2,3,1,7) d assms(4)] by auto
  have run: "select_elem fuel src a (u, end_of None ys) =
      Inr (u1\<lparr>ltbl := t2\<lparr>lnum_items := lnum_items t2 + 1\<rparr>, lmem := m2\<rparr>, Some a)"
    using 2(1) home by (simp add: select_elem_def Let_def u1_def m1_def)
  have "selected src (u1\<lparr>ltbl := t2\<lparr>lnum_items := lnum_items t2 + 1\<rparr>, lmem := m2\<rparr>) (ys @ [a])"
    unfolding selected_def using 1(4-6,8) 2(2-7) relinked_fields [OF 2(8)]
    by (auto simp: app_list_def)
  with run show ?thesis by simp
qed

text \<open>The table has room to be doubled whenever an element is added to it.\<close>

definition select_room :: "nat \<Rightarrow> links \<Rightarrow> uhash \<Rightarrow> nat list \<Rightarrow> bool" where
  "select_room fuel src dst ys \<longleftrightarrow> (\<forall>i \<in> set [1..<length ys].
     case select_all fuel src (take i ys) (dst, None) of Inr (u, _) \<Rightarrow> lnum_buckets (ltbl u) < 2 ^ 31 | Inl _ \<Rightarrow> True)"

lemma select_all_ok:
  assumes "lhead dst = None" and "select_room fuel src dst ys" and "distinct ys" and "length ys < fuel"
    and "length ys < 2 ^ 32" and "i \<le> length ys"
  shows "\<exists>u. select_all fuel src (take i ys) (dst, None) = Inr (u, end_of None (take i ys)) \<and> selected src u (take i ys)"
  using assms(6)
proof (induction i)
  case 0
  then show ?case using assms(1) by (simp add: selected_def)
next
  case (Suc i)
  then obtain u where u: "select_all fuel src (take i ys) (dst, None) = Inr (u, end_of None (take i ys))"
    "selected src u (take i ys)" by auto
  have i: "i < length ys" using Suc.prems by simp
  have room: "take i ys = [] \<or> lnum_buckets (ltbl u) < 2 ^ 31"
  proof (cases "i = 0")
    case False
    then have "i \<in> set [1..<length ys]" using i by simp
    then show ?thesis using assms(2) u(1) unfolding select_room_def by fastforce
  qed simp
  have new: "ys ! i \<notin> set (take i ys)"
    using assms(3) i by (auto simp: in_set_conv_nth nth_eq_iff_index_eq)
  have len: "length (take i ys) + 1 < fuel" "length (take i ys) + 1 < 2 ^ 32"
    using i assms(4,5) by auto
  obtain v where "select_elem fuel src (ys ! i) (u, end_of None (take i ys)) = Inr (v, Some (ys ! i))"
    "selected src v (take i ys @ [ys ! i])"
    using select_elem_ok [OF u(2) new room len] by blast
  then show ?case using u(1) by (simp add: take_Suc_conv_app_nth i select_all_append)
qed

section \<open>The order in which the elements are found\<close>

fun chain_from :: "nat \<Rightarrow> links \<Rightarrow> hptr \<Rightarrow> nat list" where
  "chain_from 0 m hh = []"
| "chain_from (Suc fuel) m hh = (case hh of None \<Rightarrow> [] | Some a \<Rightarrow> a # chain_from fuel m (bkt_next m a))"

definition chained :: "nat \<Rightarrow> uhash \<Rightarrow> nat list" where
  "chained fuel u = (if lhead u = None then []
     else concat (map (\<lambda>b. chain_from fuel (lmem u) (hh_head b)) (lbuckets (ltbl u))))"

lemma chain_from_path: "path (bkt_next m) hh as None \<Longrightarrow> length as < fuel \<Longrightarrow> chain_from fuel m hh = as"
proof (induction as arbitrary: hh fuel)
  case Nil
  then show ?case by (cases fuel) auto
next
  case (Cons a as)
  then obtain f where "fuel = Suc f" by (cases fuel) auto
  with Cons show ?case by simp
qed

lemma chains_passing:
  assumes "list_all2 (chain_passes fuel m) bs D"
  shows "map (\<lambda>b. chain_from fuel m (hh_head b)) bs = D"
  using assms by (induction bs D rule: list_all2_induct) (auto simp: chain_passes_def intro: chain_from_path)

text \<open>Every element is found once.\<close>

lemma chained_ok:
  assumes "table_ok u xs" and "length xs < fuel"
  shows "mset (chained fuel u) = mset xs"
    and "lhead u \<noteq> None \<Longrightarrow> select_buckets fuel cond (lmem u) (lbuckets (ltbl u))
      = select_all fuel (lmem u) (filter cond (chained fuel u))"
proof -
  have "mset (chained fuel u) = mset xs \<and> (lhead u \<noteq> None \<longrightarrow>
      select_buckets fuel cond (lmem u) (lbuckets (ltbl u)) = select_all fuel (lmem u) (filter cond (chained fuel u)))"
  proof (cases "xs = []")
    case False
    then obtain n C where ok: "app_list (lmem u) (lhead u) (ltail (ltbl u)) xs"
      "lspread (lmem u) n (set xs) (lbuckets (ltbl u)) C"
      using assms(1) unfolding table_ok_def by auto
    obtain f where f: "lhead u = Some f" using ok(1) False by (cases xs) (auto simp: app_list_def)
    have d: "distinct xs" using ok(1) by (simp add: app_list_def)
    let ?D = "map C [0..<2 ^ n]"
    have passes: "list_all2 (chain_passes fuel (lmem u)) (lbuckets (ltbl u)) ?D"
      by (rule lspread_passes [OF ok(2) d assms(2)])
    have c: "chained fuel u = concat ?D" using chains_passing [OF passes] f by (simp add: chained_def)
    have "length (concat ?D) = length xs" by (rule chains_length [OF ok(2) d])
    moreover have "set (concat ?D) = set xs" using lspread_chain(2) [OF ok(2)] by auto
    ultimately have "mset (concat ?D) = mset xs"
      using d by (metis card_distinct distinct_card set_eq_iff_mset_eq_distinct)
    with c select_buckets_all [OF passes] show ?thesis by simp
  qed (use assms(1) in \<open>simp add: table_ok_def chained_def\<close>)
  then show "mset (chained fuel u) = mset xs"
    and "lhead u \<noteq> None \<Longrightarrow> select_buckets fuel cond (lmem u) (lbuckets (ltbl u))
      = select_all fuel (lmem u) (filter cond (chained fuel u))" by blast+
qed

section \<open>What is selected, and what is lost\<close>

text \<open>The table that is filled is in order, apart from \<open>tail\<close>.\<close>

definition tail_at :: "hptr \<Rightarrow> uhash \<Rightarrow> uhash" where
  "tail_at p u = u\<lparr>ltbl := (ltbl u)\<lparr>ltail := p\<rparr>\<rparr>"

lemma selected_table_ok:
  assumes "selected (lmem src) u ys" and "table_ok src xs" and "set ys \<subseteq> set xs" and "length ys < 2 ^ 32"
  shows "table_ok (tail_at (end_of None ys) u) ys"
proof (cases "ys = []")
  case True
  then show ?thesis using assms(1) by (simp add: selected_def table_ok_def tail_at_def)
next
  case False
  obtain n C where sel: "n < 32" "lnum_buckets (ltbl u) = 2 ^ n" "llog2_num_buckets (ltbl u) = of_nat n"
    "app_list (lmem u) (lhead u) (end_of None ys) ys" "lnum_items (ltbl u) = of_nat (length ys)"
    "\<forall>a \<in> set ys. el_key (lmem u) a = el_key (lmem src) a \<and> el_hashv (lmem u) a = el_hashv (lmem src) a"
    "lspread (lmem u) n (set ys) (lbuckets (ltbl u)) C"
    using assms(1) False unfolding selected_def by auto
  have "xs \<noteq> []" using assms(3) False by auto
  then have src: "\<forall>a \<in> set xs. lelem_ok (lmem src) a" "distinct (map (el_key (lmem src)) xs)"
    using assms(2) unfolding table_ok_def by auto
  have "\<forall>a \<in> set ys. lelem_ok (lmem u) a" using src(1) sel(6) assms(3) by (auto simp: lelem_ok_def)
  moreover have "distinct ys" using sel(4) by (simp add: app_list_def)
  then have "distinct (map (el_key (lmem u)) ys)"
    using src(2) sel(6) assms(3) by (auto simp: distinct_map inj_on_def subset_iff)
  ultimately show ?thesis
    using sel assms(4) False unfolding table_ok_def tail_at_def by auto
qed

lemma HASH_FSCK_tail: "HASH_FSCK fuel (tail_at p u) = HASH_FSCK fuel u"
  by (simp add: HASH_FSCK_def tail_at_def cong: if_cong)

lemma HASH_SELECT_ok:
  assumes "table_ok src xs" and "lhead dst = None" and "length xs < fuel"
    and "ys = filter cond (chained fuel src)" and "select_room fuel (lmem src) dst ys"
  shows "\<exists>u. HASH_SELECT fuel dst src cond = Inr u \<and> selected (lmem src) u ys
     \<and> mset ys = filter_mset cond (mset xs) \<and> length ys \<le> length xs \<and> (xs \<noteq> [] \<longrightarrow> length xs < 2 ^ 32)"
proof -
  have ms: "mset ys = filter_mset cond (mset xs)" using chained_ok(1) [OF assms(1,3)] by (simp add: assms(4))
  then have len: "length ys \<le> length xs" by (metis size_filter_mset_lesseq size_mset)
  have xs: "distinct xs" "xs \<noteq> [] \<longrightarrow> length xs < 2 ^ 32" using assms(1) by (cases xs; auto simp: table_ok_def app_list_def)+
  have "distinct ys" using ms xs(1) by (metis distinct_filter mset_eq_imp_distinct_iff mset_filter)
  then obtain u where u: "select_all fuel (lmem src) ys (dst, None) = Inr (u, end_of None ys)" "selected (lmem src) u ys"
    using select_all_ok [OF assms(2,5), of "length ys"] len xs(2) assms(3) by (cases "xs = []") auto
  have "HASH_SELECT fuel dst src cond = Inr u"
  proof (cases "lhead src = None")
    case True
    then have "ys = []" by (simp add: assms(4) chained_def)
    then show ?thesis using u(1) True by (simp add: HASH_SELECT_def)
  next
    case False
    then show ?thesis
      using u(1) chained_ok(2) [OF assms(1,3) False, of cond] by (auto simp: HASH_SELECT_def assms(4))
  qed
  with u(2) ms len xs(2) show ?thesis by blast
qed

text \<open>\<open>HASH_SELECT\<close> into an empty table selects the elements that satisfy the condition, each once, in a
  table that is in order and passes the check, except that its \<open>tail\<close> is the first element.
\<close>

theorem HASH_SELECT_selects:
  assumes "table_ok src xs" and "lhead dst = None" and "length xs < fuel"
    and "ys = filter cond (chained fuel src)" and "select_room fuel (lmem src) dst ys"
  shows "\<exists>u. HASH_SELECT fuel dst src cond = Inr u \<and> mset ys = filter_mset cond (mset xs)
     \<and> table_ok (tail_at (end_of None ys) u) ys \<and> HASH_FSCK fuel u = Inr True
     \<and> (ys \<noteq> [] \<longrightarrow> ltail (ltbl u) = Some (hd ys))"
proof -
  obtain u where u: "HASH_SELECT fuel dst src cond = Inr u" "selected (lmem src) u ys"
    "mset ys = filter_mset cond (mset xs)" "length ys \<le> length xs" "xs \<noteq> [] \<longrightarrow> length xs < 2 ^ 32"
    using HASH_SELECT_ok [OF assms] by blast
  have "set ys \<subseteq> set xs" using u(3) by (metis filter_is_subset mset_eq_setD mset_filter)
  then have ok: "table_ok (tail_at (end_of None ys) u) ys"
    using selected_table_ok [OF u(2) assms(1)] u(4,5) by (cases "xs = []") auto
  moreover have "HASH_FSCK fuel u = Inr True"
    using HASH_FSCK_accepts [OF ok, of fuel] u(4) assms(3) by (simp add: HASH_FSCK_tail)
  moreover have "ys \<noteq> [] \<longrightarrow> ltail (ltbl u) = Some (hd ys)" using u(2) by (auto simp: selected_def)
  ultimately show ?thesis using u(1,3) by blast
qed

text \<open>Both elements of the small table are selected, in the order of their buckets.\<close>

lemma select_pair:
  "filter (\<lambda>_. True) (chained 9 uh_pair) = [1, 2]" "select_room 9 (lmem uh_pair) uh_none [1, 2]"
  "(case HASH_SELECT 9 uh_none uh_pair (\<lambda>_. True) of Inr u \<Rightarrow> lnum_buckets (ltbl u) = 32 | Inl _ \<Rightarrow> False)"
  "lhead uh_none = None"
  by code_simp+

lemma HASH_SELECT_selects_witness:
  "\<exists>u. HASH_SELECT 9 uh_none uh_pair (\<lambda>_. True) = Inr u \<and> table_ok (tail_at (Some 2) u) [1, 2]
     \<and> HASH_FSCK 9 u = Inr True \<and> ltail (ltbl u) = Some 1"
  using HASH_SELECT_selects [OF uh_pair_ok(1) select_pair(4) _ select_pair(1) [symmetric] select_pair(2)] by auto

text \<open>C22: After \<open>HASH_SELECT\<close> of at least two elements \<open>tail\<close> still is the first. The next \<open>HASH_ADD\<close> hangs
  the new element behind it: the walk through the table, with \<open>HASH_ITER\<close>, meets the first and the
  new element only, and the check of the debugging build fails.
\<close>

theorem HASH_SELECT_loses:
  assumes "table_ok src xs" and "lhead dst = None" and "length xs + 1 < fuel" and "length xs + 1 < 2 ^ 32"
    and "y1 # y2 # ys = filter cond (chained fuel src)"
    and "select_room fuel (lmem src) dst (y1 # y2 # ys)" and "a \<notin> set xs"
  shows "\<exists>u. HASH_SELECT fuel dst src cond = Inr u \<and> ltail (ltbl u) = Some y1
     \<and> (lnum_buckets (ltbl u) < 2 ^ 31 \<longrightarrow> (\<exists>v. HASH_ADD_at fuel u k a = Inr v
          \<and> path (app_next (lmem v)) (lhead v) [y1, a] None \<and> HASH_FSCK fuel v \<noteq> Inr True))"
proof -
  let ?ys = "y1 # y2 # ys"
  obtain u where u: "HASH_SELECT fuel dst src cond = Inr u" "selected (lmem src) u ?ys"
    "mset ?ys = filter_mset cond (mset xs)" "length ?ys \<le> length xs"
    using HASH_SELECT_ok [OF assms(1,2) _ assms(5,6)] assms(3) by auto
  obtain n C where sel: "n < 32" "lnum_buckets (ltbl u) = 2 ^ n" "llog2_num_buckets (ltbl u) = of_nat n"
    "app_list (lmem u) (lhead u) (end_of None ?ys) ?ys" "lnum_items (ltbl u) = of_nat (length ?ys)"
    "lspread (lmem u) n (set ?ys) (lbuckets (ltbl u)) C" "ltail (ltbl u) = Some y1"
    using u(2) unfolding selected_def by auto
  have sub: "set ?ys \<subseteq> set xs" using u(3) by (metis filter_is_subset mset_eq_setD mset_filter)
  then have new: "a \<notin> set ?ys" using assms(7) by blast
  have front: "lhead u = Some y1" using sel(4) by (simp add: app_list_def)
  have "\<exists>v. HASH_ADD_at fuel u k a = Inr v \<and> path (app_next (lmem v)) (lhead v) [y1, a] None
      \<and> HASH_FSCK fuel v \<noteq> Inr True" if room: "lnum_buckets (ltbl u) < 2 ^ 31"
  proof -
    define m where "m = (lmem u)\<lparr>el_key := (el_key (lmem u))(a := k),
      app_next := (app_next (lmem u))(a := None, y1 := Some a), app_prev := (app_prev (lmem u))(a := Some y1),
      el_hashv := (el_hashv (lmem u))(a := HASH_JEN k)\<rparr>"
    define t where "t = (ltbl u)\<lparr>ltail := Some a, lnum_items := lnum_items (ltbl u) + 1\<rparr>"
    have n: "n < 31" using room sel(1,2) by (cases "n = 31") auto
    have sp: "lspread m n (set ?ys) (lbuckets t) C"
      using sel(6) new unfolding lspread_def by (auto simp: bucket_list_def lhome_def m_def t_def)
    have items: "unat (lnum_items t) = length ?ys + 1"
      using u(4) assms(4) by (simp add: t_def sel(5) unat_word_ariths unat_of_nat)
    then have nz: "lnum_items t \<noteq> 0" by auto
    have d: "distinct (?ys @ [a])" using sel(4) new by (auto simp: app_list_def)
    have len: "length ?ys + 1 < fuel" using u(4) assms(3) by linarith
    obtain m2 t2 l C2 where two: "ADD_TO_BKT_at fuel m t (lhome m n a) a = Inr (m2, t2)"
      "lnum_items t2 = lnum_items t" "relinked (set (?ys @ [a])) m m2"
      using ADD_TO_BKT_at_ok [OF sp _ _ n disjI1 [OF nz] d len] sel(2,3) by (auto simp: t_def)
    let ?v = "u\<lparr>ltbl := t2, lmem := m2\<rparr>"
    have home: "unat (HASH_TO_BKT (HASH_JEN k) (lnum_buckets t)) = lhome m n a"
      by (simp add: t_def sel(2) to_bkt_home lhome_def m_def)
    have "HASH_ADD_at fuel u k a = c_bind (ADD_TO_BKT_at fuel m t (unat (HASH_TO_BKT (HASH_JEN k) (lnum_buckets t))) a)
        (\<lambda>(m, t). Inr (u\<lparr>ltbl := t, lmem := m\<rparr>))"
      by (simp add: HASH_ADD_at_def APPEND_at_def Let_def front sel(7) m_def t_def split_def)
    then have run: "HASH_ADD_at fuel u k a = Inr ?v" by (simp add: home two(1))
    have walk: "path (app_next (lmem ?v)) (lhead ?v) [y1, a] None"
      using relinked_fields [OF two(3)] front new by (simp add: m_def)
    have "HASH_FSCK fuel ?v \<noteq> Inr True"
    proof
      assume "HASH_FSCK fuel ?v = Inr True"
      then obtain zs where "path (app_next (lmem ?v)) (lhead ?v) zs None" "lnum_items (ltbl ?v) = of_nat (length zs)"
        using front unfolding HASH_FSCK_iff by auto
      moreover have "zs = [y1, a]" using path_unique [OF calculation(1) walk] .
      ultimately have "unat (lnum_items t) = 2" by (simp add: two(2))
      then show False using items by simp
    qed
    with run walk show ?thesis by blast
  qed
  with u(1) sel(7) show ?thesis by blast
qed

lemma HASH_SELECT_loses_witness:
  "\<exists>u v. HASH_SELECT 9 uh_none uh_pair (\<lambda>_. True) = Inr u \<and> HASH_ADD_at 9 u (ascii ''c'') 7 = Inr v
     \<and> path (app_next (lmem v)) (lhead v) [1, 7] None \<and> HASH_FSCK 9 v \<noteq> Inr True"
proof -
  obtain u where u: "HASH_SELECT 9 uh_none uh_pair (\<lambda>_. True) = Inr u"
    "lnum_buckets (ltbl u) < 2 ^ 31 \<longrightarrow> (\<exists>v. HASH_ADD_at 9 u (ascii ''c'') 7 = Inr v
          \<and> path (app_next (lmem v)) (lhead v) [1, 7] None \<and> HASH_FSCK 9 v \<noteq> Inr True)"
    using HASH_SELECT_loses [OF uh_pair_ok(1) select_pair(4) _ _ select_pair(1) [symmetric] select_pair(2), of 7 "ascii ''c''"]
    by auto
  have "lnum_buckets (ltbl u) = 32" using select_pair(3) unfolding u(1) by simp
  with u show ?thesis by simp
qed

end
