(* ===== verification/Uthash_Bloom.thy ===== *)
theory Uthash_Bloom
  imports Uthash_Insert
begin

text \<open>
  What uthash.h can be built with instead of its defaults: the Bloom filter of \<open>HASH_BLOOM\<close>, which lets a
  lookup skip the buckets, and the other hash functions that \<open>HASH_FUNCTION\<close> can name. A \<open>char\<close> is
  signed, as on the platforms where uthash.h reads words from unaligned addresses.
\<close>

section \<open>The Bloom filter\<close>

record bloom =
  bloom_nbits :: nat
  bloom_bv :: "byte list"

definition HASH_BLOOM_BYTELEN :: "nat \<Rightarrow> nat" where
  "HASH_BLOOM_BYTELEN n = 2 ^ n div 8 + (if 2 ^ n mod 8 \<noteq> (0 :: nat) then 1 else 0)"

definition HASH_BLOOM_MAKE :: "nat \<Rightarrow> bloom" where
  "HASH_BLOOM_MAKE n = \<lparr>bloom_nbits = n, bloom_bv = replicate (HASH_BLOOM_BYTELEN n) 0\<rparr>"

definition HASH_BLOOM_BITSET :: "byte list \<Rightarrow> nat \<Rightarrow> byte list cres" where
  "HASH_BLOOM_BITSET bv idx = c_bind (at_index bv (idx div 8)) (\<lambda>b.
     Inr (bv[idx div 8 := or b (push_bit (idx mod 8) 1)]))"

definition HASH_BLOOM_BITTEST :: "byte list \<Rightarrow> nat \<Rightarrow> bool cres" where
  "HASH_BLOOM_BITTEST bv idx = c_bind (at_index bv (idx div 8)) (\<lambda>b. Inr (and b (push_bit (idx mod 8) 1) \<noteq> 0))"

definition bloom_index :: "nat \<Rightarrow> 32 word \<Rightarrow> nat" where
  "bloom_index n hv = unat (and hv (ucast (push_bit n 1 - 1 :: 64 word)))"

definition HASH_BLOOM_ADD :: "bloom \<Rightarrow> 32 word \<Rightarrow> bloom cres" where
  "HASH_BLOOM_ADD t hv = c_bind (HASH_BLOOM_BITSET (bloom_bv t) (bloom_index (bloom_nbits t) hv)) (\<lambda>bv.
     Inr (t\<lparr>bloom_bv := bv\<rparr>))"

definition HASH_BLOOM_TEST :: "bloom \<Rightarrow> 32 word \<Rightarrow> bool cres" where
  "HASH_BLOOM_TEST t hv = HASH_BLOOM_BITTEST (bloom_bv t) (bloom_index (bloom_nbits t) hv)"

text \<open>The additions since the table was made; a deletion leaves the filter as it is.\<close>

fun bloom_adds :: "bloom \<Rightarrow> 32 word list \<Rightarrow> bloom cres" where
  "bloom_adds t [] = Inr t"
| "bloom_adds t (h # hs) = c_bind (HASH_BLOOM_ADD t h) (\<lambda>t. bloom_adds t hs)"

text \<open>\<open>HASH_FIND\<close> in the build with the filter.\<close>

definition HASH_FIND_bloom :: "nat \<Rightarrow> uhash \<Rightarrow> bloom \<Rightarrow> byte list \<Rightarrow> hptr cres" where
  "HASH_FIND_bloom fuel u t k =
     (if lhead u = None then Inr None
      else c_bind (HASH_BLOOM_TEST t (HASH_JEN k)) (\<lambda>maybe. if maybe then HASH_FIND_at fuel u k else Inr None))"

section \<open>The filter is exact on its bits\<close>

lemma bloom_index_take: "n < 64 \<Longrightarrow> bloom_index n h = unat (take_bit n h)"
proof -
  have "(push_bit n 1 - 1 :: 64 word) = mask n" by (simp add: mask_eq_exp_minus_1 push_bit_eq_mult)
  moreover have "and h (ucast (mask n :: 64 word)) = take_bit n h" if "n < 64"
    by (rule bit_word_eqI) (use that in \<open>auto simp: bit_simps\<close>)
  ultimately show "n < 64 \<Longrightarrow> bloom_index n h = unat (take_bit n h)" by (simp add: bloom_index_def)
qed

lemma bloom_index_less: "n \<le> 32 \<Longrightarrow> bloom_index n h div 8 < HASH_BLOOM_BYTELEN n"
proof -
  assume n: "n \<le> 32"
  then have "bloom_index n h < 2 ^ n" by (simp add: bloom_index_take unsigned_take_bit_eq)
  then show ?thesis
    unfolding HASH_BLOOM_BYTELEN_def by (auto simp: div_less_iff_less_mult less_mult_imp_div_less)
qed

text \<open>The positions whose bit is set.\<close>

definition bit_at :: "byte list \<Rightarrow> nat \<Rightarrow> bool" where
  "bit_at bv i \<longleftrightarrow> bit (bv ! (i div 8)) (i mod 8)"

lemma bittest_ok: "i div 8 < length bv \<Longrightarrow> HASH_BLOOM_BITTEST bv i = Inr (bit_at bv i)"
  by (simp add: HASH_BLOOM_BITTEST_def bit_at_def bit_iff_and_push_bit_not_eq_0)

lemma bitset_ok:
  assumes "i div 8 < length bv"
  obtains bv' where "HASH_BLOOM_BITSET bv i = Inr bv'" "length bv' = length bv"
    "\<And>j. j div 8 < length bv \<Longrightarrow> bit_at bv' j \<longleftrightarrow> j = i \<or> bit_at bv j"
proof -
  let ?bv = "bv[i div 8 := or (bv ! (i div 8)) (push_bit (i mod 8) 1)]"
  have "bit_at ?bv j \<longleftrightarrow> j = i \<or> bit_at bv j" if "j div 8 < length bv" for j
  proof (cases "j div 8 = i div 8")
    case True
    then have "j = i \<longleftrightarrow> j mod 8 = i mod 8" by (metis div_mult_mod_eq)
    then show ?thesis using that True by (auto simp: bit_at_def bit_simps)
  next
    case False
    then show ?thesis by (auto simp: bit_at_def)
  qed
  then show ?thesis using assms by (intro that [of ?bv]) (simp_all add: HASH_BLOOM_BITSET_def)
qed

lemma bloom_adds_ok:
  assumes "bloom_nbits t = n" and "n \<le> 32" and "length (bloom_bv t) = HASH_BLOOM_BYTELEN n"
  shows "\<exists>t'. bloom_adds t hs = Inr t' \<and> bloom_nbits t' = n \<and> length (bloom_bv t') = HASH_BLOOM_BYTELEN n
     \<and> (\<forall>h. bit_at (bloom_bv t') (bloom_index n h) \<longleftrightarrow>
          bit_at (bloom_bv t) (bloom_index n h) \<or> bloom_index n h \<in> bloom_index n ` set hs)"
  using assms
proof (induction hs arbitrary: t)
  case (Cons g hs)
  have len: "bloom_index n h div 8 < length (bloom_bv t)" for h
    using bloom_index_less [OF Cons.prems(2)] Cons.prems(3) by simp
  obtain bv where bv: "HASH_BLOOM_BITSET (bloom_bv t) (bloom_index n g) = Inr bv" "length bv = length (bloom_bv t)"
    "\<And>j. j div 8 < length (bloom_bv t) \<Longrightarrow> bit_at bv j \<longleftrightarrow> j = bloom_index n g \<or> bit_at (bloom_bv t) j"
    using bitset_ok [OF len] by metis
  have add: "HASH_BLOOM_ADD t g = Inr (t\<lparr>bloom_bv := bv\<rparr>)" using bv(1) Cons.prems(1) by (simp add: HASH_BLOOM_ADD_def)
  obtain t' where "bloom_adds (t\<lparr>bloom_bv := bv\<rparr>) hs = Inr t'" "bloom_nbits t' = n"
    "length (bloom_bv t') = HASH_BLOOM_BYTELEN n"
    "\<forall>h. bit_at (bloom_bv t') (bloom_index n h) \<longleftrightarrow> bit_at bv (bloom_index n h) \<or> bloom_index n h \<in> bloom_index n ` set hs"
    using Cons.IH [of "t\<lparr>bloom_bv := bv\<rparr>"] Cons.prems bv(2) by auto
  then show ?case using add bv(3) [OF len] by auto
qed simp

text \<open>
  The filter never reads or writes outside of its array, and it says no exactly for the hash values that
  differ in their lowest bits from all that were added: it has no false negatives.
\<close>

lemma bloom_exact:
  assumes "n \<le> 32"
  shows "\<exists>t. bloom_adds (HASH_BLOOM_MAKE n) hs = Inr t
     \<and> (\<forall>h. HASH_BLOOM_TEST t h = Inr (\<exists>g \<in> set hs. take_bit n g = take_bit n h))"
proof -
  have fresh: "\<not> bit_at (bloom_bv (HASH_BLOOM_MAKE n)) (bloom_index n h)" for h
    using bloom_index_less [OF assms] by (simp add: HASH_BLOOM_MAKE_def bit_at_def)
  obtain t where t: "bloom_adds (HASH_BLOOM_MAKE n) hs = Inr t" "bloom_nbits t = n"
    "length (bloom_bv t) = HASH_BLOOM_BYTELEN n"
    "\<And>h. bit_at (bloom_bv t) (bloom_index n h) \<longleftrightarrow> bloom_index n h \<in> bloom_index n ` set hs"
    using bloom_adds_ok [of "HASH_BLOOM_MAKE n" n hs] assms fresh by (auto simp: HASH_BLOOM_MAKE_def)
  have same: "bloom_index n g = bloom_index n h \<longleftrightarrow> take_bit n g = take_bit n h" for g h
    using assms bloom_index_take [of n g] bloom_index_take [of n h] by (simp only: word_unat_eq_iff)
  have "HASH_BLOOM_TEST t h = Inr (\<exists>g \<in> set hs. take_bit n g = take_bit n h)" for h
  proof -
    have "bit_at (bloom_bv t) (bloom_index n h) \<longleftrightarrow> (\<exists>g \<in> set hs. take_bit n g = take_bit n h)"
      unfolding t(4) by (auto simp: image_iff) (metis same)+
    then show ?thesis
      using bittest_ok [of "bloom_index n h" "bloom_bv t"] bloom_index_less [OF assms, of h] t(2,3)
      by (simp add: HASH_BLOOM_TEST_def)
  qed
  with t(1) show ?thesis by blast
qed

lemma table_ok_elems: "table_ok u xs \<Longrightarrow> a \<in> set xs \<Longrightarrow> lelem_ok (lmem u) a"
  by (auto simp: table_ok_def split: if_splits)

text \<open>Lookups through a filter that has had the hash value of every element.\<close>

lemma HASH_FIND_bloom_eq:
  assumes "table_ok u xs" and "length k < 2 ^ 32" and "length xs < fuel"
    and "\<And>h. HASH_BLOOM_TEST t h = Inr (P h)" and "\<And>a. a \<in> set xs \<Longrightarrow> P (el_hashv (lmem u) a)"
  shows "HASH_FIND_bloom fuel u t k = HASH_FIND_at fuel u k"
proof (cases "P (HASH_JEN k)")
  case True
  then show ?thesis by (simp add: HASH_FIND_bloom_def assms(4) HASH_FIND_at_def)
next
  case False
  have "el_key (lmem u) a \<noteq> k" if a: "a \<in> set xs" for a
  proof
    assume "el_key (lmem u) a = k"
    moreover have "lelem_ok (lmem u) a" by (rule table_ok_elems [OF assms(1) a])
    ultimately have "el_hashv (lmem u) a = HASH_JEN k" by (simp add: lelem_ok_def)
    then show False using False assms(5) [OF a] by simp
  qed
  then have "find (\<lambda>a. el_key (lmem u) a = k) xs = None" by (auto simp: find_None_iff)
  then show ?thesis
    using HASH_FIND_at_find [OF assms(1-3)] False by (simp add: HASH_FIND_bloom_def assms(4))
qed

text \<open>C23: A Bloom filter of \<open>n\<close> bits, \<open>n\<close> at most 32, never reads or writes outside of its array, and says
  no exactly for the hash values that differ in the lowest \<open>n\<close> bits from all that were added; a lookup
  through it finds what a lookup without it finds, also when elements were deleted since.\<close>

theorem bloom_filters:
  assumes "n \<le> 32"
  shows "\<exists>t. bloom_adds (HASH_BLOOM_MAKE n) hs = Inr t
     \<and> (\<forall>h. HASH_BLOOM_TEST t h = Inr (\<exists>g \<in> set hs. take_bit n g = take_bit n h))
     \<and> (\<forall>u xs k fuel. table_ok u xs \<and> el_hashv (lmem u) ` set xs \<subseteq> set hs \<and> length k < 2 ^ 32 \<and> length xs < fuel
          \<longrightarrow> HASH_FIND_bloom fuel u t k = HASH_FIND_at fuel u k)"
proof -
  obtain t where t: "bloom_adds (HASH_BLOOM_MAKE n) hs = Inr t"
    "\<And>h. HASH_BLOOM_TEST t h = Inr (\<exists>g \<in> set hs. take_bit n g = take_bit n h)"
    using bloom_exact [OF assms] by blast
  have "HASH_FIND_bloom fuel u t k = HASH_FIND_at fuel u k"
    if "table_ok u xs \<and> el_hashv (lmem u) ` set xs \<subseteq> set hs \<and> length k < 2 ^ 32 \<and> length xs < fuel" for u xs k fuel
    by (rule HASH_FIND_bloom_eq [OF _ _ _ t(2)]) (use that in auto)
  with t show ?thesis by blast
qed

theorem bloom_filters_witness:
  "\<exists>t. bloom_adds (HASH_BLOOM_MAKE 5) [HASH_JEN (ascii ''a''), HASH_JEN (ascii ''b'')] = Inr t
     \<and> HASH_BLOOM_TEST t (HASH_JEN (ascii ''a'')) = Inr True
     \<and> HASH_FIND_bloom 9 uh_pair t (ascii ''a'') = HASH_FIND_at 9 uh_pair (ascii ''a'')"
proof -
  let ?hs = "[HASH_JEN (ascii ''a''), HASH_JEN (ascii ''b'')]"
  have "lelem_ok (lmem uh_pair) 1" "lelem_ok (lmem uh_pair) 2" using table_ok_elems [OF uh_pair_ok(1)] by simp_all
  then have hs: "el_hashv (lmem uh_pair) ` set [1, 2] \<subseteq> set ?hs" using uh_pair_ok(2,3) by (simp add: lelem_ok_def)
  have n: "(5 :: nat) \<le> 32" by simp
  obtain t where t: "bloom_adds (HASH_BLOOM_MAKE 5) ?hs = Inr t"
    "\<forall>h. HASH_BLOOM_TEST t h = Inr (\<exists>g \<in> set ?hs. take_bit 5 g = take_bit 5 h)"
    "\<forall>u xs k fuel. table_ok u xs \<and> el_hashv (lmem u) ` set xs \<subseteq> set ?hs \<and> length k < 2 ^ 32 \<and> length xs < fuel
      \<longrightarrow> HASH_FIND_bloom fuel u t k = HASH_FIND_at fuel u k"
    using bloom_filters [OF n, of ?hs] by blast
  have "HASH_BLOOM_TEST t (HASH_JEN (ascii ''a'')) = Inr True" unfolding t(2) [rule_format] by simp
  moreover have "HASH_FIND_bloom 9 uh_pair t (ascii ''a'') = HASH_FIND_at 9 uh_pair (ascii ''a'')"
    by (rule t(3) [rule_format, of _ "[1, 2]"]) (use hs uh_pair_ok(1) in \<open>simp add: ascii_def\<close>)
  ultimately show ?thesis using t(1) by blast
qed

text \<open>\<open>HASH_SELECT\<close> adds nothing to the filter of the table that it fills, whose lookups then find nothing.\<close>

lemma fresh_filter_denies:
  assumes "n \<le> 32" shows "HASH_BLOOM_TEST (HASH_BLOOM_MAKE n) h = Inr False"
  using bloom_exact [OF assms, of "[]"] by simp

lemma unfiltered_not_found: "n \<le> 32 \<Longrightarrow> HASH_FIND_bloom fuel u (HASH_BLOOM_MAKE n) k = Inr None"
  by (simp add: HASH_FIND_bloom_def fresh_filter_denies)

end
