(* ===== verification/Uthash_Functions.thy ===== *)
theory Uthash_Functions
  imports Uthash
begin

text \<open>
  The hash functions of uthash.h that \<open>HASH_FUNCTION\<close> can name in place of \<open>HASH_JEN\<close>: a macro yields the
  hash value, of which \<open>HASH_TO_BKT\<close> takes the bucket. A \<open>char\<close> is signed, as on the platforms of Intel;
  MurmurHash reads its blocks as words there, the lowest byte first. The lemmas say which steps
  lose nothing: two keys that collide after a common suffix have collided before it.
\<close>

section \<open>The functions of one byte at a time\<close>

definition char_word :: "byte \<Rightarrow> 32 word" where "char_word c = scast c"

definition ber_step :: "32 word \<Rightarrow> byte \<Rightarrow> 32 word" where "ber_step h c = h * 33 + char_word c"

definition HASH_BER :: "byte list \<Rightarrow> 32 word" where "HASH_BER s = foldl ber_step 0 s"

definition sax_step :: "32 word \<Rightarrow> byte \<Rightarrow> 32 word" where
  "sax_step h c = xor h (push_bit 5 h + drop_bit 2 h + char_word c)"

definition HASH_SAX :: "byte list \<Rightarrow> 32 word" where "HASH_SAX s = foldl sax_step 0 s"

definition fnv_step :: "32 word \<Rightarrow> byte \<Rightarrow> 32 word" where "fnv_step h c = xor (h * 16777619) (char_word c)"

definition HASH_FNV :: "byte list \<Rightarrow> 32 word" where "HASH_FNV s = foldl fnv_step 2166136261 s"

definition oat_step :: "32 word \<Rightarrow> byte \<Rightarrow> 32 word" where
  "oat_step h c = (let h = h + char_word c; h = h + push_bit 10 h in xor h (drop_bit 6 h))"

definition oat_end :: "32 word \<Rightarrow> 32 word" where
  "oat_end h = (let h = h + push_bit 3 h; h = xor h (drop_bit 11 h) in h + push_bit 15 h)"

definition HASH_OAT :: "byte list \<Rightarrow> 32 word" where "HASH_OAT s = oat_end (foldl oat_step 0 s)"

section \<open>The function of Hsieh\<close>

definition get16bits :: "byte list \<Rightarrow> nat \<Rightarrow> 32 word" where
  "get16bits s n = push_bit 8 (ucast (s ! (n + 1))) + ucast (s ! n)"

fun sfh_loop :: "nat \<Rightarrow> byte list \<Rightarrow> 32 word \<Rightarrow> 32 word" where
  "sfh_loop 0 s h = h"
| "sfh_loop (Suc sfh_len) s h =
     (let h = h + get16bits s 0;
          tmp = xor (push_bit 11 (get16bits s 2)) h;
          h = xor (push_bit 16 h) tmp
      in sfh_loop sfh_len (drop 4 s) (h + drop_bit 11 h))"

definition sfh_rest :: "byte list \<Rightarrow> 32 word \<Rightarrow> 32 word" where
  "sfh_rest s h =
     (if length s = 3 then
        (let h = h + get16bits s 0; h = xor h (push_bit 16 h); h = xor h (push_bit 18 (ucast (s ! 2))) in h + drop_bit 11 h)
      else if length s = 2 then (let h = h + get16bits s 0; h = xor h (push_bit 11 h) in h + drop_bit 17 h)
      else if length s = 1 then (let h = h + ucast (s ! 0); h = xor h (push_bit 10 h) in h + drop_bit 1 h)
      else h)"

definition sfh_end :: "32 word \<Rightarrow> 32 word" where
  "sfh_end h =
     (let h = xor h (push_bit 3 h); h = h + drop_bit 5 h; h = xor h (push_bit 4 h); h = h + drop_bit 17 h;
          h = xor h (push_bit 25 h)
      in h + drop_bit 6 h)"

definition HASH_SFH :: "byte list \<Rightarrow> 32 word" where
  "HASH_SFH s = (let n = length s div 4 in sfh_end (sfh_rest (drop (4 * n) s) (sfh_loop n s 0xcafebabe)))"

section \<open>MurmurHash\<close>

definition MUR_ROTL32 :: "32 word \<Rightarrow> nat \<Rightarrow> 32 word" where
  "MUR_ROTL32 x r = or (push_bit r x) (drop_bit (32 - r) x)"

definition MUR_FMIX :: "32 word \<Rightarrow> 32 word" where
  "MUR_FMIX h =
     (let h = xor h (drop_bit 16 h); h = h * 0x85ebca6b; h = xor h (drop_bit 13 h); h = h * 0xc2b2ae35
      in xor h (drop_bit 16 h))"

definition mur_scramble :: "32 word \<Rightarrow> 32 word" where
  "mur_scramble k = MUR_ROTL32 (k * 0xcc9e2d51) 15 * 0x1b873593"

definition mur_step :: "32 word \<Rightarrow> 32 word \<Rightarrow> 32 word" where
  "mur_step h k = MUR_ROTL32 (xor h (mur_scramble k)) 13 * 5 + 0xe6546b64"

definition MUR_GETBLOCK :: "byte list \<Rightarrow> 32 word" where
  "MUR_GETBLOCK p = or (ucast (p ! 0)) (or (push_bit 8 (ucast (p ! 1)))
     (or (push_bit 16 (ucast (p ! 2))) (push_bit 24 (ucast (p ! 3)))))"

fun mur_loop :: "nat \<Rightarrow> byte list \<Rightarrow> 32 word \<Rightarrow> 32 word" where
  "mur_loop 0 p h = h"
| "mur_loop (Suc n) p h = mur_loop n (drop 4 p) (mur_step h (MUR_GETBLOCK p))"

definition mur_tail :: "byte list \<Rightarrow> 32 word \<Rightarrow> 32 word" where
  "mur_tail s h =
     (let k = (if length s \<ge> 3 then push_bit 16 (ucast (s ! 2)) else 0);
          k = (if length s \<ge> 2 then xor k (push_bit 8 (ucast (s ! 1))) else k)
      in if length s \<ge> 1 then xor h (mur_scramble (xor k (ucast (s ! 0)))) else h)"

definition HASH_MUR :: "byte list \<Rightarrow> 32 word" where
  "HASH_MUR s = (let nblocks = length s div 4
     in MUR_FMIX (xor (mur_tail (drop (4 * nblocks) s) (mur_loop nblocks s 0xf88D5353)) (of_nat (length s))))"

section \<open>Steps that lose nothing\<close>

lemma times_inj:
  assumes "c * d = (1 :: 32 word)" shows "h * c = g * c \<longleftrightarrow> h = g"
proof
  assume "h * c = g * c"
  then have "h * c * d = g * c * d" by (rule arg_cong)
  then show "h = g" by (simp only: mult.assoc assms mult_1_right)
qed simp

lemma xor_drop_inj:
  assumes "0 < k" shows "xor h (drop_bit k h) = xor g (drop_bit k g) \<longleftrightarrow> h = (g :: 32 word)"
proof
  assume eq: "xor h (drop_bit k h) = xor g (drop_bit k g)"
  have "bit h i \<longleftrightarrow> bit g i" for i
  proof (induction "32 - i" arbitrary: i rule: less_induct)
    case less
    have "bit (xor h (drop_bit k h)) i \<longleftrightarrow> bit (xor g (drop_bit k g)) i" by (simp only: eq)
    then have *: "(bit h i \<noteq> bit h (i + k)) \<longleftrightarrow> (bit g i \<noteq> bit g (i + k))"
      by (simp add: bit_simps add.commute)
    show ?case
    proof (cases "i < 32")
      case True
      then have "bit h (i + k) \<longleftrightarrow> bit g (i + k)" using assms by (intro less) simp
      with * show ?thesis by blast
    next
      case False
      then have "\<not> bit h i" "\<not> bit g i" using bit_imp_le_length by fastforce+
      then show ?thesis by simp
    qed
  qed
  then show "h = g" by (simp add: bit_eq_iff)
qed simp

lemma plus_push: "(h :: 32 word) + push_bit n h = h * (1 + 2 ^ n)"
  by (simp add: push_bit_eq_mult algebra_simps)

lemma xor_inj: "xor h c = xor g c \<longleftrightarrow> h = (g :: 32 word)"
proof
  assume "xor h c = xor g c"
  then have "xor (xor h c) c = xor (xor g c) c" by (rule arg_cong)
  then show "h = g" by (simp only: xor.assoc xor_self_eq xor.right_neutral)
qed simp

lemma ber_step_inj: "ber_step h c = ber_step g c \<longleftrightarrow> h = g"
  using times_inj [of 33 1041204193] by (simp add: ber_step_def)

lemma fnv_step_inj: "fnv_step h c = fnv_step g c \<longleftrightarrow> h = g"
  using times_inj [of 16777619 899433627] by (simp add: fnv_step_def xor_inj)

lemma oat_step_inj: "oat_step h c = oat_step g c \<longleftrightarrow> h = g"
  using times_inj [of 1025 3222273025] by (simp add: oat_step_def Let_def plus_push xor_drop_inj)

lemma oat_end_inj: "oat_end h = oat_end g \<longleftrightarrow> h = g"
  using times_inj [of 9 954437177] times_inj [of 32769 1073709057]
  by (simp add: oat_end_def Let_def plus_push xor_drop_inj)

lemma MUR_FMIX_inj: "MUR_FMIX h = MUR_FMIX g \<longleftrightarrow> h = g"
  using times_inj [of "0x85ebca6b" 2781581891] times_inj [of "0xc2b2ae35" 2127672349]
  by (simp add: MUR_FMIX_def Let_def xor_drop_inj)

lemma foldl_inj:
  assumes "\<And>h g c. step h c = step g c \<longleftrightarrow> h = g"
  shows "foldl step h s = foldl step g s \<longleftrightarrow> h = g"
  by (induction s arbitrary: h g) (simp_all add: assms)

text \<open>Keys with a common suffix collide only if they collide without it.\<close>

lemma hash_suffix:
  "HASH_BER (p @ s) = HASH_BER (q @ s) \<longleftrightarrow> HASH_BER p = HASH_BER q"
  "HASH_FNV (p @ s) = HASH_FNV (q @ s) \<longleftrightarrow> HASH_FNV p = HASH_FNV q"
  "HASH_OAT (p @ s) = HASH_OAT (q @ s) \<longleftrightarrow> HASH_OAT p = HASH_OAT q"
  by (simp_all add: HASH_BER_def HASH_FNV_def HASH_OAT_def oat_end_inj foldl_inj [of ber_step, OF ber_step_inj]
      foldl_inj [of fnv_step, OF fnv_step_inj] foldl_inj [of oat_step, OF oat_step_inj])

end
