(* ===== verification/Utstring_Find.thy ===== *)
theory Utstring_Find
  imports String_Buffers
begin

text \<open>
  The substring search of utstring.h, by the algorithm of Knuth, Morris and Pratt: the table of a
  needle (\<open>_utstring_BuildTable\<close>), the search with a table (\<open>_utstring_find\<close>), the call that does both
  (\<open>utstring_find\<close>), and the same from right to left. The names lose the leading underscore.

  Positions are of the type \<open>long\<close>, here \<open>int\<close>. An entry of the table that was not yet written is
  \<open>None\<close>; reading it, reading outside of a string and writing outside of the table are faults, and a
  loop that does not end is \<open>NoReturn\<close>. A haystack is the memory of the string with the offset of the
  pointer into it. \<open>malloc\<close> succeeds.
\<close>

section \<open>The code\<close>

definition char_at :: "byte list \<Rightarrow> int \<Rightarrow> byte cres" where
  "char_at p i = (if 0 \<le> i \<and> i < int (length p) then Inr (p ! nat i) else Inl OutOfBounds)"

type_synonym kmp_table = "int option list"

definition long_at :: "kmp_table \<Rightarrow> int \<Rightarrow> int cres" where
  "long_at T i =
     (if 0 \<le> i \<and> i < int (length T) then (case T ! nat i of None \<Rightarrow> Inl BadPointer | Some v \<Rightarrow> Inr v)
      else Inl OutOfBounds)"

definition put_long :: "kmp_table \<Rightarrow> int \<Rightarrow> int \<Rightarrow> kmp_table cres" where
  "put_long T i v = (if 0 \<le> i \<and> i < int (length T) then Inr (T[nat i := Some v]) else Inl OutOfBounds)"

text \<open>The conversion of a \<open>size_t\<close> to \<open>int\<close>.\<close>

definition as_int :: "nat \<Rightarrow> int" where
  "as_int n = sint (of_nat n :: 32 word)"

definition ended :: "'a cres option \<Rightarrow> 'a cres" where
  "ended r = (case r of None \<Rightarrow> Inl NoReturn | Some r \<Rightarrow> r)"

definition chars_differ :: "byte cres \<Rightarrow> byte cres \<Rightarrow> bool cres" where
  "chars_differ x y = c_bind x (\<lambda>x. c_bind y (\<lambda>y. Inr (x \<noteq> y)))"

text \<open>
  The inner loops; the character of the text, \<open>c\<close>, is read in every round. \<open>bound\<close> is the length of
  the needle, as a \<open>long\<close> for the table and as an \<open>int\<close> for the search.
\<close>

partial_function (option) kmp_back :: "byte cres \<Rightarrow> byte list \<Rightarrow> kmp_table \<Rightarrow> int \<Rightarrow> int cres option" where
  "kmp_back c needle T j =
     (if j > -1 then
        (case chars_differ c (char_at needle j) of
           Inl e \<Rightarrow> Some (Inl e)
         | Inr differ \<Rightarrow>
             if differ then (case long_at T j of Inl e \<Rightarrow> Some (Inl e) | Inr j \<Rightarrow> kmp_back c needle T j)
             else Some (Inr j))
      else Some (Inr j))"

partial_function (option) kmp_backR ::
  "byte cres \<Rightarrow> byte list \<Rightarrow> int \<Rightarrow> kmp_table \<Rightarrow> int \<Rightarrow> int cres option" where
  "kmp_backR c needle bound T j =
     (if j < bound then
        (case chars_differ c (char_at needle j) of
           Inl e \<Rightarrow> Some (Inl e)
         | Inr differ \<Rightarrow>
             if differ then (case long_at T (j + 1) of Inl e \<Rightarrow> Some (Inl e) | Inr j \<Rightarrow> kmp_backR c needle bound T j)
             else Some (Inr j))
      else Some (Inr j))"

text \<open>The value that is stored for the moved \<open>i\<close> and \<open>j\<close>.\<close>

definition kmp_entry :: "byte list \<Rightarrow> nat \<Rightarrow> kmp_table \<Rightarrow> int \<Rightarrow> int \<Rightarrow> int cres" where
  "kmp_entry needle len T i j =
     (if i < int len then
        c_bind (chars_differ (char_at needle i) (char_at needle j)) (\<lambda>differ.
          if differ then Inr j else long_at T j)
      else Inr j)"

function build_loop :: "byte list \<Rightarrow> nat \<Rightarrow> int \<Rightarrow> int \<Rightarrow> kmp_table \<Rightarrow> kmp_table cres" where
  "build_loop needle len i j T =
     (if i < int len then
        c_bind (ended (kmp_back (char_at needle i) needle T j)) (\<lambda>j.
        c_bind (kmp_entry needle len T (i + 1) (j + 1)) (\<lambda>v.
        c_bind (put_long T (i + 1) v) (\<lambda>T. build_loop needle len (i + 1) (j + 1) T)))
      else Inr T)"
  by pat_completeness auto
termination by (relation "measure (\<lambda>(needle, len, i, j, T). nat (int len - i))") auto

definition utstring_BuildTable :: "byte list \<Rightarrow> nat \<Rightarrow> kmp_table \<Rightarrow> kmp_table cres" where
  "utstring_BuildTable needle len T =
     c_bind (put_long T 0 (-1)) (\<lambda>T. build_loop needle len 0 (-1) T)"

definition kmp_entryR :: "byte list \<Rightarrow> kmp_table \<Rightarrow> int \<Rightarrow> int \<Rightarrow> int cres" where
  "kmp_entryR needle T i j =
     (if i \<ge> 0 then
        c_bind (chars_differ (char_at needle i) (char_at needle j)) (\<lambda>differ.
          if differ then Inr j else long_at T (j + 1))
      else Inr j)"

function build_loopR :: "byte list \<Rightarrow> nat \<Rightarrow> int \<Rightarrow> int \<Rightarrow> kmp_table \<Rightarrow> kmp_table cres" where
  "build_loopR needle len i j T =
     (if i \<ge> 0 then
        c_bind (ended (kmp_backR (char_at needle i) needle (int len) T j)) (\<lambda>j.
        c_bind (kmp_entryR needle T (i - 1) (j - 1)) (\<lambda>v.
        c_bind (put_long T (i - 1 + 1) v) (\<lambda>T. build_loopR needle len (i - 1) (j - 1) T)))
      else Inr T)"
  by pat_completeness auto
termination by (relation "measure (\<lambda>(needle, len, i, j, T). nat (i + 1))") auto

definition utstring_BuildTableR :: "byte list \<Rightarrow> nat \<Rightarrow> kmp_table \<Rightarrow> kmp_table cres" where
  "utstring_BuildTableR needle len T =
     (let i = int len - 1; j = i + 1
      in c_bind (put_long T (i + 1) j) (\<lambda>T. build_loopR needle len i j T))"

text \<open>The haystack is \<open>hay\<close> from the offset \<open>off\<close> on.\<close>

function find_loop ::
  "byte list \<Rightarrow> int \<Rightarrow> nat \<Rightarrow> byte list \<Rightarrow> nat \<Rightarrow> kmp_table \<Rightarrow> int \<Rightarrow> int \<Rightarrow> int cres" where
  "find_loop hay off haylen needle len T i j =
     (if j < as_int haylen \<and> (of_nat haylen - of_int j + of_int i :: 64 word) \<ge> of_nat len then
        c_bind (ended (kmp_back (char_at hay (off + j)) needle T i)) (\<lambda>i.
          if i + 1 \<ge> as_int len then Inr (j + 1 - (i + 1))
          else find_loop hay off haylen needle len T (i + 1) (j + 1))
      else Inr (-1))"
  by pat_completeness auto
termination
  by (relation "measure (\<lambda>(hay, off, haylen, needle, len, T, i, j). nat (as_int haylen - j))") auto

definition KMP_find :: "byte list \<Rightarrow> int \<Rightarrow> nat \<Rightarrow> byte list \<Rightarrow> nat \<Rightarrow> kmp_table \<Rightarrow> int cres" where
  "KMP_find hay off haylen needle len T = find_loop hay off haylen needle len T 0 0"

function find_loopR :: "byte list \<Rightarrow> byte list \<Rightarrow> nat \<Rightarrow> kmp_table \<Rightarrow> int \<Rightarrow> int \<Rightarrow> int cres" where
  "find_loopR hay needle len T i j =
     (if j \<ge> 0 \<and> j \<ge> i then
        c_bind (ended (kmp_backR (char_at hay j) needle (as_int len) T i)) (\<lambda>i.
          if i - 1 < 0 then Inr (j - 1 + 1) else find_loopR hay needle len T (i - 1) (j - 1))
      else Inr (-1))"
  by pat_completeness auto
termination by (relation "measure (\<lambda>(hay, needle, len, T, i, j). nat (j + 1))") auto

definition KMP_findR :: "byte list \<Rightarrow> nat \<Rightarrow> byte list \<Rightarrow> nat \<Rightarrow> kmp_table \<Rightarrow> int cres" where
  "KMP_findR hay haylen needle len T = find_loopR hay needle len T (int len - 1) (int haylen - 1)"

text \<open>The table comes from \<open>malloc\<close>.\<close>

definition utstring_find :: "utstring \<Rightarrow> int \<Rightarrow> byte list \<Rightarrow> nat \<Rightarrow> int cres" where
  "utstring_find s start needle len =
     (let start = (if start < 0 then int (length (ut_d s)) + start else start);
          haylen = int (length (ut_d s)) - start
      in if haylen \<ge> int len \<and> len > 0 then
           c_bind (utstring_BuildTable needle len (replicate (len + 1) None)) (\<lambda>T.
           c_bind (KMP_find (utstring_body s) start (nat haylen) needle len T) (\<lambda>pos.
             Inr (if pos \<ge> 0 then pos + start else pos)))
         else Inr (-1))"

definition utstring_findR :: "utstring \<Rightarrow> int \<Rightarrow> byte list \<Rightarrow> nat \<Rightarrow> int cres" where
  "utstring_findR s start needle len =
     (let start = (if start < 0 then int (length (ut_d s)) + start else start);
          haylen = start + 1
      in if haylen \<ge> int len \<and> len > 0 then
           c_bind (utstring_BuildTableR needle len (replicate (len + 1) None)) (\<lambda>T.
             KMP_findR (utstring_body s) (nat haylen) needle len T)
         else Inr (-1))"

declare build_loop.simps [simp del] build_loopR.simps [simp del] find_loop.simps [simp del] find_loopR.simps [simp del]

section \<open>Borders\<close>

text \<open>The first \<open>j\<close> characters are the last of the first \<open>i\<close>.\<close>

definition bord :: "byte list \<Rightarrow> nat \<Rightarrow> nat \<Rightarrow> bool" where
  "bord p i j \<longleftrightarrow> j < i \<and> (\<forall>x < j. p ! x = p ! (i - j + x))"

lemma bord_0 [simp]: "bord p i 0 \<longleftrightarrow> 0 < i"
  by (simp add: bord_def)

lemma bord_le: "bord p i j \<Longrightarrow> j < i"
  by (simp add: bord_def)

lemma bord_Suc: "bord p (Suc i) (Suc j) \<longleftrightarrow> bord p i j \<and> p ! j = p ! i"
  by (auto simp: bord_def less_Suc_eq)

lemma bord_trans:
  assumes "bord p i j" and "bord p j k" shows "bord p i k"
  unfolding bord_def
proof (intro conjI allI impI)
  show "k < i" using assms by (simp add: bord_def)
  fix x assume x: "x < k"
  have "p ! x = p ! (j - k + x)" using assms(2) x by (simp add: bord_def)
  also have "\<dots> = p ! (i - j + (j - k + x))"
    using assms(1) x bord_le [OF assms(2)] by (simp add: bord_def)
  finally show "p ! x = p ! (i - k + x)" using assms by (simp add: bord_def)
qed

lemma bord_between:
  assumes "bord p i j" and "bord p i k" and "k < j" shows "bord p j k"
  unfolding bord_def
proof (intro conjI allI impI)
  fix x assume x: "x < k"
  have "p ! x = p ! (i - k + x)" using assms(2) x by (simp add: bord_def)
  moreover have "p ! (j - k + x) = p ! (i - j + (j - k + x))" using assms x by (simp add: bord_def)
  moreover have "i - j + (j - k + x) = i - k + x" using assms by (simp add: bord_def)
  ultimately show "p ! x = p ! (j - k + x)" by simp
qed (rule assms(3))

text \<open>The largest number with a property, or \<open>-1\<close>.\<close>

definition is_best :: "(nat \<Rightarrow> bool) \<Rightarrow> int \<Rightarrow> bool" where
  "is_best Q r \<longleftrightarrow> -1 \<le> r \<and> (0 \<le> r \<longrightarrow> Q (nat r)) \<and> (\<forall>k. Q k \<longrightarrow> int k \<le> r)"

lemma is_best_cong: "(\<And>k. Q k \<longleftrightarrow> Q' k) \<Longrightarrow> is_best Q r = is_best Q' r"
  by (simp add: is_best_def)

lemma is_best_self: "Q j \<Longrightarrow> (\<And>k. Q k \<Longrightarrow> k \<le> j) \<Longrightarrow> is_best Q (int j)"
  by (simp add: is_best_def)

text \<open>An entry of the table is the largest border that goes on with another character.\<close>

definition good_upto :: "byte list \<Rightarrow> nat \<Rightarrow> kmp_table \<Rightarrow> bool" where
  "good_upto p n T \<longleftrightarrow> n \<le> length T
     \<and> (\<forall>i < n. \<exists>v. T ! i = Some v \<and> is_best (\<lambda>k. bord p i k \<and> p ! k \<noteq> p ! i) v)"

section \<open>The mirror image\<close>

text \<open>
  The functions from right to left do the same on the reversed needle, with the positions counted from
  the other end; so does their table.
\<close>

definition mirror :: "nat \<Rightarrow> kmp_table \<Rightarrow> kmp_table" where
  "mirror m T = map (map_option (\<lambda>v. int m - 1 - v)) (rev T)"

lemma char_at_rev: "char_at (rev p) (int (length p) - 1 - i) = char_at p i"
  by (auto simp: char_at_def rev_nth intro!: arg_cong [where f = "(!) p"])

lemma long_at_mirror:
  "length T = m + 1 \<Longrightarrow> long_at (mirror m T) (int m - i) = map_sum id (\<lambda>v. int m - 1 - v) (long_at T i)"
  by (auto simp: long_at_def mirror_def rev_nth nat_diff_distrib split: option.split)

lemma put_long_mirror:
  "length T = m + 1 \<Longrightarrow> put_long (mirror m T) (int m - i) (int m - 1 - v) = map_sum id (mirror m) (put_long T i v)"
  by (auto simp: put_long_def mirror_def rev_update map_update nat_diff_distrib)

lemma kmp_entry_mirror:
  "length T = length p + 1 \<Longrightarrow> kmp_entryR (rev p) (mirror (length p) T) (int (length p) - 1 - i) (int (length p) - 1 - j)
     = map_sum id (\<lambda>v. int (length p) - 1 - v) (kmp_entry p (length p) T i j)"
proof -
  have "int (length p) - 1 - j + 1 = int (length p) - j" "int (length p) - 1 - i \<ge> 0 \<longleftrightarrow> i < int (length p)"
    by linarith+
  moreover assume "length T = length p + 1"
  ultimately show ?thesis
    unfolding kmp_entryR_def kmp_entry_def char_at_rev
    by (auto simp: long_at_mirror chars_differ_def c_bind_def split: sum.split)
qed

section \<open>The inner loop\<close>

definition both_back :: "byte list \<Rightarrow> kmp_table \<Rightarrow> byte \<Rightarrow> int \<Rightarrow> int \<Rightarrow> bool" where
  "both_back p T c j r \<longleftrightarrow> kmp_back (Inr c) p T j = Some (Inr r)
     \<and> kmp_backR (Inr c) (rev p) (int (length p)) (mirror (length p) T) (int (length p) - 1 - j)
         = Some (Inr (int (length p) - 1 - r))"

lemma both_back_stop: "j < 0 \<or> 0 \<le> j \<and> j < int (length p) \<and> p ! nat j = c \<Longrightarrow> both_back p T c j j"
  unfolding both_back_def
  by (subst kmp_back.simps, subst kmp_backR.simps) (auto simp: char_at_rev char_at_def [of p] chars_differ_def)

lemma both_back_step:
  assumes "0 \<le> j" and "j < int (length p)" and "p ! nat j \<noteq> c" and "length T = length p + 1" and "T ! nat j = Some v"
  shows "both_back p T c j r \<longleftrightarrow> both_back p T c v r"
proof -
  have "int (length p) - 1 - j + 1 = int (length p) - j" by simp
  moreover have "long_at T j = Inr v" using assms by (simp add: long_at_def)
  ultimately have "kmp_backR (Inr c) (rev p) (int (length p)) (mirror (length p) T) (int (length p) - 1 - j)
      = kmp_backR (Inr c) (rev p) (int (length p)) (mirror (length p) T) (int (length p) - 1 - v)"
    "kmp_back (Inr c) p T j = kmp_back (Inr c) p T v"
    using assms long_at_mirror [OF assms(4), of j]
    by (subst kmp_backR.simps kmp_back.simps; simp add: char_at_rev char_at_def [of p] chars_differ_def)+
  then show ?thesis by (simp add: both_back_def)
qed

lemma both_back_ok:
  assumes "good_upto p (Suc j) T" and "j < length p" and "length T = length p + 1"
  shows "\<exists>r. both_back p T c (int j) r \<and> is_best (\<lambda>k. (k = j \<or> bord p j k) \<and> p ! k = c) r"
  using assms(1,2)
proof (induction j rule: less_induct)
  case (less j)
  show ?case
  proof (cases "p ! j = c")
    case True
    have "both_back p T c (int j) (int j)" using True less.prems(2) by (intro both_back_stop) simp
    moreover have "is_best (\<lambda>k. (k = j \<or> bord p j k) \<and> p ! k = c) (int j)"
      using True by (intro is_best_self) (auto dest: bord_le)
    ultimately show ?thesis by blast
  next
    case False
    obtain v where v: "T ! j = Some v" "is_best (\<lambda>k. bord p j k \<and> p ! k \<noteq> p ! j) v"
      using less.prems(1) by (auto simp: good_upto_def)
    have step: "both_back p T c (int j) r \<longleftrightarrow> both_back p T c v r" for r
      using False v(1) less.prems(2) assms(3) by (intro both_back_step) simp_all
    show ?thesis
    proof (cases "v < 0")
      case True
      then have "both_back p T c v v" by (intro both_back_stop) simp
      moreover have "is_best (\<lambda>k. (k = j \<or> bord p j k) \<and> p ! k = c) v"
        using True v(2) False by (auto simp: is_best_def)
      ultimately show ?thesis using step by blast
    next
      case neg: False
      then obtain m where m: "v = int m" by (metis nonneg_int_cases linorder_not_less)
      have mj: "bord p j m" using v(2) m by (simp add: is_best_def)
      obtain r where r: "both_back p T c (int m) r" "is_best (\<lambda>k. (k = m \<or> bord p m k) \<and> p ! k = c) r"
        using less.IH [OF bord_le [OF mj]] less.prems bord_le [OF mj] by (auto simp: good_upto_def)
      have "(k = j \<or> bord p j k) \<and> p ! k = c \<longleftrightarrow> (k = m \<or> bord p m k) \<and> p ! k = c" for k
      proof
        assume k: "(k = j \<or> bord p j k) \<and> p ! k = c"
        then have "bord p j k" "p ! k \<noteq> p ! j" using False by auto
        then have "k \<le> m" using v(2) m by (auto simp: is_best_def)
        then show "(k = m \<or> bord p m k) \<and> p ! k = c"
          using k \<open>bord p j k\<close> bord_between [OF mj, of k] by (cases "k = m") auto
      next
        assume "(k = m \<or> bord p m k) \<and> p ! k = c"
        then show "(k = j \<or> bord p j k) \<and> p ! k = c" using mj bord_trans by blast
      qed
      then have "is_best (\<lambda>k. (k = j \<or> bord p j k) \<and> p ! k = c) r"
        using r(2) by (simp add: is_best_def)
      then show ?thesis using step r(1) m by blast
    qed
  qed
qed

section \<open>The table\<close>

lemma good_upto_put:
  assumes "good_upto p n T" and "n < length T" and "is_best (\<lambda>k. bord p n k \<and> p ! k \<noteq> p ! n) v"
  shows "good_upto p (Suc n) (T[n := Some v])"
  using assms by (auto simp: good_upto_def less_Suc_eq nth_list_update)

lemma is_best_bord_Suc:
  assumes "is_best (\<lambda>k. bord p i k \<and> p ! k = p ! i) r"
  shows "is_best (bord p (Suc i)) (r + 1)"
  unfolding is_best_def
proof (intro conjI impI allI)
  show "- 1 \<le> r + 1" using assms by (simp add: is_best_def)
next
  show "bord p (Suc i) (nat (r + 1))"
  proof (cases "r < 0")
    case True
    then have "r + 1 = 0" using assms by (simp add: is_best_def)
    then show ?thesis by simp
  next
    case False
    then have "nat (r + 1) = Suc (nat r)" by simp
    then show ?thesis using assms False by (simp add: is_best_def bord_Suc)
  qed
next
  fix k assume k: "bord p (Suc i) k"
  show "int k \<le> r + 1"
  proof (cases k)
    case 0
    then show ?thesis using assms by (simp add: is_best_def)
  next
    case (Suc l)
    then show ?thesis using assms k by (simp add: is_best_def bord_Suc)
  qed
qed

text \<open>One round: from the largest border of the first \<open>i\<close> characters to that of one more.\<close>

lemma both_back_next:
  assumes "good_upto p i T" and "i < length p" and "is_best (bord p i) j" and "length T = length p + 1"
  obtains r where "both_back p T (p ! i) j r" "is_best (bord p (Suc i)) (r + 1)"
proof (cases "j < 0")
  case True
  then have "both_back p T (p ! i) j j" by (intro both_back_stop) simp
  moreover have "is_best (\<lambda>k. bord p i k \<and> p ! k = p ! i) j" using True assms(3) by (auto simp: is_best_def)
  ultimately show ?thesis by (intro that is_best_bord_Suc)
next
  case False
  then obtain m where m: "j = int m" by (metis nonneg_int_cases linorder_not_less)
  have bm: "bord p i m" using assms(3) m by (simp add: is_best_def)
  obtain r where r: "both_back p T (p ! i) (int m) r" "is_best (\<lambda>k. (k = m \<or> bord p m k) \<and> p ! k = p ! i) r"
    using both_back_ok [of p m T "p ! i"] assms(1,2,4) bord_le [OF bm] by (auto simp: good_upto_def)
  have "k = m \<or> bord p m k \<longleftrightarrow> bord p i k" for k
  proof
    assume "bord p i k"
    moreover from this have "k \<le> m" using assms(3) m by (auto simp: is_best_def)
    ultimately show "k = m \<or> bord p m k" using bord_between [OF bm, of k] by (cases "k = m") auto
  qed (use bm bord_trans in blast)
  then have "is_best (\<lambda>k. bord p i k \<and> p ! k = p ! i) r" using r(2) by simp
  then show ?thesis using r(1) m by (intro that is_best_bord_Suc) simp_all
qed

lemma kmp_entry_ok:
  assumes "good_upto p i T" and "0 < i" and "i < length p" and "is_best (bord p i) j"
  obtains v where "kmp_entry p (length p) T (int i) j = Inr v" "is_best (\<lambda>k. bord p i k \<and> p ! k \<noteq> p ! i) v"
proof -
  have "0 \<le> j" using assms(2,4) by (auto simp: is_best_def dest: spec [of _ 0])
  then obtain m where m: "j = int m" by (metis nonneg_int_cases)
  have bm: "bord p i m" using assms(4) m by (simp add: is_best_def)
  have max: "k \<le> m" if "bord p i k" for k using assms(4) m that by (auto simp: is_best_def)
  have rd: "char_at p (int i) = Inr (p ! i)" "char_at p j = Inr (p ! m)"
    using assms(3) bord_le [OF bm] by (simp_all add: char_at_def m)
  obtain v where v: "T ! m = Some v" "is_best (\<lambda>k. bord p m k \<and> p ! k \<noteq> p ! m) v" "m < length T"
    using assms(1) bord_le [OF bm] by (auto simp: good_upto_def)
  show ?thesis
  proof (cases "p ! i = p ! m")
    case True
    have "bord p i k \<and> p ! k \<noteq> p ! i \<longleftrightarrow> bord p m k \<and> p ! k \<noteq> p ! m" for k
      using True bm bord_trans [OF bm] bord_between [OF bm, of k] max [of k]
      by (cases "k = m") auto
    then have "is_best (\<lambda>k. bord p i k \<and> p ! k \<noteq> p ! i) v" using v(2) by simp
    then show ?thesis
      using True rd v(1,3) assms(3) by (intro that [of v]) (simp_all add: kmp_entry_def chars_differ_def long_at_def m)
  next
    case False
    then have "is_best (\<lambda>k. bord p i k \<and> p ! k \<noteq> p ! i) j"
      unfolding m using bm max by (intro is_best_self) auto
    then show ?thesis using False rd assms(3) by (intro that [of j]) (simp_all add: kmp_entry_def chars_differ_def)
  qed
qed

lemma build_loop_ok:
  assumes "good_upto p (min (length p) (Suc i)) T" and "length T = length p + 1" and "i \<le> length p" and "is_best (bord p i) j"
  shows "\<exists>T'. build_loop p (length p) (int i) j T = Inr T' \<and> good_upto p (length p) T' \<and> length T' = length p + 1
     \<and> build_loopR (rev p) (length p) (int (length p) - 1 - int i) (int (length p) - 1 - j) (mirror (length p) T)
         = Inr (mirror (length p) T')"
  using assms
proof (induction "length p - i" arbitrary: i j T)
  case 0
  then show ?case
    by (subst build_loop.simps, subst build_loopR.simps) (simp add: min_def split: if_splits)
next
  case (Suc n)
  then have i: "i < length p" by simp
  have good: "good_upto p (Suc i) T" using Suc.prems(1) min_absorb2 [of "Suc i" "length p"] i by simp
  obtain r where r: "both_back p T (p ! i) j r" "is_best (bord p (Suc i)) (r + 1)"
    by (rule both_back_next [OF _ i Suc.prems(4,2)]) (use good in \<open>auto simp: good_upto_def\<close>)
  note b = r(1) [unfolded both_back_def]
  have rd: "char_at p (int i) = Inr (p ! i)" using i by (simp add: char_at_def)
  have "\<exists>v. kmp_entry p (length p) T (int (Suc i)) (r + 1) = Inr v
     \<and> good_upto p (min (length p) (Suc (Suc i))) (T[Suc i := Some v])"
  proof (cases "Suc i < length p")
    case True
    obtain v where v: "kmp_entry p (length p) T (int (Suc i)) (r + 1) = Inr v"
      "is_best (\<lambda>k. bord p (Suc i) k \<and> p ! k \<noteq> p ! Suc i) v"
      by (rule kmp_entry_ok [OF good _ True r(2)]) simp
    moreover have "min (length p) (Suc (Suc i)) = Suc (Suc i)" using True by simp
    ultimately show ?thesis using good_upto_put [OF good _ v(2)] True Suc.prems(2) by auto
  next
    case False
    then have "Suc i = length p" using i by simp
    then show ?thesis using good Suc.prems(2) by (auto simp: kmp_entry_def good_upto_def)
  qed
  then obtain v where v: "kmp_entry p (length p) T (int i + 1) (r + 1) = Inr v"
    "good_upto p (min (length p) (Suc (Suc i))) (T[Suc i := Some v])" by (auto simp: add.commute)
  let ?m = "int (length p)"
  let ?T = "T[Suc i := Some v]"
  have put: "put_long T (int i + 1) v = Inr ?T"
    using i Suc.prems(2) by (simp add: put_long_def nat_add_distrib)
  have "\<exists>T'. build_loop p (length p) (int (Suc i)) (r + 1) ?T = Inr T'
     \<and> good_upto p (length p) T' \<and> length T' = length p + 1
     \<and> build_loopR (rev p) (length p) (?m - 1 - int (Suc i)) (?m - 1 - (r + 1)) (mirror (length p) ?T)
         = Inr (mirror (length p) T')"
    using Suc.hyps(2) Suc.prems(2) i by (intro Suc.hyps(1) v(2) r(2)) simp_all
  then obtain T' where T': "build_loop p (length p) (int i + 1) (r + 1) ?T = Inr T'" "good_upto p (length p) T'"
    "length T' = length p + 1"
    "build_loopR (rev p) (length p) (?m - 1 - (int i + 1)) (?m - 1 - (r + 1)) (mirror (length p) ?T)
         = Inr (mirror (length p) T')"
    by (auto simp: add.commute)
  have "build_loop p (length p) (int i) j T = Inr T'"
    by (subst build_loop.simps)
      (simp only: rd b ended_def v(1) put of_nat_less_iff i if_True option.case c_bind_simps T'(1))
  moreover have "build_loopR (rev p) (length p) (?m - 1 - int i) (?m - 1 - j) (mirror (length p) T)
      = Inr (mirror (length p) T')"
  proof -
    have e: "?m - 1 - int i - 1 = ?m - 1 - (int i + 1)" "?m - 1 - r - 1 = ?m - 1 - (r + 1)"
      "?m - 1 - (int i + 1) + 1 = ?m - (int i + 1)" "?m - 1 - int i \<ge> 0 \<longleftrightarrow> True" using i by auto
    show ?thesis
      by (subst build_loopR.simps)
        (simp only: e char_at_rev rd b ended_def option.case c_bind_simps if_True kmp_entry_mirror [OF Suc.prems(2)]
          v(1) map_sum.simps put_long_mirror [OF Suc.prems(2)] put T'(4) id_apply)
  qed
  ultimately show ?case using T'(2,3) by blast
qed

lemma BuildTable_ok:
  assumes "p \<noteq> []" and "length T = length p + 1"
  obtains T' where "utstring_BuildTable p (length p) T = Inr T'" "good_upto p (length p) T'" "length T' = length p + 1"
    "utstring_BuildTableR (rev p) (length p) (mirror (length p) T) = Inr (mirror (length p) T')"
proof -
  let ?T = "T[0 := Some (-1)]"
  let ?m = "int (length p)"
  have "min (length p) (Suc 0) = Suc 0" using assms(1) by (simp add: Suc_leI)
  then have "good_upto p (min (length p) (Suc 0)) ?T"
    using assms by (auto simp: good_upto_def is_best_def bord_def)
  moreover have "is_best (bord p 0) (-1)" by (simp add: is_best_def bord_def)
  ultimately obtain T' where "build_loop p (length p) (int 0) (-1) ?T = Inr T'" "good_upto p (length p) T'"
    "length T' = length p + 1"
    "build_loopR (rev p) (length p) (?m - 1 - int 0) (?m - 1 - - 1) (mirror (length p) ?T) = Inr (mirror (length p) T')"
    using build_loop_ok [of p 0 ?T "-1"] assms(2) by auto
  moreover have "put_long T 0 (-1) = Inr ?T" using assms by (simp add: put_long_def)
  ultimately show ?thesis
    using put_long_mirror [OF assms(2), of 0 "-1"]
    by (intro that) (simp_all add: utstring_BuildTable_def utstring_BuildTableR_def Let_def)
qed

section \<open>The search\<close>

text \<open>\<open>p\<close> stands at the position \<open>q\<close> of a text.\<close>

definition occurs :: "byte list \<Rightarrow> byte list \<Rightarrow> nat \<Rightarrow> bool" where
  "occurs p t q \<longleftrightarrow> q + length p \<le> length t \<and> (\<forall>x < length p. t ! (q + x) = p ! x)"

lemma occurs_take: "occurs p t q \<longleftrightarrow> q + length p \<le> length t \<and> take (length p) (drop q t) = p"
  by (auto simp: occurs_def list_eq_iff_nth_eq)

text \<open>The last \<open>i\<close> characters that were read are the first of the needle, and it stands nowhere before.\<close>

definition matched :: "byte list \<Rightarrow> byte list \<Rightarrow> nat \<Rightarrow> nat \<Rightarrow> bool" where
  "matched p t i j \<longleftrightarrow> i \<le> j \<and> j \<le> length t \<and> (\<forall>x < i. t ! (j - i + x) = p ! x)
     \<and> (\<forall>q. occurs p t q \<longrightarrow> j - i \<le> q)"

lemma matched_next:
  assumes m: "matched p t i j" and i: "i < length p" and j: "j < length t"
    and r: "is_best (\<lambda>k. (k = i \<or> bord p i k) \<and> p ! k = t ! j) r"
  shows "matched p t (nat (r + 1)) (Suc j)"
proof -
  have old: "\<And>x. x < i \<Longrightarrow> t ! (j - i + x) = p ! x" "i \<le> j" and first: "\<And>q. occurs p t q \<Longrightarrow> j - i \<le> q"
    using m by (auto simp: matched_def)
  have r1: "- 1 \<le> r" using r by (simp add: is_best_def)
  have here: "nat (r + 1) \<le> Suc j \<and> (\<forall>x < nat (r + 1). t ! (Suc j - nat (r + 1) + x) = p ! x)"
  proof (cases "r < 0")
    case True
    then show ?thesis using r1 by simp
  next
    case False
    then obtain k where k: "r = int k" by (metis nonneg_int_cases linorder_not_less)
    have b: "k = i \<or> bord p i k" and c: "p ! k = t ! j" using r k by (simp_all add: is_best_def)
    have le: "k \<le> i" using b by (auto dest: bord_le)
    have "t ! (j - k + x) = p ! x" if x: "x < Suc k" for x
    proof (cases "x = k")
      case True
      then show ?thesis using c le old(2) by simp
    next
      case False
      then have x: "x < k" using x by simp
      have "t ! (j - i + (i - k + x)) = p ! (i - k + x)" using x le by (intro old(1)) simp
      also have "\<dots> = p ! x" using b x by (auto simp: bord_def)
      finally show ?thesis using le old(2) by simp
    qed
    then show ?thesis using le old(2) by (simp add: k nat_add_distrib)
  qed
  moreover have "Suc j - nat (r + 1) \<le> q" if q: "occurs p t q" for q
  proof (rule ccontr)
    assume lt: "\<not> Suc j - nat (r + 1) \<le> q"
    define k where "k = j - q"
    have qj: "q \<le> j" "j - i \<le> q" using lt first [OF q] by simp_all
    have k: "k \<le> i" "q + k = j" using qj old(2) by (auto simp: k_def)
    have "p ! k = t ! j" using q k i by (auto simp: occurs_def)
    moreover have "k = i \<or> bord p i k"
    proof (cases "k = i")
      case False
      have "p ! x = p ! (i - k + x)" if x: "x < k" for x
      proof -
        have "p ! x = t ! (q + x)" using q x k i by (simp add: occurs_def)
        also have "q + x = j - i + (i - k + x)" using k old(2) x by linarith
        also have "t ! \<dots> = p ! (i - k + x)" using x k by (intro old(1)) linarith
        finally show ?thesis .
      qed
      then show ?thesis using False k by (simp add: bord_def)
    qed simp
    ultimately have "int k \<le> r" using r by (simp add: is_best_def)
    then show False using lt k r1 by linarith
  qed
  ultimately show ?thesis using j by (auto simp: matched_def)
qed

lemma as_int_small: "n < 2 ^ 31 \<Longrightarrow> as_int n = int n"
  unfolding as_int_def
  using signed_take_bit_int_eq_self [of 31 "int n"] by (simp add: signed_of_nat)

lemma room_test:
  assumes "j \<le> n" and "n < 2 ^ 31" and "m < 2 ^ 31" and "i < 2 ^ 31"
  shows "(of_nat n - of_int (int j) + of_int (int i) :: 64 word) \<ge> of_nat m \<longleftrightarrow> m + j \<le> n + i"
proof -
  have e: "(of_nat n - of_int (int j) + of_int (int i) :: 64 word) = of_nat (n - j + i)"
    using assms(1) by simp
  have small: "unat (of_nat k :: 64 word) = k" if "k < 2 ^ 33" for k using that by (simp add: unat_of_nat)
  have u: "unat (of_nat (n - j + i) :: 64 word) = n - j + i"
    using assms by (intro small) simp
  have v: "unat (of_nat m :: 64 word) = m" using assms by (intro small) simp
  show ?thesis unfolding word_le_nat_alt e u v using assms(1) by linarith
qed

text \<open>The memory of the mirrored text holds its characters in the other order.\<close>

lemma find_loop_ok:
  fixes p t :: "byte list"
  defines "m \<equiv> int (length p)" and "n \<equiv> int (length t)"
  assumes "good_upto p (length p) T" and "length T = length p + 1" and "length p < 2 ^ 31" and "length t < 2 ^ 31"
    and "\<And>x. x < length t \<Longrightarrow> char_at hay (off + int x) = Inr (t ! x)"
    and "\<And>x. x < length t \<Longrightarrow> char_at hayR (n - 1 - int x) = Inr (t ! x)"
    and "matched p t i j" and "i < length p"
  shows "\<exists>r. find_loop hay off (length t) p (length p) T (int i) (int j) = Inr r
     \<and> find_loopR hayR (rev p) (length p) (mirror (length p) T) (m - 1 - int i) (n - 1 - int j)
          = Inr (if r = -1 then -1 else n - m - r)
     \<and> (r = -1 \<and> (\<forall>q. \<not> occurs p t q) \<or> (\<exists>q. r = int q \<and> occurs p t q \<and> (\<forall>q'. occurs p t q' \<longrightarrow> q \<le> q')))"
  using assms(9,10)
proof (induction "length t - j" arbitrary: i j rule: less_induct)
  case less
  have j: "j \<le> length t" "i \<le> j" using less.prems(1) by (auto simp: matched_def)
  have test: "int j < as_int (length t) \<and>
      (of_nat (length t) - of_int (int j) + of_int (int i) :: 64 word) \<ge> of_nat (length p)
      \<longleftrightarrow> j < length t \<and> length p + j \<le> length t + i"
    using as_int_small [OF assms(6)] room_test [of j "length t" "length p" i] assms(5,6) j less.prems(2) by auto
  have testR: "n - 1 - int j \<ge> 0 \<and> n - 1 - int j \<ge> m - 1 - int i \<longleftrightarrow> j < length t \<and> length p + j \<le> length t + i"
    by (auto simp: m_def n_def)
  show ?case
  proof (cases "j < length t \<and> length p + j \<le> length t + i")
    case False
    have "find_loop hay off (length t) p (length p) T (int i) (int j) = Inr (-1)"
      using False by (subst find_loop.simps) (simp only: test if_False)
    moreover have "find_loopR hayR (rev p) (length p) (mirror (length p) T) (m - 1 - int i) (n - 1 - int j) = Inr (-1)"
      using False by (subst find_loopR.simps) (simp only: testR if_False)
    moreover have "\<not> occurs p t q" for q
      using less.prems False j by (auto simp: matched_def occurs_def)
    ultimately show ?thesis by simp
  next
    case True
    obtain r where r: "both_back p T (t ! j) (int i) r"
      "is_best (\<lambda>k. (k = i \<or> bord p i k) \<and> p ! k = t ! j) r"
      using both_back_ok [of p i T "t ! j"] assms(3,4) less.prems(2) by (auto simp: good_upto_def)
    have nxt: "matched p t (nat (r + 1)) (Suc j)"
      using less.prems True r(2) by (intro matched_next) auto
    have r1: "- 1 \<le> r" "r \<le> int i" using r(2) by (auto simp: is_best_def dest: bord_le)
    have run: "find_loop hay off (length t) p (length p) T (int i) (int j) =
      (if r + 1 \<ge> m then Inr (int j + 1 - (r + 1))
       else find_loop hay off (length t) p (length p) T (r + 1) (int j + 1))"
      using True test assms(7) [of j] r(1) as_int_small [OF assms(5)]
      by (subst find_loop.simps) (simp only: test if_True, simp add: ended_def both_back_def m_def)
    have "find_loopR hayR (rev p) (length p) (mirror (length p) T) (m - 1 - int i) (n - 1 - int j) =
      (if m - 1 - r - 1 < 0 then Inr (n - 1 - int j - 1 + 1)
       else find_loopR hayR (rev p) (length p) (mirror (length p) T) (m - 1 - r - 1) (n - 1 - int j - 1))"
      using True testR assms(8) [of j] r(1) as_int_small [OF assms(5)]
      by (subst find_loopR.simps) (simp only: testR if_True, simp add: ended_def both_back_def m_def)
    moreover have "m - 1 - r - 1 = m - 1 - (r + 1)" "n - 1 - int j - 1 = n - 1 - (int j + 1)" by simp_all
    ultimately have runR: "find_loopR hayR (rev p) (length p) (mirror (length p) T) (m - 1 - int i) (n - 1 - int j) =
      (if r + 1 \<ge> m then Inr (n - 1 - int j)
       else find_loopR hayR (rev p) (length p) (mirror (length p) T) (m - 1 - (r + 1)) (n - 1 - (int j + 1)))"
      by simp
    show ?thesis
    proof (cases "r + 1 \<ge> m")
      case True
      then have ri: "r = int i" "Suc i = length p" using r1 less.prems(2) by (simp_all add: m_def)
      then have "nat (r + 1) = length p" "Suc j - length p = j - i" by linarith+
      then have "occurs p t (j - i)" and "\<forall>q'. occurs p t q' \<longrightarrow> j - i \<le> q'"
        using nxt j ri(2) by (auto simp: matched_def occurs_def)
      moreover have "find_loop hay off (length t) p (length p) T (int i) (int j) = Inr (int (j - i))"
        using run True ri j by simp
      moreover have "n - 1 - int j = n - m - int (j - i)" using ri j by (simp add: m_def)
      ultimately show ?thesis using runR True by auto
    next
      case False
      have i': "int (nat (r + 1)) = r + 1" "int (Suc j) = int j + 1" "nat (r + 1) < length p"
        "length t - Suc j < length t - j"
        using r1 False \<open>j < length t \<and> _\<close> by (simp_all add: diff_less_mono2 m_def)
      show ?thesis
        using less.hyps [OF i'(4) nxt i'(3)] False unfolding run runR i'(1,2) by simp
    qed
  qed
qed

text \<open>Table and search, from both sides.\<close>

lemma KMP_find_ok:
  assumes "p \<noteq> []" and "length p < 2 ^ 31" and "length t < 2 ^ 31"
    and "\<And>x. x < length t \<Longrightarrow> char_at hay (off + int x) = Inr (t ! x)"
    and "\<And>x. x < length t \<Longrightarrow> char_at hayR (int (length t) - 1 - int x) = Inr (t ! x)"
  obtains T TR r where "utstring_BuildTable p (length p) (replicate (length p + 1) None) = Inr T"
    "KMP_find hay off (length t) p (length p) T = Inr r"
    "utstring_BuildTableR (rev p) (length p) (replicate (length p + 1) None) = Inr TR"
    "KMP_findR hayR (length t) (rev p) (length p) TR
       = Inr (if r = -1 then -1 else int (length t) - int (length p) - r)"
    "r = -1 \<and> (\<forall>q. \<not> occurs p t q) \<or> (\<exists>q. r = int q \<and> occurs p t q \<and> (\<forall>q'. occurs p t q' \<longrightarrow> q \<le> q'))"
proof -
  have "mirror (length p) (replicate (length p + 1) None) = replicate (length p + 1) None"
    by (simp add: mirror_def del: replicate_Suc)
  then obtain T where T: "utstring_BuildTable p (length p) (replicate (length p + 1) None) = Inr T"
    "good_upto p (length p) T" "length T = length p + 1"
    "utstring_BuildTableR (rev p) (length p) (replicate (length p + 1) None) = Inr (mirror (length p) T)"
    using BuildTable_ok [OF assms(1), of "replicate (length p + 1) None"] by (metis length_replicate)
  have "matched p t 0 0" "0 < length p" using assms(1) by (auto simp: matched_def)
  from find_loop_ok [OF T(2,3) assms(2-5) this] T(1,4) that show ?thesis
    by (auto simp: KMP_find_def KMP_findR_def)
qed

text \<open>What the search means: the first position from \<open>k\<close> on at which \<open>p\<close> stands in \<open>t\<close>, or \<open>-1\<close>.\<close>

definition stands :: "byte list \<Rightarrow> byte list \<Rightarrow> nat \<Rightarrow> bool" where
  "stands p t q \<longleftrightarrow> take (length p) (drop q t) = p"

definition first_at :: "byte list \<Rightarrow> byte list \<Rightarrow> nat \<Rightarrow> int" where
  "first_at p t k = (case find (stands p t) [k ..< length t] of None \<Rightarrow> -1 | Some q \<Rightarrow> int q)"

lemma stands_inside: "stands p t q \<Longrightarrow> p \<noteq> [] \<Longrightarrow> q + length p \<le> length t"
  unfolding stands_def by (metis drop_all length_drop length_take linorder_not_less min.absorb_iff2 min_def
      ordered_cancel_comm_monoid_diff_class.le_diff_conv2 add.commute nat_le_linear take_Nil)

lemma occurs_drop: "p \<noteq> [] \<Longrightarrow> occurs p (drop k t) q \<longleftrightarrow> stands p t (k + q)"
  using stands_inside [of p t "k + q"] by (auto simp: occurs_take stands_def add.commute)

lemma first_at_Some:
  assumes "stands p t q" and "p \<noteq> []" and "k \<le> q" and "\<And>x. k \<le> x \<Longrightarrow> x < q \<Longrightarrow> \<not> stands p t x"
  shows "first_at p t k = int q"
proof -
  have "q < length t" using stands_inside [OF assms(1,2)] assms(2) by (cases p) simp_all
  then have "find (stands p t) [k ..< length t] = Some q"
    using assms by (auto simp: find_Some_iff intro!: exI [of _ "q - k"])
  then show ?thesis by (simp add: first_at_def)
qed

lemma first_at_None:
  assumes "\<And>x. k \<le> x \<Longrightarrow> \<not> stands p t x" shows "first_at p t k = -1"
proof -
  have "find (stands p t) [k ..< length t] = None" using assms by (simp add: find_None_iff)
  then show ?thesis by (simp add: first_at_def)
qed

text \<open>The effective start of a search.\<close>

definition from_pos :: "utstring \<Rightarrow> int \<Rightarrow> int" where
  "from_pos s start = (if start < 0 then int (length (ut_d s)) + start else start)"

text \<open>C25: From a start inside of the string, \<open>utstring_find\<close> returns the first position at which the
  needle stands, or \<open>-1\<close>: the search with the table of failures is equivalent to trying every position.
  No step reads outside of the string, the needle or the written part of the table, and every loop ends.\<close>

theorem utstring_find_first:
  assumes "p \<noteq> []" and "length (ut_d s) < 2 ^ 31" and "0 \<le> from_pos s start"
  shows "utstring_find s start p (length p) = Inr (first_at p (ut_d s) (nat (from_pos s start)))"
proof -
  define k where "k = nat (from_pos s start)"
  define t where "t = drop k (ut_d s)"
  have k: "from_pos s start = int k" using assms(3) by (simp add: k_def)
  show ?thesis
  proof (cases "k + length p \<le> length (ut_d s)")
    case False
    have "\<not> stands p (ut_d s) x" if "k \<le> x" for x
      using stands_inside [of p "ut_d s" x] assms(1) that False by auto
    then have "first_at p (ut_d s) k = -1" by (rule first_at_None)
    then show ?thesis
      using False k by (simp add: utstring_find_def Let_def flip: from_pos_def)
  next
    case True
    have hay: "char_at (utstring_body s) (int k + int x) = Inr (t ! x)" if "x < length t" for x
      using that by (auto simp: char_at_def utstring_body_def t_def nth_append nat_add_distrib)
    have hayR: "char_at (rev t) (int (length t) - 1 - int x) = Inr (t ! x)" if "x < length t" for x
      using that char_at_rev [of t "int x"] by (simp add: char_at_def [of t])
    obtain T r where T: "utstring_BuildTable p (length p) (replicate (length p + 1) None) = Inr T"
      "KMP_find (utstring_body s) (int k) (length t) p (length p) T = Inr r"
      "r = -1 \<and> (\<forall>q. \<not> occurs p t q) \<or> (\<exists>q. r = int q \<and> occurs p t q \<and> (\<forall>q'. occurs p t q' \<longrightarrow> q \<le> q'))"
      by (rule KMP_find_ok [OF assms(1) _ _ hay hayR]) (use assms(2) True in \<open>auto simp: t_def\<close>)
    have len: "nat (int (length (ut_d s)) - int k) = length t" "int (length (ut_d s)) - int k \<ge> int (length p)"
      using True by (simp_all add: t_def)
    have run: "utstring_find s start p (length p) = Inr (if r \<ge> 0 then r + int k else r)"
      unfolding utstring_find_def from_pos_def [symmetric] k Let_def len(1)
      using T(1,2) len(2) assms(1) by simp
    from T(3) show ?thesis
    proof
      assume none: "r = -1 \<and> (\<forall>q. \<not> occurs p t q)"
      have "\<not> stands p (ut_d s) x" if "k \<le> x" for x
        using none occurs_drop [OF assms(1), of k "ut_d s" "x - k"] that by (simp add: t_def)
      then show ?thesis using run none first_at_None [of k p "ut_d s"] by (simp add: k_def)
    next
      assume "\<exists>q. r = int q \<and> occurs p t q \<and> (\<forall>q'. occurs p t q' \<longrightarrow> q \<le> q')"
      then obtain q where q: "r = int q" "occurs p t q" "\<And>q'. occurs p t q' \<Longrightarrow> q \<le> q'" by blast
      have "first_at p (ut_d s) k = int (k + q)"
      proof (rule first_at_Some [OF _ assms(1)])
        show "stands p (ut_d s) (k + q)" using q(2) occurs_drop [OF assms(1)] by (simp add: t_def)
        fix x assume x: "k \<le> x" "x < k + q"
        show "\<not> stands p (ut_d s) x"
          using q(3) [of "x - k"] occurs_drop [OF assms(1), of k "ut_d s" "x - k"] x by (auto simp: t_def)
      qed simp
      then show ?thesis using run q(1) by (simp add: k_def)
    qed
  qed
qed

lemma ascii_length: "length (ascii s) = length s"
  by (simp add: ascii_def)

lemma utstring_find_first_witness:
  "utstring_find \<lparr>ut_d = ascii ''say banana'', ut_n = 100\<rparr> (-9) (ascii ''ana'') 3 = Inr 5"
proof -
  let ?s = "\<lparr>ut_d = ascii ''say banana'', ut_n = 100\<rparr>"
  have "ascii ''ana'' \<noteq> []" "length (ut_d ?s) < 2 ^ 31" "0 \<le> from_pos ?s (-9)"
    by (simp_all add: ascii_def from_pos_def)
  moreover have "length (ascii ''ana'') = 3" by (simp add: ascii_def)
  ultimately have "utstring_find ?s (-9) (ascii ''ana'') 3 = Inr (first_at (ascii ''ana'') (ascii ''say banana'') 1)"
    using utstring_find_first [of "ascii ''ana''" ?s "-9"] by (simp add: from_pos_def ascii_length numeral_3_eq_3)
  also have "first_at (ascii ''ana'') (ascii ''say banana'') 1 = 5" by code_simp
  finally show ?thesis .
qed

section \<open>The search from right to left\<close>

lemma occurs_revI:
  assumes "occurs p t q" shows "occurs (rev p) (rev t) (length t - length p - q)"
  unfolding occurs_def length_rev
proof (intro conjI allI impI)
  have q: "q + length p \<le> length t" "\<And>x. x < length p \<Longrightarrow> t ! (q + x) = p ! x"
    using assms by (auto simp: occurs_def)
  show "length t - length p - q + length p \<le> length t" using q(1) by simp
  fix x assume x: "x < length p"
  have "rev t ! (length t - length p - q + x) = t ! (length t - Suc (length t - length p - q + x))"
    using x q(1) by (intro rev_nth) simp
  also have "length t - Suc (length t - length p - q + x) = q + (length p - Suc x)" using x q(1) by linarith
  also have "t ! \<dots> = p ! (length p - Suc x)" using x by (intro q(2)) simp
  also have "\<dots> = rev p ! x" using x by (simp add: rev_nth)
  finally show "rev t ! (length t - length p - q + x) = rev p ! x" .
qed

text \<open>The last position at which \<open>p\<close> stands inside of \<open>t\<close>, or \<open>-1\<close>.\<close>

definition last_at :: "byte list \<Rightarrow> byte list \<Rightarrow> int" where
  "last_at p t = (case find (stands p t) (rev [0 ..< length t]) of None \<Rightarrow> -1 | Some q \<Rightarrow> int q)"

lemma last_at_Some:
  assumes "stands p t q" and "p \<noteq> []" and "\<And>x. q < x \<Longrightarrow> \<not> stands p t x"
  shows "last_at p t = int q"
proof -
  have "q < length t" using stands_inside [OF assms(1,2)] assms(2) by (cases p) simp_all
  then have "find (stands p t) (rev [0 ..< length t]) = Some q"
    using assms(1,3) by (auto simp: find_Some_iff rev_nth intro!: exI [of _ "length t - Suc q"])
  then show ?thesis by (simp add: last_at_def)
qed

lemma last_at_None: "(\<And>x. \<not> stands p t x) \<Longrightarrow> last_at p t = -1"
  by (simp add: last_at_def find_None_iff [THEN iffD2])

lemma occurs_stands: "p \<noteq> [] \<Longrightarrow> occurs p t q \<longleftrightarrow> stands p t q"
  using occurs_drop [of p 0 t q] by simp

text \<open>From a start inside of the string, \<open>utstring_findR\<close> returns the last position at which the
  needle stands in the part of the string that ends with the start, or \<open>-1\<close>, again without a fault.\<close>

theorem utstring_findR_last:
  assumes "p \<noteq> []" and "length (ut_d s) < 2 ^ 31" and "0 \<le> from_pos s start"
    and "from_pos s start < int (length (ut_d s))"
  shows "utstring_findR s start p (length p) = Inr (last_at p (take (nat (from_pos s start) + 1) (ut_d s)))"
proof -
  define k where "k = nat (from_pos s start)"
  define t where "t = take (k + 1) (ut_d s)"
  have k: "from_pos s start = int k" "k < length (ut_d s)" using assms(3,4) by (simp_all add: k_def)
  have tlen: "length t = k + 1" using k by (simp add: t_def)
  show ?thesis
  proof (cases "length p \<le> k + 1")
    case False
    have "\<not> stands p t x" for x using stands_inside [of p t x] assms(1) False tlen by auto
    then have "last_at p t = -1" by (rule last_at_None)
    then show ?thesis using False k by (simp add: utstring_findR_def Let_def t_def flip: from_pos_def)
  next
    case True
    have hay: "char_at (rev t) (0 + int x) = Inr (rev t ! x)" if "x < length (rev t)" for x
      using that by (simp add: char_at_def)
    have hayR: "char_at (utstring_body s) (int (length (rev t)) - 1 - int x) = Inr (rev t ! x)" if "x < length (rev t)" for x
    proof -
      have "char_at (utstring_body s) (int k - int x) = Inr (ut_d s ! (k - x))"
        using that tlen k(2) by (auto simp: char_at_def utstring_body_def nth_append nat_diff_distrib)
      then show ?thesis using that tlen by (simp add: rev_nth t_def)
    qed
    have small: "rev p \<noteq> []" "length (rev p) < 2 ^ 31" "length (rev t) < 2 ^ 31"
      using assms(1,2) True tlen k(2) by simp_all
    obtain T r where T: "utstring_BuildTableR p (length p) (replicate (length p + 1) None) = Inr T"
      "KMP_findR (utstring_body s) (length t) p (length p) T
         = Inr (if r = -1 then -1 else int (length t) - int (length p) - r)"
      "r = -1 \<and> (\<forall>q. \<not> occurs (rev p) (rev t) q)
         \<or> (\<exists>q. r = int q \<and> occurs (rev p) (rev t) q \<and> (\<forall>q'. occurs (rev p) (rev t) q' \<longrightarrow> q \<le> q'))"
      by (rule KMP_find_ok [OF small hay hayR], assumption, assumption, rule that) (simp_all only: length_rev rev_rev_ident)
    have run: "utstring_findR s start p (length p) = Inr (if r = -1 then -1 else int (length t) - int (length p) - r)"
      unfolding utstring_findR_def from_pos_def [symmetric] k(1) Let_def
      using T(1,2) True assms(1) tlen by (simp add: nat_add_distrib)
    have goal: "take (nat (from_pos s start) + 1) (ut_d s) = t" by (simp add: t_def k_def)
    from T(3) show ?thesis
      unfolding goal
    proof
      assume none: "r = -1 \<and> (\<forall>q. \<not> occurs (rev p) (rev t) q)"
      have "\<not> stands p t x" for x using none occurs_revI [of p t x] occurs_stands [OF assms(1)] by blast
      then show "utstring_findR s start p (length p) = Inr (last_at p t)"
        using run none last_at_None [of p t] by simp
    next
      assume "\<exists>q. r = int q \<and> occurs (rev p) (rev t) q \<and> (\<forall>q'. occurs (rev p) (rev t) q' \<longrightarrow> q \<le> q')"
      then obtain q where q: "r = int q" "occurs (rev p) (rev t) q" "\<And>q'. occurs (rev p) (rev t) q' \<Longrightarrow> q \<le> q'"
        by blast
      have le: "q + length p \<le> length t" using q(2) by (simp add: occurs_def)
      have "last_at p t = int (length t - length p - q)"
      proof (rule last_at_Some [OF _ assms(1)])
        show "stands p t (length t - length p - q)"
          using occurs_revI [OF q(2)] occurs_stands [OF assms(1)] by simp
        fix x assume x: "length t - length p - q < x"
        show "\<not> stands p t x"
        proof
          assume st: "stands p t x"
          then have "q \<le> length t - length p - x" using occurs_revI occurs_stands [OF assms(1)] q(3) by blast
          then show False using x stands_inside [OF st assms(1)] le by linarith
        qed
      qed
      then show "utstring_findR s start p (length p) = Inr (last_at p t)" using run q(1) le by simp
    qed
  qed
qed

lemma utstring_findR_last_witness:
  "utstring_findR \<lparr>ut_d = ascii ''banana split'', ut_n = 100\<rparr> 4 (ascii ''an'') 2 = Inr 3"
proof -
  let ?s = "\<lparr>ut_d = ascii ''banana split'', ut_n = 100\<rparr>"
  have "ascii ''an'' \<noteq> []" "length (ut_d ?s) < 2 ^ 31" "0 \<le> from_pos ?s 4" "from_pos ?s 4 < int (length (ut_d ?s))"
    by (simp_all add: ascii_def from_pos_def)
  then have "utstring_findR ?s 4 (ascii ''an'') 2 = Inr (last_at (ascii ''an'') (take 5 (ascii ''banana split'')))"
    using utstring_findR_last [of "ascii ''an''" ?s 4] by (simp add: from_pos_def ascii_length numeral_2_eq_2)
  also have "last_at (ascii ''an'') (take 5 (ascii ''banana split'')) = 3" by code_simp
  finally show ?thesis .
qed

end
