(* ===== verification/Statsd.thy ===== *)
theory Statsd
  imports C_Format
begin

text \<open>
  statsd/statsd-client.c: the client that the optional build sends its counters with, and the name
  space that statsd/uptimed.c makes of the address of an interface. A \<open>statsd_link *\<close> is a
  \<open>link option\<close>. Buffers of fixed size are lists of bytes that a call fills and returns; the
  sockets, the resolver and the random numbers are parameters. A rate is the double that the
  \<open>float\<close> of the caller stands for.
\<close>

section \<open>Links\<close>

record link =
  sock :: int
  ns :: "byte list option"

text \<open>\<open>resolved\<close> says whether \<open>getaddrinfo\<close> knows the host, \<open>s\<close> is what \<open>socket\<close> returns.\<close>

definition statsd_init :: "int \<Rightarrow> (byte list \<Rightarrow> bool) \<Rightarrow> byte list option \<Rightarrow> int \<Rightarrow> link option" where
  "statsd_init s resolved host port =
     (case host of None \<Rightarrow> None
      | Some h \<Rightarrow>
          if port = 0 then None
          else if s = - 1 then None
          else if \<not> resolved h then None
          else Some \<lparr>sock = s, ns = None\<rparr>)"

definition statsd_init_with_namespace ::
  "int \<Rightarrow> (byte list \<Rightarrow> bool) \<Rightarrow> byte list option \<Rightarrow> int \<Rightarrow> byte list option \<Rightarrow> link option" where
  "statsd_init_with_namespace s resolved host port namesp =
     (case namesp of None \<Rightarrow> None
      | Some n \<Rightarrow>
          if host = None \<or> port = 0 then None
          else (case statsd_init s resolved host port of
                  None \<Rightarrow> None
                | Some temp \<Rightarrow> Some (temp\<lparr>ns := Some (n @ ascii ''.'')\<rparr>)))"

text \<open>The socket that is closed, if one is.\<close>

definition statsd_finalize :: "link option \<Rightarrow> int option" where
  "statsd_finalize lk = (case lk of None \<Rightarrow> None
     | Some l \<Rightarrow> if sock l \<noteq> - 1 then Some (sock l) else None)"

section \<open>Messages\<close>

definition MAX_MSG_LEN :: nat where "MAX_MSG_LEN = 100"

definition clean_char :: "byte \<Rightarrow> byte" where
  "clean_char p = (if p = 0x3A \<or> p = 0x7C \<or> p = 0x40 then 0x5F else p)"

fun cleanup :: "byte list \<Rightarrow> byte list cres" where
  "cleanup [] = Inl OutOfBounds"
| "cleanup (p # stat) =
     (if p = 0 then Inr (p # stat)
      else c_bind (cleanup stat) (\<lambda>stat. Inr (clean_char p # stat)))"

text \<open>\<open>p\<close> is \<open>random() / RAND_MAX\<close>.\<close>

definition should_send :: "double \<Rightarrow> double \<Rightarrow> bool" where
  "should_send p sample_rate = (if d_lt sample_rate (DFin 1) then d_lt p sample_rate else True)"

text \<open>\<open>%.5f\<close>.\<close>

definition fmt_5f :: "double \<Rightarrow> byte list" where
  "fmt_5f d =
     (case d of DNaN \<Rightarrow> ascii ''nan''
      | DInf n \<Rightarrow> fmt_sign n @ ascii ''inf''
      | _ \<Rightarrow>
          (let x = \<bar>the (finite_value d)\<bar>; m = nat (round_even (x * 10 ^ 5))
           in fmt_sign (sign_bit d) @ dec_digits (m div 10 ^ 5) @ [0x2E] @ dec_pad 5 (m mod 10 ^ 5)))"

text \<open>\<open>snprintf\<close> of a text without zeros into a buffer: as much of it as there is room for, and a zero.\<close>

definition snprintf :: "byte list \<Rightarrow> nat \<Rightarrow> byte list \<Rightarrow> byte list cres" where
  "snprintf buf n txt =
     (if n = 0 then Inr buf
      else let w = take (n - 1) txt @ [0]
           in if length buf < length w then Inl OutOfBounds else Inr (w @ drop (length w) buf))"

text \<open>The value is a \<open>size_t\<close> that \<open>%zd\<close> reads as a signed number.\<close>

definition metric ::
  "byte list option \<Rightarrow> byte list \<Rightarrow> 64 word \<Rightarrow> byte list \<Rightarrow> double \<Rightarrow> bool \<Rightarrow> byte list" where
  "metric n stat value ty sample_rate lf =
     (case n of None \<Rightarrow> [] | Some n \<Rightarrow> n) @ stat @ ascii '':'' @ fmt_d (sint value) @ ascii ''|'' @ ty
     @ (if d_eq sample_rate (DFin 1) then [] else ascii ''|@'' @ fmt_5f sample_rate)
     @ (if lf then [0x0A] else [])"

text \<open>The string that is cleaned is the one of the caller; it and the message are returned.\<close>

definition statsd_prepare ::
  "link option \<Rightarrow> byte list \<Rightarrow> 64 word \<Rightarrow> byte list \<Rightarrow> double \<Rightarrow> byte list \<Rightarrow> nat \<Rightarrow> bool
     \<Rightarrow> (byte list \<times> byte list) cres" where
  "statsd_prepare lk stat value ty sample_rate message buflen lf =
     (case lk of None \<Rightarrow> Inr (stat, message)
      | Some l \<Rightarrow>
          c_bind (cleanup stat) (\<lambda>stat.
          c_bind (snprintf message buflen (metric (ns l) (cstring stat) value ty sample_rate lf)) (\<lambda>message.
            Inr (stat, message))))"

text \<open>The code that is returned and the datagram that is handed to \<open>sendto\<close>.\<close>

definition statsd_send :: "(byte list \<Rightarrow> bool) \<Rightarrow> link option \<Rightarrow> byte list \<Rightarrow> (int \<times> byte list option) cres" where
  "statsd_send sendto lk message =
     (case lk of None \<Rightarrow> Inr (- 2, None)
      | Some _ \<Rightarrow>
          if \<not> nulterm message then Inl OutOfBounds
          else Inr (if sendto (cstring message) then 0 else - 1, Some (cstring message)))"

text \<open>
  \<open>stack\<close> is what the array holds before it is written; the caller's string after the call is
  returned with the code and the datagram.
\<close>

definition send_stat ::
  "(byte list \<Rightarrow> bool) \<Rightarrow> double \<Rightarrow> byte list \<Rightarrow> link option \<Rightarrow> byte list \<Rightarrow> 64 word \<Rightarrow> byte list \<Rightarrow> double
     \<Rightarrow> ((int \<times> byte list option) \<times> byte list) cres" where
  "send_stat sendto p stack lk stat value ty sample_rate =
     (if \<not> should_send p sample_rate then Inr ((0, None), stat)
      else c_bind (statsd_prepare lk stat value ty sample_rate stack MAX_MSG_LEN False) (\<lambda>(stat, message).
           c_bind (statsd_send sendto lk message) (\<lambda>r. Inr (r, stat))))"

definition statsd_count where
  "statsd_count sendto p stack lk stat value sample_rate =
     send_stat sendto p stack lk stat value (ascii ''c'') sample_rate"

definition statsd_dec where
  "statsd_dec sendto p stack lk stat sample_rate = statsd_count sendto p stack lk stat (- 1) sample_rate"

definition statsd_inc where
  "statsd_inc sendto p stack lk stat sample_rate = statsd_count sendto p stack lk stat 1 sample_rate"

definition statsd_gauge where
  "statsd_gauge sendto p stack lk stat value =
     send_stat sendto p stack lk stat value (ascii ''g'') (DFin 1)"

definition statsd_timing_with_sample_rate where
  "statsd_timing_with_sample_rate sendto p stack lk stat ms sample_rate =
     send_stat sendto p stack lk stat ms (ascii ''ms'') sample_rate"

definition statsd_timing where
  "statsd_timing sendto p stack lk stat ms =
     statsd_timing_with_sample_rate sendto p stack lk stat ms (DFin 1)"

text \<open>The datagrams of a call.\<close>

definition sent_by :: "((int \<times> byte list option) \<times> byte list) cres \<Rightarrow> byte list list cres" where
  "sent_by r = c_bind r (\<lambda>((_, sent), _). Inr (case sent of None \<Rightarrow> [] | Some d \<Rightarrow> [d]))"

section \<open>The name space of uptimed\<close>

text \<open>Writing into an array from an offset on.\<close>

definition write_at :: "byte list \<Rightarrow> nat \<Rightarrow> byte list \<Rightarrow> byte list cres" where
  "write_at buf off bs =
     (if length buf < off + length bs then Inl OutOfBounds
      else Inr (take off buf @ bs @ drop (off + length bs) buf))"

definition hex_digit :: "nat \<Rightarrow> byte" where
  "hex_digit d = (if d < 10 then 0x30 + of_nat d else 0x37 + of_nat d)"

text \<open>\<open>%.2X\<close>.\<close>

definition fmt_2X :: "byte \<Rightarrow> byte list" where
  "fmt_2X b = [hex_digit (unat b div 16), hex_digit (unat b mod 16)]"

text \<open>
  \<open>mac\<close> is where in \<open>buf\<close> the text goes; \<open>hwaddr\<close> is the address of the interface, \<open>None\<close> when
  \<open>socket\<close> or \<open>ioctl\<close> fails.
\<close>

definition find_my_mac :: "byte list option \<Rightarrow> byte list \<Rightarrow> nat \<Rightarrow> (int \<times> byte list) cres" where
  "find_my_mac hwaddr buf mac =
     (case hwaddr of None \<Rightarrow> Inr (- 1, buf)
      | Some macaddr \<Rightarrow>
          c_bind (write_at buf mac (concat (map fmt_2X (take 6 macaddr)) @ [0])) (\<lambda>buf. Inr (0, buf)))"

definition uptimed_namespace :: "byte list option \<Rightarrow> byte list \<Rightarrow> byte list cres" where
  "uptimed_namespace hwaddr stack =
     c_bind (write_at (take 16 stack) 0 (ascii ''host.'' @ [0])) (\<lambda>ns.
     c_bind (find_my_mac hwaddr ns 5) (\<lambda>(_, ns). Inr ns))"

section \<open>What is sent\<close>

text \<open>A metric is read back: the name before the colon, the number, and the type before the next bar.\<close>

definition read_int :: "byte list \<Rightarrow> int" where
  "read_int s = (case read_sign s of (neg, ds) \<Rightarrow>
     if neg then - int (nat_of_digits ds) else int (nat_of_digits ds))"

definition read_metric :: "byte list \<Rightarrow> byte list \<times> int \<times> byte list" where
  "read_metric msg =
     (let name = takeWhile (\<lambda>c. c \<noteq> 0x3A) msg;
          rest = drop (length name + 1) msg;
          num = takeWhile (\<lambda>c. c \<noteq> 0x7C) rest;
          ty = takeWhile (\<lambda>c. c \<noteq> 0x7C) (drop (length num + 1) rest)
      in (name, read_int num, ty))"

definition separators :: "byte set" where
  "separators = {0x3A, 0x7C, 0x40}"

lemma clean_char_simps [simp]: "clean_char c \<noteq> 0x3A" "clean_char c \<noteq> 0x7C" "clean_char c \<noteq> 0x40"
    "clean_char c = 0 \<longleftrightarrow> c = 0"
  by (simp_all add: clean_char_def)

lemma cleanup_ok: "no_nul s \<Longrightarrow> cleanup (s @ 0 # r) = Inr (map clean_char s @ 0 # r)"
  by (induction s) (simp_all add: no_nul_def)

lemma clean_no_nul: "no_nul s \<Longrightarrow> no_nul (map clean_char s)"
  by (induction s) (simp_all add: no_nul_def)

lemma snprintf_ok:
  "0 < n \<Longrightarrow> length buf = n \<Longrightarrow> \<exists>r. snprintf buf n txt = Inr (take (n - 1) txt @ 0 # r)"
  by (auto simp: snprintf_def Let_def)

lemma read_int_fmt_d [simp]: "read_int (fmt_d i) = i"
proof (cases "i < 0")
  case False
  obtain c cs where c: "dec_digits (nat i) = c # cs" by (cases "dec_digits (nat i)") simp_all
  then have d: "is_digit c" using dec_digits_digits [of "nat i"] by simp
  then have "c \<noteq> 0x2D" "c \<noteq> 0x2B" by (auto simp: is_digit_def)
  then have "read_sign (dec_digits (nat i)) = (False, dec_digits (nat i))"
    by (simp add: read_sign_def c)
  then show ?thesis using False by (simp add: read_int_def fmt_d_def fmt_sign_def)
next
  case True
  then show ?thesis by (simp add: read_int_def fmt_d_def fmt_sign_def read_sign_def)
qed

lemma fmt_d_digits: "c \<in> set (fmt_d i) \<Longrightarrow> is_digit c \<or> c = 0x2D"
  using dec_digits_digits by (auto simp: fmt_d_def fmt_sign_def split: if_splits)

lemma fmt_d_plain: "0 \<notin> set (fmt_d i)" "0x7C \<notin> set (fmt_d i)"
  using fmt_d_digits [of _ i] by (auto simp: is_digit_def dest!: fmt_d_digits)

lemma fmt_5f_no_nul: "no_nul (fmt_5f d)"
proof -
  have digits: "\<forall>c \<in> set ds. is_digit c \<Longrightarrow> no_nul ds" for ds
    by (auto simp: no_nul_def is_digit_def)
  have "no_nul (ascii ''nan'')" "no_nul (ascii ''inf'')" by code_simp+
  moreover have "no_nul (dec_digits n)" "no_nul (dec_pad k n)" for k n
    using dec_digits_digits dec_pad_digits by (intro digits; blast)+
  moreover have "no_nul (fmt_sign b)" for b by (simp add: fmt_sign_def)
  ultimately show ?thesis by (auto simp: fmt_5f_def Let_def split: double.split)
qed

text \<open>A link that is open sends one datagram: the metric of the cleaned name, as much of it as fits.\<close>

lemma send_stat_ok:
  assumes "no_nul stat" and "no_nul ty" and "\<forall>n. ns l = Some n \<longrightarrow> no_nul n"
    and "length stack = MAX_MSG_LEN" and "should_send p rate"
  shows "send_stat sendto p stack (Some l) (stat @ 0 # r) value ty rate
    = (let msg = take 99 (metric (ns l) (map clean_char stat) value ty rate False)
       in Inr ((if sendto msg then 0 else - 1, Some msg), map clean_char stat @ 0 # r))"
proof -
  let ?m = "metric (ns l) (map clean_char stat) value ty rate False"
  have stat: "cstring (map clean_char stat @ 0 # r) = map clean_char stat"
    using clean_no_nul [OF assms(1)] by simp
  have "no_nul (ascii '':'')" "no_nul (ascii ''|'')" "no_nul (ascii ''|@'')" by code_simp+
  moreover have "no_nul (fmt_d (sint value))" using fmt_d_plain(1) by (simp add: no_nul_def)
  moreover have "no_nul (fmt_5f rate)" by (rule fmt_5f_no_nul)
  ultimately have "no_nul ?m"
    using assms(2,3) clean_no_nul [OF assms(1)] by (auto simp: metric_def split: option.split)
  then have m: "no_nul (take 99 ?m)" by (auto simp: no_nul_def dest: in_set_takeD)
  obtain r' where "snprintf stack MAX_MSG_LEN ?m = Inr (take 99 ?m @ 0 # r')"
    using snprintf_ok [of MAX_MSG_LEN stack ?m] assms(4) by (auto simp: MAX_MSG_LEN_def)
  then show ?thesis
    using assms(5) m by (simp add: send_stat_def statsd_prepare_def cleanup_ok assms(1) stat statsd_send_def Let_def)
qed

lemma read_metric_ok:
  assumes "\<forall>n. nsp = Some n \<longrightarrow> 0x3A \<notin> set n" and "0x7C \<notin> set ty"
  shows "read_metric (metric nsp (map clean_char stat) value ty rate False)
    = ((case nsp of None \<Rightarrow> [] | Some n \<Rightarrow> n) @ map clean_char stat, sint value, ty)"
proof -
  let ?n = "(case nsp of None \<Rightarrow> [] | Some n \<Rightarrow> n) @ map clean_char stat"
  let ?tail = "if d_eq rate (DFin 1) then [] else ascii ''|@'' @ fmt_5f rate"
  have a: "ascii '':'' = [0x3A]" "ascii ''|'' = [0x7C]" "ascii ''|@'' = [0x7C, 0x40]" by code_simp+
  have m: "metric nsp (map clean_char stat) value ty rate False
      = ?n @ 0x3A # fmt_d (sint value) @ 0x7C # ty @ ?tail"
    by (simp add: metric_def a)
  have "0x3A \<notin> set ?n" using assms(1) by (auto split: option.splits)
  then have "takeWhile (\<lambda>c. c \<noteq> 0x3A) (?n @ 0x3A # x) = ?n" for x
    by (intro takeWhile_upto) 
  moreover have "takeWhile (\<lambda>c. c \<noteq> 0x7C) (fmt_d (sint value) @ 0x7C # x) = fmt_d (sint value)" for x
    using fmt_d_plain(2) by (intro takeWhile_upto)
  moreover have "takeWhile (\<lambda>c. c \<noteq> 0x7C) (ty @ ?tail) = ty"
    using assms(2) takeWhile_upto [of "0x7C" ty] by (simp add: a) (metis append_Nil2 takeWhile_eq_all_conv)
  ultimately show ?thesis unfolding m read_metric_def Let_def by simp
qed

lemma clean_separators: "set (map clean_char stat) \<inter> separators = {}"
  by (auto simp: separators_def clean_char_def split: if_splits)

text \<open>C35: a metric that is due is sent as one datagram of at most 99 bytes, whose name has no separator
  left; when the whole metric fits, the receiver reads back the name, the number, as a signed one, and
  the type. The string of the caller is cleaned in place, and nothing else is written.\<close>

theorem statsd_message:
  assumes "no_nul stat" and "no_nul ty" and "0x7C \<notin> set ty"
    and "\<forall>n. ns l = Some n \<longrightarrow> no_nul n \<and> 0x3A \<notin> set n"
    and "length stack = MAX_MSG_LEN" and "should_send p rate"
  shows "\<exists>msg. send_stat sendto p stack (Some l) (stat @ 0 # r) value ty rate
      = Inr ((if sendto msg then 0 else - 1, Some msg), map clean_char stat @ 0 # r)
    \<and> length msg < MAX_MSG_LEN \<and> set (map clean_char stat) \<inter> separators = {}
    \<and> (length (metric (ns l) (map clean_char stat) value ty rate False) < MAX_MSG_LEN \<longrightarrow>
        read_metric msg = ((case ns l of None \<Rightarrow> [] | Some n \<Rightarrow> n) @ map clean_char stat, sint value, ty))"
proof (intro exI conjI impI)
  let ?m = "metric (ns l) (map clean_char stat) value ty rate False"
  show "send_stat sendto p stack (Some l) (stat @ 0 # r) value ty rate
      = Inr ((if sendto (take 99 ?m) then 0 else - 1, Some (take 99 ?m)), map clean_char stat @ 0 # r)"
    using send_stat_ok [OF assms(1,2) _ assms(5,6)] assms(4) by (simp add: Let_def)
  show "length (take 99 ?m) < MAX_MSG_LEN" by (simp add: MAX_MSG_LEN_def)
  show "set (map clean_char stat) \<inter> separators = {}" by (rule clean_separators)
  assume "length ?m < MAX_MSG_LEN"
  then show "read_metric (take 99 ?m) = ((case ns l of None \<Rightarrow> [] | Some n \<Rightarrow> n) @ map clean_char stat, sint value, ty)"
    using read_metric_ok [OF _ assms(3)] assms(4) by (simp add: MAX_MSG_LEN_def)
qed

theorem statsd_message_witness:
  "\<exists>msg. statsd_dec (\<lambda>_. True) DNaN (replicate 100 7) (Some \<lparr>sock = 3, ns = Some (ascii ''host.'')\<rparr>)
      (ascii ''a:b'' @ [0]) (DFin 1) = Inr ((0, Some msg), ascii ''a_b'' @ [0])
    \<and> read_metric msg = (ascii ''host.a_b'', - 1, ascii ''c'')"
proof -
  let ?l = "\<lparr>sock = 3, ns = Some (ascii ''host.'')\<rparr>"
  have clean: "map clean_char (ascii ''a:b'') = ascii ''a_b''" by code_simp
  have cat: "ascii ''host.'' @ ascii ''a_b'' = ascii ''host.a_b''" by code_simp
  have "length (metric (ns ?l) (ascii ''a_b'') (- 1) (ascii ''c'') (DFin 1) False) < MAX_MSG_LEN" by code_simp
  moreover have "no_nul (ascii ''a:b'')" "no_nul (ascii ''c'')" "0x7C \<notin> set (ascii ''c'')"
    "no_nul (ascii ''host.'')" "0x3A \<notin> set (ascii ''host.'')" by code_simp+
  moreover have "should_send DNaN (DFin 1)" by (simp add: should_send_def d_lt_def)
  ultimately show ?thesis
    using statsd_message [of "ascii ''a:b''" "ascii ''c''" ?l "replicate 100 7" DNaN "DFin 1" "\<lambda>_. True" "[]" "- 1"]
    unfolding clean statsd_dec_def statsd_count_def by (auto simp: MAX_MSG_LEN_def cat)
qed

lemma fmt_2X_length [simp]: "length (fmt_2X b) = 2"
  by (simp add: fmt_2X_def)

text \<open>The address of any interface that \<open>uptimed\<close> finds is written behind the end of its name
  space: the text needs eighteen bytes, the array has sixteen.\<close>

theorem uptimed_overruns:
  assumes "length macaddr = 6" and "16 \<le> length stack"
  shows "uptimed_namespace (Some macaddr) stack = Inl OutOfBounds"
proof -
  have "length (ascii ''host.'' @ [0]) = 6" by code_simp
  moreover have "length (concat (map fmt_2X macaddr)) = 12"
    using assms(1) by (simp add: length_concat comp_def sum_list_triv)
  ultimately show ?thesis
    using assms by (auto simp: uptimed_namespace_def find_my_mac_def write_at_def)
qed

theorem uptimed_overruns_witness:
  "uptimed_namespace (Some [0x00, 0x1B, 0x21, 0x3C, 0x4D, 0x5E]) (replicate 16 7) = Inl OutOfBounds"
  by (rule uptimed_overruns) simp_all

end
