(* ===== verification/Revgeod_Statsd.thy ===== *)
theory Revgeod_Statsd
  imports Revgeod_Run Statsd
begin

text \<open>
  The build of revgeod.c with \<open>STATSD\<close>: the handlers of Revgeod with the calls of the statsd client where
  the code has them. A handler also yields the datagrams that it hands to \<open>sendto\<close>, in their order. The
  record \<open>statsd\<close> has the global \<open>sd\<close>, what the arrays on the stack hold before they are written, and
  the two readings of \<open>gettimeofday\<close>. The theorem says that the answers and the state are those of the
  build without \<open>STATSD\<close>, and which datagrams there are.
\<close>

section \<open>Sending\<close>

record statsd =
  sd_link :: "link option"
  sd_sendto :: "byte list \<Rightarrow> bool"
  sd_random :: double
  sd_stack :: "byte list"
  sd_str :: "byte list"
  t_start_oc :: "int \<times> int"
  t_stop_oc :: "int \<times> int"

definition SAMPLE_RATE :: double where "SAMPLE_RATE = DFin 1"

definition sd_inc :: "statsd \<Rightarrow> byte list \<Rightarrow> byte list list cres" where
  "sd_inc E stat = sent_by (statsd_inc (sd_sendto E) (sd_random E) (sd_stack E) (sd_link E) stat SAMPLE_RATE)"

definition sd_timing :: "statsd \<Rightarrow> byte list \<Rightarrow> 64 word \<Rightarrow> byte list list cres" where
  "sd_timing E stat ms = sent_by (statsd_timing (sd_sendto E) (sd_random E) (sd_stack E) (sd_link E) stat ms)"

definition d_mul :: "double \<Rightarrow> double \<Rightarrow> double" where
  "d_mul x y =
     (let n = (sign_bit x \<noteq> sign_bit y)
      in if x = DNaN \<or> y = DNaN then DNaN
         else case (finite_value x, finite_value y) of
                (Some r, Some s) \<Rightarrow> if r * s = 0 then d_zero n else round_double (r * s)
              | (r, s) \<Rightarrow> if r = Some 0 \<or> s = Some 0 then DNaN else DInf n)"

text \<open>The conversion to \<open>long\<close> cuts the fraction off; the value is in range.\<close>

definition d_to_long :: "double \<Rightarrow> 64 word" where
  "d_to_long d = (case finite_value d of None \<Rightarrow> 0
     | Some r \<Rightarrow> word_of_int (if r < 0 then - \<lfloor>- r\<rfloor> else \<lfloor>r\<rfloor>))"

definition opencage_millis :: "statsd \<Rightarrow> double" where
  "opencage_millis E = d_add (d_div (d_of_int (snd (t_stop_oc E) - snd (t_start_oc E))) (DFin 1000))
     (d_mul (d_of_int (fst (t_stop_oc E) - fst (t_start_oc E))) (DFin 1000))"

section \<open>The handlers\<close>

type_synonym ('l, 'n) reported = "((answer \<times> ('l, 'n) server) \<times> byte list list) cres"

definition send_json_sd :: "statsd \<Rightarrow> moment \<Rightarrow> json \<Rightarrow> byte list \<Rightarrow> (answer \<times> byte list list) cres" where
  "send_json_sd E M json source =
     c_bind (snprintf (sd_str E) 128 (ascii ''response.'' @ source)) (\<lambda>s_str.
     c_bind (sd_inc E s_str) (\<lambda>sent.
     c_bind (send_json M json) (\<lambda>a. Inr (a, sent))))"

definition get_stats_sd :: "('l, 'n) libs \<Rightarrow> moment \<Rightarrow> ('l, 'n) server \<Rightarrow> ('l, 'n) handled" where
  "get_stats_sd W M s =
     (let st = (stat_counts s)\<lparr>stats := stats (stat_counts s) + 1\<rparr>;
          s = s\<lparr>stat_counts := st\<rparr>
      in c_bind (append_members json_mkobject
           [(''_whoami'', JString (ascii ''revgeod.c'')),
            (''_version'', JString (ascii ''0.3.8'')),
            (''_statsd'', JBool True),
            (''_mhdversion'', JString (lib_mhd_version W)),
            (''stats'', mkcount (stats st)),
            (''requests'', mkcount (requests st)),
            (''geocode_failed'', mkcount (geofail st)),
            (''locationiq'', mkcount (locationiq st)),
            (''opencage'', mkcount (opencage st)),
            (''lmdb'', mkcount (lmdb_hits st))]) (\<lambda>counters.
         c_bind (append_apps json_mkobject (appcache s)) (\<lambda>apps.
         c_bind (db_getpath (lib_lmdb W) (the_db s) (records s)) (\<lambda>(path, l).
         c_bind (mkstring path) (\<lambda>db_path.
         c_bind (db_numentries (lib_lmdb W) (the_db s) l) (\<lambda>(entries, l).
         c_bind (append_members json_mkobject
           ([(''stats'', counters),
             (''apps'', apps),
             (''uptime'', mkint (m_time M 1 - launchtime st)),
             (''uptime_s'', JString (uptime (m_time M 0 - launchtime st) 8192)),
             (''tst'', mkint (m_time M 2)),
             (''db_path'', db_path),
             (''db_entries'', mkcount entries)]
            @ (case m_stat M of None \<Rightarrow> [] | Some sz \<Rightarrow> [(''db_size'', mkint sz)]))) (\<lambda>json.
         c_bind (json_stringify json (Some JSON_SPACE)) (\<lambda>js.
         c_bind (send_content M (js @ [0]) (ascii ''application/json'') MHD_HTTP_OK) (\<lambda>a.
           Inr (a, s\<lparr>records := l\<rparr>))))))))))"

definition reverse_fresh_sd ::
  "statsd \<Rightarrow> ('l, 'n) libs \<Rightarrow> moment \<Rightarrow> double \<Rightarrow> double \<Rightarrow> byte list \<Rightarrow> geo_bufs \<Rightarrow> ('l, 'n) server \<Rightarrow> ('l, 'n) reported"
where
  "reverse_fresh_sd E W M lat lon geohash g s =
     (let st = count_service s
      in c_bind (revgeo_getdata (lib_curl W) (apikey s) (api_provider s) lat lon g (geo_static s)) (\<lambda>((ok, g), gs).
         let s = s\<lparr>geo_static := gs, geo_texts := Some g\<rparr>
         in c_bind (if ok then
                      c_bind (address_record g) (\<lambda>address_obj.
                      c_bind (json_stringify address_obj (Some JSON_SPACE)) (\<lambda>js.
                      c_bind (db_put (lib_lmdb W) (the_db s) geohash js (records s)) (\<lambda>(_, l).
                        Inr (s\<lparr>stat_counts := st, records := l\<rparr>))))
                    else Inr (s\<lparr>stat_counts := st\<lparr>geofail := geofail st + 1\<rparr>\<rparr>)) (\<lambda>s.
            c_bind (sd_timing E (lit ''response.opencage.duration'') (d_to_long (opencage_millis E))) (\<lambda>sent1.
            c_bind (fresh_address (if ok then ub (g_addr g) else ascii ''unknown address'') g (api_provider s)) (\<lambda>obj.
            c_bind (append_members json_mkobject [(''address'', obj)]) (\<lambda>json.
            c_bind (send_json_sd E M json (api_provider s)) (\<lambda>(a, sent2). Inr ((a, s), sent1 @ sent2))))))))"

definition reverse_cached_sd ::
  "statsd \<Rightarrow> moment \<Rightarrow> byte list \<Rightarrow> ('l, 'n) server \<Rightarrow> ('l, 'n) reported" where
  "reverse_cached_sd E M apbuf s =
     c_bind (stored_address apbuf) (\<lambda>obj.
     c_bind (append_members obj [(''s'', JString (ascii ''lmdb''))]) (\<lambda>obj.
     c_bind (append_members json_mkobject [(''address'', obj)]) (\<lambda>json.
     let st = stat_counts s; s = s\<lparr>stat_counts := st\<lparr>lmdb_hits := lmdb_hits st + 1\<rparr>\<rparr>
     in c_bind (send_json_sd E M json (ascii ''lmdb'')) (\<lambda>(a, sent). Inr ((a, s), sent)))))"

definition reverse_point_sd ::
  "statsd \<Rightarrow> ('l, 'n) libs \<Rightarrow> moment \<Rightarrow> double \<Rightarrow> double \<Rightarrow> ('l, 'n) server \<Rightarrow> ('l, 'n) reported" where
  "reverse_point_sd E W M lat lon s =
     c_bind (geohash_encode (m_heap M) lat lon GEOHASH_PRECISION) (\<lambda>h.
       case h of
         None \<Rightarrow> c_bind (send_page M (lit ''Cannot encode to geohash'') NOT_ACCEPTABLE) (\<lambda>a. Inr ((a, s), []))
       | Some mem \<Rightarrow>
           c_bind (string_at mem) (\<lambda>geohash.
           c_bind (renew_texts (geo_texts s)) (\<lambda>g.
           c_bind (db_get (lib_lmdb W) (the_db s) geohash (m_stack M) (records s)) (\<lambda>((len, apbuf), l).
             let s = s\<lparr>geo_texts := Some g, records := l\<rparr>
             in if len > 0 then reverse_cached_sd E M apbuf s
                else reverse_fresh_sd E W M lat lon geohash g s))))"

definition get_reversegeo_sd ::
  "statsd \<Rightarrow> ('l, 'n) libs \<Rightarrow> moment \<Rightarrow> request \<Rightarrow> ('l, 'n) server \<Rightarrow> ('l, 'n) reported" where
  "get_reversegeo_sd E W M rq s =
     c_bind (sd_inc E (lit ''queries.incoming'')) (\<lambda>sent1.
     let st = stat_counts s;
         s = s\<lparr>stat_counts := st\<lparr>requests := requests st + 1\<rparr>\<rparr>;
         s_app = rq_arg rq (ascii ''app'');
         s = (if s_app \<noteq> None \<and> s_app \<noteq> Some [] then s\<lparr>appcache := count_app (appcache s) (the s_app)\<rparr> else s);
         s_lat = rq_arg rq (ascii ''lat'');
         s_lon = rq_arg rq (ascii ''lon'')
     in c_bind (if s_lat = None \<or> s_lon = None \<or> s_lat = Some [] \<or> s_lon = Some [] then
                  c_bind (send_page M (lit ''One of lat or lon missing'') NOT_ACCEPTABLE) (\<lambda>a. Inr ((a, s), []))
                else reverse_point_sd E W M (atof (the s_lat)) (atof (the s_lon)) s) (\<lambda>(r, sent2).
          Inr (r, sent1 @ sent2)))"

definition handle_connection_sd ::
  "statsd \<Rightarrow> ('l, 'n) libs \<Rightarrow> moment \<Rightarrow> request \<Rightarrow> ('l, 'n) server \<Rightarrow> ('l, 'n) reported" where
  "handle_connection_sd E W M rq s =
     (let quietly = (\<lambda>r. c_bind r (\<lambda>r. Inr (r, [])))
      in if rq_method rq \<noteq> ascii ''GET'' then quietly (c_bind (send_page M (lit ''not allowed'') 405) (\<lambda>a. Inr (a, s)))
         else if rq_url rq = ascii ''/rev'' then get_reversegeo_sd E W M rq s
         else if rq_url rq = ascii ''/stats'' then quietly (get_stats_sd W M s)
         else if rq_url rq = ascii ''/dump'' then quietly (get_dumpall W M s)
         else if rq_url rq = ascii ''/lookup'' then quietly (get_lookup W M rq s)
         else if rq_url rq = ascii ''/kill'' then quietly (get_kill W M rq s)
         else quietly (c_bind (send_page M (lit ''four-oh-four'') 404) (\<lambda>a. Inr (a, s))))"

section \<open>Start and end\<close>

text \<open>The global \<open>sd\<close> is set before everything else; \<open>STATSD\<close> is the host.\<close>

definition start_server_sd ::
  "int \<Rightarrow> (byte list \<Rightarrow> bool) \<Rightarrow> byte list \<Rightarrow> ('l, 'n) libs \<Rightarrow> ('l, 'n) surroundings
     \<Rightarrow> (link option \<times> ('l, 'n) server startup) cres" where
  "start_server_sd s resolved STATSD W su =
     (let sd = statsd_init_with_namespace s resolved (Some STATSD) 8125 (Some (ascii ''revgeo''))
      in c_bind (start_server W su) (\<lambda>r. Inr (sd, r)))"

text \<open>The socket that the handler of the signal closes comes last.\<close>

definition catcher_sd ::
  "link option \<Rightarrow> ('l, 'n) libs \<Rightarrow> int \<Rightarrow> ('l, 'n) server \<Rightarrow> (int option \<times> ('l, 'n) server \<times> int option) cres" where
  "catcher_sd sd W sig s = c_bind (catcher W sig s) (\<lambda>(rc, s).
     Inr (rc, s, if sig = SIGINT then statsd_finalize sd else None))"

section \<open>The datagrams\<close>

text \<open>A link that is open sends the metric, as much of it as fits; without a link nothing is sent.\<close>

definition dgram :: "statsd \<Rightarrow> byte list \<Rightarrow> 64 word \<Rightarrow> string \<Rightarrow> byte list list" where
  "dgram E name value ty = (case sd_link E of None \<Rightarrow> []
     | Some l \<Rightarrow> [take 99 (metric (ns l) (map clean_char name) value (ascii ty) (DFin 1) False)])"

definition statsd_ok :: "statsd \<Rightarrow> bool" where
  "statsd_ok E \<longleftrightarrow> length (sd_stack E) = MAX_MSG_LEN \<and> length (sd_str E) = 128
     \<and> (\<forall>l n. sd_link E = Some l \<and> ns l = Some n \<longrightarrow> no_nul n)"

lemma sent_ok:
  assumes "statsd_ok E" and "no_nul name" and "no_nul (ascii ty)"
  shows "sent_by (send_stat (sd_sendto E) (sd_random E) (sd_stack E) (sd_link E) (name @ 0 # r) value (ascii ty) (DFin 1))
    = Inr (dgram E name value ty)"
proof -
  have due: "should_send (sd_random E) (DFin 1)" by (simp add: should_send_def d_lt_def)
  show ?thesis
  proof (cases "sd_link E")
    case None
    then show ?thesis by (simp add: sent_by_def send_stat_def due statsd_prepare_def statsd_send_def dgram_def)
  next
    case (Some l)
    then have "\<forall>n. ns l = Some n \<longrightarrow> no_nul n" "length (sd_stack E) = MAX_MSG_LEN"
      using assms(1) by (auto simp: statsd_ok_def)
    then show ?thesis
      using send_stat_ok [OF assms(2,3) _ _ due] by (simp add: Some sent_by_def dgram_def Let_def)
  qed
qed

lemma sd_inc_ok:
  assumes "statsd_ok E" and "no_nul name" shows "sd_inc E (name @ 0 # r) = Inr (dgram E name 1 ''c'')"
proof -
  have "no_nul (ascii ''c'')" by code_simp
  then show ?thesis
    using sent_ok [OF assms] by (simp add: sd_inc_def statsd_inc_def statsd_count_def SAMPLE_RATE_def)
qed

lemma sd_timing_ok:
  assumes "statsd_ok E" and "no_nul name" shows "sd_timing E (name @ 0 # r) ms = Inr (dgram E name ms ''ms'')"
proof -
  have "no_nul (ascii ''ms'')" by code_simp
  then show ?thesis
    using sent_ok [OF assms] by (simp add: sd_timing_def statsd_timing_def statsd_timing_with_sample_rate_def)
qed

definition response_of :: "byte list \<Rightarrow> byte list" where
  "response_of source = take 127 (ascii ''response.'' @ source)"

lemma send_json_sd_eq:
  assumes "statsd_ok E" and "no_nul source"
  shows "send_json_sd E M json source = c_bind (send_json M json) (\<lambda>a. Inr (a, dgram E (response_of source) 1 ''c''))"
proof -
  have "no_nul (ascii ''response.'')" by code_simp
  then have n: "no_nul (response_of source)"
    using assms(2) by (auto simp: response_of_def no_nul_def dest: in_set_takeD)
  have "length (sd_str E) = 128" using assms(1) by (simp add: statsd_ok_def)
  then obtain r where "snprintf (sd_str E) 128 (ascii ''response.'' @ source) = Inr (response_of source @ 0 # r)"
    using snprintf_ok [of 128 "sd_str E" "ascii ''response.'' @ source"] by (auto simp: response_of_def)
  then show ?thesis by (simp add: send_json_sd_def sd_inc_ok [OF assms(1) n])
qed

definition duration_sent :: "statsd \<Rightarrow> byte list \<Rightarrow> byte list list" where
  "duration_sent E source = dgram E (ascii ''response.opencage.duration'') (d_to_long (opencage_millis E)) ''ms''
     @ dgram E (response_of source) 1 ''c''"

lemma reverse_cached_sd_eq:
  assumes "statsd_ok E"
  shows "reverse_cached_sd E M apbuf s = c_bind (reverse_cached M apbuf s) (\<lambda>r. Inr (r, dgram E (response_of (ascii ''lmdb'')) 1 ''c''))"
proof -
  have "no_nul (ascii ''lmdb'')" by code_simp
  then show ?thesis
    by (simp add: reverse_cached_sd_def reverse_cached_def Let_def c_bind_assoc send_json_sd_eq [OF assms])
qed

lemma reverse_fresh_sd_eq:
  assumes "statsd_ok E" and "no_nul (api_provider s)"
  shows "reverse_fresh_sd E W M lat lon geohash g s
    = c_bind (reverse_fresh W M lat lon geohash g s) (\<lambda>r. Inr (r, duration_sent E (api_provider s)))"
proof (cases "revgeo_getdata (lib_curl W) (apikey s) (api_provider s) lat lon g (geo_static s)")
  case (Inl e)
  then show ?thesis by (simp add: reverse_fresh_sd_def reverse_fresh_def Let_def)
next
  case (Inr r)
  obtain ok g' gs where r: "r = ((ok, g'), gs)" by (metis prod.exhaust)
  have "no_nul (ascii ''response.opencage.duration'')" by code_simp
  then have t: "sd_timing E (lit ''response.opencage.duration'') ms
      = Inr (dgram E (ascii ''response.opencage.duration'') ms ''ms'')" for ms
    using sd_timing_ok [OF assms(1), of _ "[]"] by (simp add: lit_def)
  show ?thesis
    by (cases ok) (simp_all add: reverse_fresh_sd_def reverse_fresh_def Let_def Inr r t duration_sent_def c_bind_assoc
        split_def send_json_sd_eq [OF assms])
qed

text \<open>The duration is exact when the microseconds differ by whole milliseconds.\<close>

lemma round_double_int: "\<bar>i\<bar> < 2 ^ 53 \<Longrightarrow> round_double (of_int i) = DFin (of_int i)"
  by (rule round_double_exact) (rule representable_int)

lemma opencage_millis_exact:
  assumes "snd (t_stop_oc E) - snd (t_start_oc E) = 1000 * k" and "fst (t_stop_oc E) - fst (t_start_oc E) = s"
    and "\<bar>k\<bar> \<le> 1000" and "\<bar>s\<bar> < 10 ^ 9"
  shows "d_to_long (opencage_millis E) = word_of_int (k + 1000 * s)"
proof -
  have 1: "d_of_int (1000 * k) = DFin (of_int (1000 * k))" "d_of_int s = DFin (of_int s)"
    unfolding d_of_int_def by (rule round_double_int; use assms(3,4) in simp)+
  have 2: "round_double (of_int k) = DFin (of_int k)" "round_double (of_int (1000 * s)) = DFin (of_int (1000 * s))"
    "round_double (of_int (k + 1000 * s)) = DFin (of_int (k + 1000 * s))"
    by (rule round_double_int; use assms(3,4) in simp)+
  have "d_div (DFin (of_int (1000 * k))) (DFin 1000) = DFin (of_int k)"
    using 2(1) by (auto simp: d_div_def Let_def d_zero_def)
  moreover have "d_mul (DFin (of_int s)) (DFin 1000) = DFin (of_int (1000 * s))"
    using 2(2) by (auto simp: d_mul_def Let_def d_zero_def mult.commute)
  ultimately have "opencage_millis E = DFin (of_int (k + 1000 * s))"
    using 2(3) by (simp add: opencage_millis_def assms(1,2) 1)
  moreover have "(if (of_int i :: rat) < 0 then - \<lfloor>- (of_int i :: rat)\<rfloor> else \<lfloor>of_int i :: rat\<rfloor>) = i" for i
    by (simp flip: of_int_minus)
  ultimately show ?thesis by (simp only: d_to_long_def finite_value.simps option.case)
qed

section \<open>The same answers\<close>

text \<open>What a request for a point sends, as the counters of the server tell.\<close>

definition asked :: "statistics \<Rightarrow> 64 word \<times> 64 word" where
  "asked st = (opencage st, locationiq st)"

definition point_sent :: "statsd \<Rightarrow> byte list \<Rightarrow> statistics \<Rightarrow> statistics \<Rightarrow> byte list list" where
  "point_sent E provider st st' =
     (if asked st' \<noteq> asked st then duration_sent E provider
      else if lmdb_hits st' \<noteq> lmdb_hits st then dgram E (response_of (ascii ''lmdb'')) 1 ''c''
      else [])"

definition request_sent :: "statsd \<Rightarrow> byte list \<Rightarrow> statistics \<Rightarrow> statistics \<Rightarrow> byte list list" where
  "request_sent E provider st st' =
     (if requests st' \<noteq> requests st then dgram E (ascii ''queries.incoming'') 1 ''c'' @ point_sent E provider st st'
      else [])"

lemma reverse_cached_counts:
  "reverse_cached M apbuf s = Inr (a, s') \<Longrightarrow> stat_counts s' = (stat_counts s)\<lparr>lmdb_hits := lmdb_hits (stat_counts s) + 1\<rparr>"
  by (auto simp: reverse_cached_def Let_def c_iff)

lemma reverse_fresh_stats:
  assumes "reverse_fresh W M lat lon geohash g s = Inr (a, s')"
  shows "\<exists>n. stat_counts s' = (count_service s)\<lparr>geofail := n\<rparr>"
proof -
  obtain ok g' gs where r: "revgeo_getdata (lib_curl W) (apikey s) (api_provider s) lat lon g (geo_static s)
      = Inr ((ok, g'), gs)"
    using assms unfolding reverse_fresh_def Let_def c_iff by (metis prod.exhaust)
  show ?thesis
  proof (cases ok)
    case True
    with assms r show ?thesis
      by (clarsimp simp: reverse_fresh_def Let_def c_iff) (metis statistics.surjective statistics.update_convs(3))
  next
    case False
    with assms r show ?thesis
      by (clarsimp simp: reverse_fresh_def Let_def c_iff) blast
  qed
qed

lemma count_service_counts:
  "asked ((count_service s)\<lparr>geofail := n\<rparr>) \<noteq> asked (stat_counts s)"
  "requests ((count_service s)\<lparr>geofail := n\<rparr>) = requests (stat_counts s)"
  by (simp_all add: count_service_def asked_def Let_def)

lemma reverse_fresh_counts:
  assumes "reverse_fresh W M lat lon geohash g s = Inr (a, s')"
  shows "asked (stat_counts s') \<noteq> asked (stat_counts s)" "requests (stat_counts s') = requests (stat_counts s)"
  using reverse_fresh_stats [OF assms] count_service_counts by metis+

lemma reverse_point_requests:
  assumes "reverse_point W M lat lon s = Inr (a, s')" shows "requests (stat_counts s') = requests (stat_counts s)"
  using assms
  by (fastforce simp: reverse_point_def c_iff Let_def split: option.splits if_splits prod.splits
      dest: reverse_fresh_counts(2) reverse_cached_counts)

lemma reverse_point_sd_eq:
  assumes "statsd_ok E" and "no_nul (api_provider s)"
  shows "reverse_point_sd E W M lat lon s = c_bind (reverse_point W M lat lon s) (\<lambda>(a, s').
     Inr ((a, s'), point_sent E (api_provider s) (stat_counts s) (stat_counts s')))"
proof -
  have cached: "reverse_cached_sd E M apbuf s1 = c_bind (reverse_cached M apbuf s1) (\<lambda>(a, s').
       Inr ((a, s'), point_sent E (api_provider s) (stat_counts s) (stat_counts s')))"
    if "stat_counts s1 = stat_counts s" for apbuf s1
    unfolding reverse_cached_sd_eq [OF assms(1)]
    by (rule c_bind_cong [OF refl]) (use that in \<open>auto simp: point_sent_def asked_def dest!: reverse_cached_counts\<close>)
  have fresh: "reverse_fresh_sd E W M lat lon geohash g s1 = c_bind (reverse_fresh W M lat lon geohash g s1) (\<lambda>(a, s').
       Inr ((a, s'), point_sent E (api_provider s) (stat_counts s) (stat_counts s')))"
    if "stat_counts s1 = stat_counts s" "api_provider s1 = api_provider s" for geohash g s1
    unfolding reverse_fresh_sd_eq [OF assms(1), of s1, unfolded that(2), OF assms(2)]
    by (rule c_bind_cong [OF refl]) (use that(1) in \<open>auto simp: point_sent_def dest!: reverse_fresh_counts(1)\<close>)
  show ?thesis
    unfolding reverse_point_sd_def reverse_point_def c_bind_assoc
  proof (rule c_bind_cong [OF refl], goal_cases)
    case (1 h)
    show ?case
    proof (cases h)
      case None
      then show ?thesis by (simp add: point_sent_def c_bind_assoc)
    next
      case (Some mem)
      show ?thesis
        unfolding Some option.case c_bind_assoc
      proof (rule c_bind_cong [OF refl], rule c_bind_cong [OF refl], rule c_bind_cong [OF refl], goal_cases)
        case (1 geohash g r)
        show ?case by (cases r) (auto simp: Let_def cached fresh)
      qed
    qed
  qed
qed

lemma get_reversegeo_sd_eq:
  assumes "statsd_ok E" and "no_nul (api_provider s)"
  shows "get_reversegeo_sd E W M rq s = c_bind (get_reversegeo W M rq s) (\<lambda>(a, s').
     Inr ((a, s'), request_sent E (api_provider s) (stat_counts s) (stat_counts s')))"
proof -
  have "no_nul (ascii ''queries.incoming'')" by code_simp
  then have inc: "sd_inc E (lit ''queries.incoming'') = Inr (dgram E (ascii ''queries.incoming'') 1 ''c'')"
    using sd_inc_ok [OF assms(1), of _ "[]"] by (simp add: lit_def)
  let ?app = "rq_arg rq (ascii ''app'')"
  define s1 where "s1 = (let st = stat_counts s; s = s\<lparr>stat_counts := st\<lparr>requests := requests st + 1\<rparr>\<rparr>
    in if ?app \<noteq> None \<and> ?app \<noteq> Some [] then s\<lparr>appcache := count_app (appcache s) (the ?app)\<rparr> else s)"
  have st: "stat_counts s1 = (stat_counts s)\<lparr>requests := requests (stat_counts s) + 1\<rparr>" "api_provider s1 = api_provider s"
    by (simp_all add: s1_def Let_def)
  let ?missing = "rq_arg rq (ascii ''lat'') = None \<or> rq_arg rq (ascii ''lon'') = None
    \<or> rq_arg rq (ascii ''lat'') = Some [] \<or> rq_arg rq (ascii ''lon'') = Some []"
  let ?lat = "atof (the (rq_arg rq (ascii ''lat'')))" and ?lon = "atof (the (rq_arg rq (ascii ''lon'')))"
  let ?sent = "\<lambda>s'. request_sent E (api_provider s) (stat_counts s) (stat_counts s')"
  have run: "get_reversegeo_sd E W M rq s = c_bind (if ?missing then
        c_bind (send_page M (lit ''One of lat or lon missing'') NOT_ACCEPTABLE) (\<lambda>a. Inr ((a, s1), []))
      else reverse_point_sd E W M ?lat ?lon s1) (\<lambda>(r, sent2). Inr (r, dgram E (ascii ''queries.incoming'') 1 ''c'' @ sent2))"
    by (simp add: get_reversegeo_sd_def inc Let_def s1_def)
  have plain: "get_reversegeo W M rq s = (if ?missing then
        c_bind (send_page M (lit ''One of lat or lon missing'') NOT_ACCEPTABLE) (\<lambda>a. Inr (a, s1))
      else reverse_point W M ?lat ?lon s1)"
    by (simp add: get_reversegeo_def Let_def s1_def)
  show ?thesis
  proof (cases ?missing)
    case True
    then show ?thesis
      unfolding run plain by (simp add: c_bind_assoc request_sent_def point_sent_def asked_def st)
  next
    case False
    have "c_bind (reverse_point W M ?lat ?lon s1) (\<lambda>r. c_bind (case r of (a, s') \<Rightarrow>
          Inr ((a, s'), point_sent E (api_provider s) (stat_counts s1) (stat_counts s')))
          (\<lambda>(r, sent2). Inr (r, dgram E (ascii ''queries.incoming'') 1 ''c'' @ sent2)))
        = c_bind (reverse_point W M ?lat ?lon s1) (\<lambda>(a, s'). Inr ((a, s'), ?sent s'))"
    proof (rule c_bind_cong [OF refl], goal_cases)
      case (1 r)
      obtain a s' where r: "r = (a, s')" by (cases r)
      have "requests (stat_counts s') = requests (stat_counts s) + 1"
        using reverse_point_requests [of W M ?lat ?lon s1 a s'] 1 by (simp add: r st)
      then show ?case by (simp add: r request_sent_def point_sent_def asked_def st)
    qed
    then show ?thesis
      using False assms(2) unfolding run plain
      by (simp only: if_False reverse_point_sd_eq [OF assms(1), of s1, unfolded st(2)] c_bind_assoc)
  qed
qed

lemma quiet_handlers:
  "c_bind r (\<lambda>r. Inr (r, [])) = c_bind r (\<lambda>(a, s'). Inr ((a, s'), request_sent E p (stat_counts s) (stat_counts s')))"
  if "\<And>a s'. r = Inr (a, s') \<Longrightarrow> stat_counts s' = stat_counts s"
  by (rule c_bind_cong [OF refl]) (use that in \<open>auto simp: request_sent_def\<close>)

lemma quiet_counts:
  "get_dumpall W M s = Inr (a, s') \<Longrightarrow> stat_counts s' = stat_counts s"
  "get_lookup W M rq s = Inr (a, s') \<Longrightarrow> stat_counts s' = stat_counts s"
  "get_kill W M rq s = Inr (a, s') \<Longrightarrow> stat_counts s' = stat_counts s"
  by (auto simp: get_dumpall_def get_lookup_def get_kill_def Let_def c_iff split: option.splits if_splits prod.splits)

text \<open>C21: In the build with \<open>STATSD\<close> a request other than to \<open>/stats\<close> has the same answer, the same effect
  on the server and the same faults as in the build without, whether there is a link or not. Its
  datagrams are those that the counters tell: one for a request to \<open>/rev\<close>, and then one for the
  answer from the database, or the duration and one for the service that was asked.\<close>

theorem statsd_build_transparent:
  assumes "statsd_ok E" and "no_nul (api_provider s)"
    and "rq_method rq \<noteq> ascii ''GET'' \<or> rq_url rq \<noteq> ascii ''/stats''"
  shows "handle_connection_sd E W M rq s = c_bind (handle_connection W M rq s) (\<lambda>(a, s').
     Inr ((a, s'), request_sent E (api_provider s) (stat_counts s) (stat_counts s')))"
proof -
  have page: "c_bind (c_bind (send_page M b c) (\<lambda>a. Inr (a, s))) (\<lambda>r. Inr (r, []))
      = c_bind (c_bind (send_page M b c) (\<lambda>a. Inr (a, s))) (\<lambda>(a, s').
          Inr ((a, s'), request_sent E (api_provider s) (stat_counts s) (stat_counts s')))" for b c
    by (rule quiet_handlers) (auto simp: c_iff)
  let ?f = "\<lambda>(a, s'). Inr ((a, s'), request_sent E (api_provider s) (stat_counts s) (stat_counts s'))"
  have quiet: "c_bind (get_dumpall W M s) (\<lambda>r. Inr (r, [])) = c_bind (get_dumpall W M s) ?f"
    "c_bind (get_lookup W M rq s) (\<lambda>r. Inr (r, [])) = c_bind (get_lookup W M rq s) ?f"
    "c_bind (get_kill W M rq s) (\<lambda>r. Inr (r, [])) = c_bind (get_kill W M rq s) ?f"
    by (rule quiet_handlers, erule quiet_counts)+
  note rules = page quiet get_reversegeo_sd_eq [OF assms(1,2), of W M rq]
  have if_bind: "c_bind (if b then x else y) g = (if b then c_bind x g else c_bind y g)" for b and x y and g
    by simp
  show ?thesis
  proof (cases "rq_method rq = ascii ''GET''")
    case True
    with assms(3) have "(rq_url rq = ascii ''/stats'') = False" by simp
    then show ?thesis
      unfolding handle_connection_sd_def handle_connection_def Let_def if_bind
      by (simp only: True not_True_eq_False if_False rules)
  next
    case False
    then show ?thesis
      unfolding handle_connection_sd_def handle_connection_def Let_def if_bind
      by (simp only: not_False_eq_True if_True rules)
  qed
qed

definition mem_statsd :: statsd where
  "mem_statsd = \<lparr>sd_link = Some \<lparr>sock = 3, ns = Some (ascii ''revgeo.'')\<rparr>, sd_sendto = (\<lambda>_. True), sd_random = DNaN,
     sd_stack = replicate 100 0, sd_str = replicate 128 0, t_start_oc = (10, 900000), t_stop_oc = (11, 150000)\<rparr>"

theorem statsd_build_transparent_witness:
  "\<exists>a s' sent. handle_connection_sd mem_statsd mem_libs mem_moment rev_brussels mem_server = Inr ((a, s'), sent)
     \<and> handle_connection mem_libs mem_moment rev_brussels mem_server = Inr (a, s')
     \<and> hd sent = ascii ''revgeo.queries.incoming:1|c''"
proof -
  obtain a s' where run: "handle_connection mem_libs mem_moment rev_brussels mem_server = Inr (a, s')"
    using mem_daemon.step_ok [OF mem_server_ok mem_moment_ok rev_brussels_ok(1)] mem_server_service by blast
  then have "runs mem_libs mem_server ([] @ [rev_brussels]) s'"
    using mem_moment_ok rev_brussels_ok(1) by (intro runs.Serve [OF runs.Start])
  then have "requests (stat_counts s') = requests (stat_counts mem_server) + 1"
    using mem_daemon.runs_ok [OF _ mem_server_ok mem_server_service] rev_brussels_ok(2) by (fastforce simp: count_of_def)
  then have counted: "requests (stat_counts s') \<noteq> requests (stat_counts mem_server)" by simp
  have ok: "statsd_ok mem_statsd"
    by (simp add: statsd_ok_def mem_statsd_def MAX_MSG_LEN_def no_nul_def ascii_def)
  have provider: "no_nul (api_provider mem_server)" by (simp add: mem_server_def no_nul_def ascii_def)
  have url: "rq_url rev_brussels \<noteq> ascii ''/stats''" by (simp add: rev_brussels_def get_request_def ascii_def)
  have first: "dgram mem_statsd (ascii ''queries.incoming'') 1 ''c'' = [ascii ''revgeo.queries.incoming:1|c'']"
    by code_simp
  show ?thesis
    using statsd_build_transparent [OF ok provider, of rev_brussels mem_libs mem_moment] url run counted
    by (auto simp: request_sent_def first)
qed

end
