(* ===== verification/Revgeod_Signals.thy ===== *)
theory Revgeod_Signals
  imports Revgeod_Claims
begin

text \<open>
  The signals of revgeod.c. \<open>main\<close> installs \<open>catcher\<close> for SIGPIPE, which a client that hangs up causes,
  and for SIGINT. The disposition of a signal is kept here for these two; the default of both ends the
  process, and a shell then sees 128 and the number of the signal.
\<close>

datatype disposition = Default_Action | Catcher

definition SIGPIPE :: int where "SIGPIPE = 13"

text \<open>\<open>works\<close> says whether \<open>sigaction\<close> returns zero; when it does not, the code prints a message and goes on.\<close>

definition ignore_sigpipe :: "bool \<Rightarrow> (int \<Rightarrow> disposition) \<Rightarrow> int \<Rightarrow> disposition" where
  "ignore_sigpipe works disp = (if works then disp(SIGPIPE := Catcher) else disp)"

definition install_handlers :: "bool \<Rightarrow> (int \<Rightarrow> disposition) \<Rightarrow> int \<Rightarrow> disposition" where
  "install_handlers works disp = (ignore_sigpipe works disp)(SIGINT := Catcher)"

text \<open>What a signal does to the process: its exit code, or \<open>None\<close> while it goes on.\<close>

definition deliver ::
  "('l, 'n) libs \<Rightarrow> (int \<Rightarrow> disposition) \<Rightarrow> int \<Rightarrow> ('l, 'n) server \<Rightarrow> (int option \<times> ('l, 'n) server) cres" where
  "deliver W disp sig s = (case disp sig of
     Default_Action \<Rightarrow> Inr (Some (128 + sig), s)
   | Catcher \<Rightarrow> catcher W sig s)"

primrec deliver_all ::
  "('l, 'n) libs \<Rightarrow> (int \<Rightarrow> disposition) \<Rightarrow> int list \<Rightarrow> ('l, 'n) server \<Rightarrow> (int option \<times> ('l, 'n) server) cres" where
  "deliver_all W disp [] s = Inr (None, s)"
| "deliver_all W disp (sig # sigs) s = c_bind (deliver W disp sig s) (\<lambda>(rc, s).
     if rc = None then deliver_all W disp sigs s else Inr (rc, s))"

lemma installed:
  "install_handlers True disp SIGPIPE = Catcher"
  "install_handlers works disp SIGINT = Catcher"
  "install_handlers False disp SIGPIPE = disp SIGPIPE"
  by (simp_all add: install_handlers_def ignore_sigpipe_def SIGPIPE_def SIGINT_def)

lemma sigpipe_ignored: "deliver W (install_handlers True disp) SIGPIPE s = Inr (None, s)"
  by (simp add: deliver_def installed(1)) (simp add: catcher_def SIGPIPE_def SIGINT_def)

text \<open>Hang-ups leave the daemon as it is, however many there are; the first interrupt closes the
  database, whose records stay, and ends the process with code 1.\<close>

lemma signals_handled:
  assumes "daemon W disk env txn cursor healthy main p"
    and "server_ok disk env healthy main e p s" and "set sigs \<subseteq> {SIGPIPE, SIGINT}"
  shows "\<exists>l. deliver_all W (install_handlers True disp) sigs s
      = Inr (if SIGINT \<in> set sigs then (Some 1, s\<lparr>records := l\<rparr>) else (None, s))
    \<and> disk l = disk (records s)"
  using assms(3)
proof (induction sigs)
  case Nil
  then show ?case by auto
next
  case (Cons sig sigs)
  then have sig: "sig = SIGPIPE \<or> sig = SIGINT" by simp
  show ?case
  proof (cases "sig = SIGINT")
    case True
    obtain l where "catcher W SIGINT s = Inr (Some 1, s\<lparr>records := l\<rparr>)" "disk l = disk (records s)"
      using daemon.catcher_ok [OF assms(1,2), of SIGINT] by auto
    then show ?thesis using True by (auto simp: deliver_def installed)
  next
    case False
    then show ?thesis using Cons sig by (auto simp: sigpipe_ignored)
  qed
qed

text \<open>When \<open>sigaction\<close> fails, the first client that hangs up ends the daemon with the database open.\<close>

lemma sigpipe_not_installed:
  "deliver_all W (install_handlers False (\<lambda>_. Default_Action)) (SIGPIPE # sigs) s = Inr (Some 141, s)"
  by (simp add: deliver_def installed) (simp add: SIGPIPE_def)

end
