(* ===== verification/Statsd_Test.thy ===== *)
theory Statsd_Test
  imports Statsd
begin

text \<open>
  statsd/test-client.c: a program that calls the client with fixed arguments. What it hands to \<open>sendto\<close>
  depends on the sockets, on the resolver, and on the random numbers for the ten metrics that are
  sampled; \<open>draw\<close> is the number that \<open>should_send\<close> gets at the \<open>i\<close>-th of them.
\<close>

section \<open>The program\<close>

record testworld =
  tw_socket :: int
  tw_socket2 :: int
  tw_resolved :: "byte list \<Rightarrow> bool"
  tw_sendto :: "byte list \<Rightarrow> bool"
  tw_stack :: "byte list"
  draw :: "nat \<Rightarrow> double"

text \<open>The \<open>float\<close> next to 0.8.\<close>

definition rate08 :: double where "rate08 = DFin (13421773 / 16777216)"

fun count3_loop :: "testworld \<Rightarrow> link option \<Rightarrow> nat list \<Rightarrow> byte list list cres" where
  "count3_loop w link2 [] = Inr []"
| "count3_loop w link2 (i # is) =
     c_bind (sent_by (statsd_count (tw_sendto w) (draw w i) (tw_stack w) link2 (ascii ''count3'' @ [0]) (of_nat i) rate08)) (\<lambda>d.
     c_bind (count3_loop w link2 is) (\<lambda>ds. Inr (d @ ds)))"

text \<open>The datagrams and the sockets that are closed.\<close>

definition test_main :: "testworld \<Rightarrow> (byte list list \<times> int option \<times> int option) cres" where
  "test_main w =
     (let snd_to = tw_sendto w; ar = tw_stack w; r = DNaN;
          lk = statsd_init (tw_socket w) (tw_resolved w) (Some (ascii ''127.0.0.1'')) 8125
      in c_bind (sent_by (statsd_count snd_to r ar lk (ascii ''count1'' @ [0]) 123 (DFin 1))) (\<lambda>d1.
         let link2 = statsd_init_with_namespace (tw_socket2 w) (tw_resolved w) (Some (ascii ''127.0.0.1'')) 8125
               (Some (ascii ''mynamespace''))
         in c_bind (sent_by (statsd_count snd_to r ar lk (ascii ''count2'' @ [0]) 125 (DFin 1))) (\<lambda>d2.
            c_bind (sent_by (statsd_gauge snd_to r ar lk (ascii ''speed'' @ [0]) 10)) (\<lambda>d3.
            c_bind (sent_by (statsd_timing snd_to r ar link2 (ascii ''request'' @ [0]) 2400)) (\<lambda>d4.
            c_bind (sent_by (statsd_inc snd_to r ar lk (ascii ''count1'' @ [0]) (DFin 1))) (\<lambda>d5.
            c_bind (sent_by (statsd_dec snd_to r ar link2 (ascii ''count2'' @ [0]) (DFin 1))) (\<lambda>d6.
            c_bind (count3_loop w link2 [0..<10]) (\<lambda>ds.
              Inr (d1 @ d2 @ d3 @ d4 @ d5 @ d6 @ ds, statsd_finalize lk, statsd_finalize link2)))))))))"

section \<open>What it sends\<close>

lemma sent_full:
  assumes "no_nul stat" and "no_nul ty" and "\<forall>n. ns l = Some n \<longrightarrow> no_nul n" and "length stack = MAX_MSG_LEN"
    and "metric (ns l) (map clean_char stat) v ty rate False = msg" and "length msg < MAX_MSG_LEN"
  shows "sent_by (send_stat snd_to p stack (Some l) (stat @ [0]) v ty rate) = Inr (if should_send p rate then [msg] else [])"
proof (cases "should_send p rate")
  case True
  then show ?thesis
    using send_stat_ok [OF assms(1-4) True, of snd_to "[]" v] assms(5,6)
    by (simp add: sent_by_def Let_def MAX_MSG_LEN_def)
qed (simp add: sent_by_def send_stat_def)

lemma due: "should_send p (DFin 1)"
  by (simp add: should_send_def d_lt_def)

lemma dec_pad_numeral: "dec_pad (numeral k) n = dec_pad (pred_numeral k) (n div 10) @ [digit (n mod 10)]"
  unfolding numeral_eq_Suc [of k] by (rule dec_pad.simps)

lemma fmt_rate: "fmt_5f rate08 = ascii ''0.80000''"
proof -
  have "\<lfloor>41943040625 / 524288 :: rat\<rfloor> = 80000" by (simp add: floor_eq_iff)
  then have "round_even (13421773 / 16777216 * 10 ^ 5) = 80000" by (simp add: round_even_def Let_def)
  then have "fmt_5f rate08 = fmt_sign False @ dec_digits 0 @ [0x2E] @ dec_pad 5 80000"
    by (simp add: fmt_5f_def rate08_def Let_def)
  also have "dec_pad 5 80000 = [0x38, 0x30, 0x30, 0x30, 0x30]" by (simp add: dec_pad_numeral digit_def)
  finally show ?thesis by (simp add: fmt_sign_def ascii_def digit_def)
qed

definition count3_text :: "nat \<Rightarrow> byte list" where
  "count3_text i = ascii ''mynamespace.count3:'' @ [0x30 + of_nat i] @ ascii ''|c|@0.80000''"

lemma count3_metric:
  assumes "i < 10"
  shows "metric (Some (ascii ''mynamespace'' @ ascii ''.'')) (map clean_char (ascii ''count3'')) (of_nat i) (ascii ''c'') rate08 False
    = count3_text i"
proof -
  have "sint (of_nat i :: 64 word) = int i" using assms by (simp add: signed_of_nat signed_take_bit_int_eq_self)
  moreover have "dec_digits i = [0x30 + of_nat i]" using assms by (subst dec_digits.simps) (simp add: digit_def)
  moreover have "map clean_char (ascii ''count3'') = ascii ''count3''"
    "(ascii ''mynamespace'' @ ascii ''.'') @ ascii ''count3'' @ ascii '':'' = ascii ''mynamespace.count3:''"
    "ascii ''|'' @ ascii ''c'' @ ascii ''|@'' @ ascii ''0.80000'' = ascii ''|c|@0.80000''" by code_simp+
  moreover have "\<not> d_eq rate08 (DFin 1)" by (simp add: rate08_def d_eq_def)
  ultimately show ?thesis
    by (simp add: metric_def fmt_d_def fmt_sign_def fmt_rate count3_text_def flip: append_assoc)
qed

text \<open>The texts of the metrics with fixed arguments.\<close>

lemma test_metrics:
  "metric None (map clean_char (ascii ''count1'')) 123 (ascii ''c'') (DFin 1) False = ascii ''count1:123|c''"
  "metric None (map clean_char (ascii ''count2'')) 125 (ascii ''c'') (DFin 1) False = ascii ''count2:125|c''"
  "metric None (map clean_char (ascii ''speed'')) 10 (ascii ''g'') (DFin 1) False = ascii ''speed:10|g''"
  "metric None (map clean_char (ascii ''count1'')) 1 (ascii ''c'') (DFin 1) False = ascii ''count1:1|c''"
  "metric (Some (ascii ''mynamespace'' @ ascii ''.'')) (map clean_char (ascii ''request'')) 2400 (ascii ''ms'') (DFin 1) False
    = ascii ''mynamespace.request:2400|ms''"
  "metric (Some (ascii ''mynamespace'' @ ascii ''.'')) (map clean_char (ascii ''count2'')) (- 1) (ascii ''c'') (DFin 1) False
    = ascii ''mynamespace.count2:-1|c''"
  by code_simp+

lemma plain_texts:
  "no_nul (ascii ''count1'')" "no_nul (ascii ''count2'')" "no_nul (ascii ''count3'')" "no_nul (ascii ''speed'')"
  "no_nul (ascii ''request'')" "no_nul (ascii ''c'')" "no_nul (ascii ''g'')" "no_nul (ascii ''ms'')"
  "no_nul (ascii ''mynamespace'' @ ascii ''.'')"
  by code_simp+

lemma count3_loop_ok:
  assumes "length (tw_stack w) = MAX_MSG_LEN" and "ns l = Some (ascii ''mynamespace'' @ ascii ''.'')" and "set is \<subseteq> {..<10}"
  shows "count3_loop w (Some l) is = Inr (map count3_text (filter (\<lambda>i. should_send (draw w i) rate08) is))"
  using assms(3)
proof (induction "is")
  case (Cons i "is")
  have "length (count3_text i) < MAX_MSG_LEN" by (simp add: count3_text_def MAX_MSG_LEN_def ascii_def)
  then have "sent_by (statsd_count (tw_sendto w) (draw w i) (tw_stack w) (Some l) (ascii ''count3'' @ [0]) (of_nat i) rate08)
      = Inr (if should_send (draw w i) rate08 then [count3_text i] else [])"
    unfolding statsd_count_def
    by (intro sent_full) (use Cons.prems assms(1,2) plain_texts count3_metric in auto)
  then show ?case using Cons by simp
qed simp

text \<open>With both sockets the test client sends six metrics, then those of the ten sampled counts that are due,
  and closes both sockets.\<close>

lemma test_main_sends:
  assumes "tw_socket w \<noteq> - 1" and "tw_socket2 w \<noteq> - 1" and "tw_resolved w (ascii ''127.0.0.1'')"
    and "length (tw_stack w) = MAX_MSG_LEN"
  shows "test_main w = Inr ([ascii ''count1:123|c'', ascii ''count2:125|c'', ascii ''speed:10|g'',
      ascii ''mynamespace.request:2400|ms'', ascii ''count1:1|c'', ascii ''mynamespace.count2:-1|c'']
      @ map count3_text (filter (\<lambda>i. should_send (draw w i) rate08) [0..<10]), Some (tw_socket w), Some (tw_socket2 w))"
proof -
  let ?l1 = "\<lparr>sock = tw_socket w, ns = None\<rparr>"
  let ?l2 = "\<lparr>sock = tw_socket2 w, ns = Some (ascii ''mynamespace'' @ ascii ''.'')\<rparr>"
  have links: "statsd_init (tw_socket w) (tw_resolved w) (Some (ascii ''127.0.0.1'')) 8125 = Some ?l1"
    "statsd_init_with_namespace (tw_socket2 w) (tw_resolved w) (Some (ascii ''127.0.0.1'')) 8125
      (Some (ascii ''mynamespace'')) = Some ?l2"
    using assms(1-3) by (simp_all add: statsd_init_def statsd_init_with_namespace_def)
  have sent: "sent_by (send_stat (tw_sendto w) DNaN (tw_stack w) (Some l) (stat @ [0]) v ty (DFin 1)) = Inr [msg]"
    if "no_nul stat" "no_nul ty" "\<forall>n. ns l = Some n \<longrightarrow> no_nul n"
      "metric (ns l) (map clean_char stat) v ty (DFin 1) False = msg" "length msg < MAX_MSG_LEN" for stat v ty l msg
    using sent_full [OF that(1-3) assms(4) that(4,5)] due by simp
  have short: "length (ascii ''count1:123|c'') < MAX_MSG_LEN" "length (ascii ''count2:125|c'') < MAX_MSG_LEN"
    "length (ascii ''speed:10|g'') < MAX_MSG_LEN" "length (ascii ''mynamespace.request:2400|ms'') < MAX_MSG_LEN"
    "length (ascii ''count1:1|c'') < MAX_MSG_LEN" "length (ascii ''mynamespace.count2:-1|c'') < MAX_MSG_LEN"
    by (simp_all add: MAX_MSG_LEN_def ascii_def)
  note go = sent [of "ascii ''count1''" "ascii ''c''" ?l1 123, OF _ _ _ _ short(1)]
    sent [of "ascii ''count2''" "ascii ''c''" ?l1 125, OF _ _ _ _ short(2)]
    sent [of "ascii ''speed''" "ascii ''g''" ?l1 10, OF _ _ _ _ short(3)]
    sent [of "ascii ''request''" "ascii ''ms''" ?l2 2400, OF _ _ _ _ short(4)]
    sent [of "ascii ''count1''" "ascii ''c''" ?l1 1, OF _ _ _ _ short(5)]
    sent [of "ascii ''count2''" "ascii ''c''" ?l2 "- 1", OF _ _ _ _ short(6)]
  have loop: "count3_loop w (Some ?l2) [0..<10] = Inr (map count3_text (filter (\<lambda>i. should_send (draw w i) rate08) [0..<10]))"
    by (rule count3_loop_ok) (use assms(4) in auto)
  show ?thesis
    using go plain_texts test_metrics assms(1,2)
    by (simp add: test_main_def Let_def links loop statsd_count_def statsd_gauge_def statsd_timing_def
        statsd_timing_with_sample_rate_def statsd_inc_def statsd_dec_def statsd_finalize_def)
qed

end
