(* ===== verification/Uptimed.thy ===== *)
theory Uptimed
  imports Statsd
begin

text \<open>
  statsd/uptimed.c: the daemon that sends the load, the memory, the traffic of an interface and the
  use of the processor to the statsd server once a minute. What the system answers in a round, the
  counters of \<open>sysinfo\<close> and the files /proc/net/dev and /proc/stat, is the record \<open>obs\<close>; the variables
  of \<open>main\<close> that keep their values from round to round are the record \<open>upvars\<close>. The arrays have their
  fixed sizes, and every write into them is checked.
\<close>

section \<open>Strings\<close>

definition MAX_LINE_LEN :: nat where "MAX_LINE_LEN = 200"

definition PKT_LEN :: nat where "PKT_LEN = 1400"

definition strcat :: "byte list \<Rightarrow> byte list \<Rightarrow> byte list cres" where
  "strcat dst src =
     (if \<not> nulterm dst \<or> \<not> nulterm src then Inl OutOfBounds
      else write_at dst (length (cstring dst)) (cstring src @ [0]))"

fun strstr :: "byte list \<Rightarrow> byte list \<Rightarrow> bool" where
  "strstr [] needle = (needle = [])"
| "strstr (c # s) needle = (take (length needle) (c # s) = needle \<or> strstr s needle)"

text \<open>
  \<open>strtok_r\<close> with a blank: the index where the search begins, in the array, to the index of the
  token, the array with a zero behind the token, and the index for the next call.
\<close>

definition strtok :: "byte list \<Rightarrow> nat \<Rightarrow> (nat option \<times> byte list \<times> nat) cres" where
  "strtok ar lasts =
     (let p = lasts + length (takeWhile (\<lambda>c. c = 0x20) (drop lasts ar))
      in if length ar \<le> p then Inl OutOfBounds
         else if ar ! p = 0 then Inr (None, ar, p)
         else let q = p + length (takeWhile (\<lambda>c. c \<noteq> 0x20 \<and> c \<noteq> 0) (drop p ar))
              in if length ar \<le> q then Inl OutOfBounds
                 else if ar ! q = 0 then Inr (Some p, ar, q)
                 else Inr (Some p, ar[q := 0], q + 1))"

text \<open>\<open>strtol\<close> and \<open>strtoul\<close> stop at the ends of their 64 bits; \<open>atoi\<close> and \<open>%u\<close> keep the lower 32.\<close>

definition strtol :: "byte list \<Rightarrow> int" where
  "strtol s = (case read_sign (dropWhile isspace s) of (neg, t) \<Rightarrow>
     let n = int (nat_of_digits (takeWhile is_digit t))
     in if neg then max (- (2 ^ 63)) (- n) else min (2 ^ 63 - 1) n)"

definition atoi32 :: "byte list \<Rightarrow> 32 word" where
  "atoi32 s = word_of_int (strtol s)"

text \<open>One \<open>%u\<close> of \<open>sscanf\<close>: the number and the rest of the input.\<close>

definition scan_u :: "byte list \<Rightarrow> (32 word \<times> byte list) option" where
  "scan_u s = (case read_sign (dropWhile isspace s) of (neg, t) \<Rightarrow>
     let ds = takeWhile is_digit t; n = min (int (nat_of_digits ds)) (2 ^ 64 - 1)
     in if ds = [] then None else Some (word_of_int (if neg then - n else n), dropWhile is_digit t))"

fun scan_us :: "nat \<Rightarrow> byte list \<Rightarrow> 32 word list" where
  "scan_us 0 s = []"
| "scan_us (Suc k) s = (case scan_u s of None \<Rightarrow> [] | Some (n, r) \<Rightarrow> n # scan_us k r)"

text \<open>The conversions that \<open>sscanf(line, "cpu  %u %u %u %u", ..)\<close> makes.\<close>

definition scan_cpu :: "byte list \<Rightarrow> 32 word list" where
  "scan_cpu s = (if take 3 s = ascii ''cpu'' then scan_us 4 (drop 3 s) else [])"

section \<open>A round\<close>

record obs =
  loads0 :: "64 word"
  freeram :: "64 word"
  procs :: "16 word"
  si_uptime :: "64 word"
  net_dev :: "byte list"
  proc_stat :: "byte list"

record upvars =
  line_ar :: "byte list"
  tmp_ar :: "byte list"
  pkt_ar :: "byte list"
  cpu_vars :: "32 word list"
  old_total :: "32 word"
  old_busy :: "32 word"

text \<open>\<open>statsd_prepare\<close> into \<open>tmp\<close> and \<open>strcat\<close> to the packet.\<close>

definition report :: "link option \<Rightarrow> string \<Rightarrow> 64 word \<Rightarrow> string \<Rightarrow> bool \<Rightarrow> upvars \<Rightarrow> upvars cres" where
  "report lk name value ty lf v =
     c_bind (statsd_prepare lk (ascii name @ [0]) value (ascii ty) (DFin 1) (tmp_ar v) MAX_LINE_LEN lf) (\<lambda>(_, tmp).
     c_bind (strcat (pkt_ar v) tmp) (\<lambda>pkt. Inr (v\<lparr>tmp_ar := tmp, pkt_ar := pkt\<rparr>)))"

lemma report_line: "report lk name value ty lf v = Inr v' \<Longrightarrow> line_ar v' = line_ar v"
  by (auto simp: report_def c_iff)

lemma strtok_progress:
  assumes "strtok ar lasts = Inr (Some p, ar', lasts')"
  shows "lasts < lasts' \<and> lasts' \<le> length ar \<and> length ar' = length ar"
proof -
  let ?d = "drop lasts ar"
  let ?p = "lasts + length (takeWhile (\<lambda>c. c = 0x20) ?d)"
  let ?w = "takeWhile (\<lambda>c. c \<noteq> 0x20 \<and> c \<noteq> 0) (drop ?p ar)"
  have p: "?p < length ar" "ar ! ?p \<noteq> 0" using assms by (auto simp: strtok_def Let_def split: if_splits)
  have d: "drop ?p ar = dropWhile (\<lambda>c. c = 0x20) ?d" by (simp add: dropWhile_eq_drop add.commute)
  have c: "drop ?p ar = ar ! ?p # drop (Suc ?p) ar" using p(1) by (rule Cons_nth_drop_Suc [symmetric])
  then have "dropWhile (\<lambda>c. c = 0x20) ?d \<noteq> []" using d by simp
  then have "hd (dropWhile (\<lambda>c. c = 0x20) ?d) \<noteq> 0x20" by (rule hd_dropWhile)
  then have "ar ! ?p \<noteq> 0x20" unfolding d [symmetric] c by simp
  then have "0 < length ?w" using p(2) unfolding c by simp
  then show ?thesis using assms by (auto simp: strtok_def Let_def split: if_splits)
qed

text \<open>The loop over the fields of a line of /proc/net/dev; \<open>i\<close> counts them.\<close>

function net_fields :: "link option \<Rightarrow> nat \<Rightarrow> nat \<Rightarrow> upvars \<Rightarrow> upvars cres" where
  "net_fields lk i lasts v =
     c_bind (strtok (line_ar v) lasts) (\<lambda>(p, ar, lasts').
       let v = v\<lparr>line_ar := ar\<rparr>
       in case p of None \<Rightarrow> Inr v
          | Some p \<Rightarrow>
              if i = 1 then
                c_bind (report lk ''if-rx'' (scast (atoi32 (cstring (drop p ar)))) ''c'' True v) (\<lambda>v.
                  net_fields lk (i + 1) lasts' v)
              else if i = 9 then report lk ''if-tx'' (scast (atoi32 (cstring (drop p ar)))) ''c'' True v
              else net_fields lk (i + 1) lasts' v)"
  by pat_completeness auto
termination
proof (relation "measure (\<lambda>(lk, i, lasts, v). length (line_ar v) - lasts)", goal_cases)
  case (2 lk i lasts v x p ar y lasts' p' v')
  then show ?case using strtok_progress [of "line_ar v" lasts] report_line by fastforce
next
  case (3 lk i lasts v x p ar y lasts' p')
  then show ?case using strtok_progress [of "line_ar v" lasts] by fastforce
qed simp

declare net_fields.simps [simp del]

text \<open>Whether \<open>fgets\<close> has met the end of the file, and the array after the call.\<close>

definition fgets_eof :: "nat \<Rightarrow> byte list \<Rightarrow> bool" where
  "fgets_eof n inp \<longleftrightarrow> length inp < n - 1 \<and> 0x0A \<notin> set inp"

definition fgets :: "nat \<Rightarrow> byte list \<Rightarrow> byte list \<Rightarrow> byte list cres" where
  "fgets n inp buf = (if inp = [] then Inr buf else write_at buf 0 (take (fgets_len n inp) inp @ [0]))"

function net_loop :: "link option \<Rightarrow> byte list \<Rightarrow> byte list \<Rightarrow> upvars \<Rightarrow> upvars cres" where
  "net_loop lk iface inp v =
     c_bind (fgets MAX_LINE_LEN inp (line_ar v)) (\<lambda>ar.
     let v = v\<lparr>line_ar := ar\<rparr>
     in c_bind (if \<not> nulterm ar then Inl OutOfBounds
                else if \<not> strstr (cstring ar) iface then Inr v
                else net_fields lk 0 0 v) (\<lambda>v.
        if fgets_eof MAX_LINE_LEN inp then Inr v
        else net_loop lk iface (drop (fgets_len MAX_LINE_LEN inp) inp) v))"
  by pat_completeness auto
termination
proof (relation "measure (\<lambda>(lk, iface, inp, v). length inp)", goal_cases)
  case (2 lk iface inp v ar v1 v2)
  then have "inp \<noteq> []" by (auto simp: fgets_eof_def MAX_LINE_LEN_def)
  then show ?case using fgets_len_pos [of inp MAX_LINE_LEN] by (simp add: MAX_LINE_LEN_def)
qed simp

declare net_loop.simps [simp del]

text \<open>A division by zero ends the process.\<close>

definition cpu_part :: "link option \<Rightarrow> byte list \<Rightarrow> upvars \<Rightarrow> (32 word \<times> 32 word \<times> upvars) cres" where
  "cpu_part lk inp v =
     c_bind (fgets MAX_LINE_LEN inp (line_ar v)) (\<lambda>ar.
     if \<not> nulterm ar then Inl OutOfBounds
     else let xs = scan_cpu (cstring ar);
              vs = xs @ drop (length xs) (cpu_vars v);
              v = v\<lparr>line_ar := ar, cpu_vars := vs\<rparr>;
              user = vs ! 0; sys = vs ! 2; idle = vs ! 3;
              total = user + sys + idle;
              busy = user + sys
          in if total - old_total v = 0 then Inl NoReturn
             else c_bind (report lk ''cpu'' (ucast (100 * (busy - old_busy v) div (total - old_total v))) ''g'' False v)
               (\<lambda>v. Inr (total, busy, v)))"

definition uptimed_round ::
  "(byte list \<Rightarrow> bool) \<Rightarrow> link option \<Rightarrow> byte list \<Rightarrow> obs \<Rightarrow> upvars \<Rightarrow> (upvars \<times> byte list option) cres" where
  "uptimed_round sendto lk iface si v =
     c_bind (write_at (pkt_ar v) 0 [0]) (\<lambda>pkt.
     c_bind (report lk ''load'' (100 * loads0 si div 0x10000) ''g'' True (v\<lparr>pkt_ar := pkt\<rparr>)) (\<lambda>v.
     c_bind (report lk ''freemem'' (freeram si div 1024) ''g'' True v) (\<lambda>v.
     c_bind (report lk ''procs'' (ucast (procs si)) ''g'' True v) (\<lambda>v.
     c_bind (report lk ''uptime'' (si_uptime si) ''c'' True v) (\<lambda>v.
     c_bind (net_loop lk iface (net_dev si) v) (\<lambda>v.
     c_bind (cpu_part lk (proc_stat si) v) (\<lambda>(total, busy, v).
     c_bind (statsd_send sendto lk (pkt_ar v)) (\<lambda>(_, sent).
       Inr (v\<lparr>old_total := total, old_busy := busy\<rparr>, sent)))))))))"

section \<open>The daemon\<close>

text \<open>The rounds until \<open>SIGTERM\<close>, and the datagrams that are sent.\<close>

fun uptimed_loop ::
  "(byte list \<Rightarrow> bool) \<Rightarrow> link option \<Rightarrow> byte list \<Rightarrow> obs list \<Rightarrow> upvars \<Rightarrow> (byte list option list \<times> upvars) cres" where
  "uptimed_loop sendto lk iface [] v = Inr ([], v)"
| "uptimed_loop sendto lk iface (si # rest) v =
     c_bind (uptimed_round sendto lk iface si v) (\<lambda>(v, sent).
     c_bind (uptimed_loop sendto lk iface rest v) (\<lambda>(sents, v). Inr (sent # sents, v)))"

text \<open>
  The stack that \<open>main\<close> starts with, what \<open>find_my_mac\<close> gets, whether the two files can be opened, the
  socket and the resolver: the exit code and the datagrams.
\<close>

record upworld =
  up_hwaddr :: "byte list option"
  up_ns_stack :: "byte list"
  up_vars :: upvars
  up_net_opens :: bool
  up_stat_opens :: bool
  up_socket :: int
  up_resolved :: "byte list \<Rightarrow> bool"
  up_sendto :: "byte list \<Rightarrow> bool"
  up_rounds :: "obs list"

definition uptimed_main :: "upworld \<Rightarrow> byte list list \<Rightarrow> (int \<times> byte list option list) cres" where
  "uptimed_main w args =
     (case args of
        [host, iface] \<Rightarrow>
          c_bind (uptimed_namespace (up_hwaddr w) (up_ns_stack w)) (\<lambda>nsp.
            if \<not> up_net_opens w \<or> \<not> up_stat_opens w then Inr (- 1, [])
            else let lk = statsd_init_with_namespace (up_socket w) (up_resolved w) (Some host) 8125 (Some (cstring nsp));
                     v = (up_vars w)\<lparr>old_total := 0, old_busy := 0\<rparr>
                 in c_bind (uptimed_loop (up_sendto w) lk iface (up_rounds w) v) (\<lambda>(sents, _). Inr (0, sents)))
      | _ \<Rightarrow> Inr (1, []))"

section \<open>Tokens\<close>

text \<open>The words between the blanks of a line; \<open>w\<close> is the word that has begun.\<close>

fun words_from :: "byte list \<Rightarrow> byte list \<Rightarrow> byte list list" where
  "words_from w [] = (if w = [] then [] else [w])"
| "words_from w (c # s) =
     (if c = 0x20 then (if w = [] then [] else [w]) @ words_from [] s else words_from (w @ [c]) s)"

definition tokens :: "byte list \<Rightarrow> byte list list" where
  "tokens s = words_from [] s"

definition blank :: "byte list \<Rightarrow> bool" where
  "blank b \<longleftrightarrow> (\<forall>c \<in> set b. c = 0x20)"

definition word_at :: "byte list \<Rightarrow> bool" where
  "word_at t \<longleftrightarrow> t \<noteq> [] \<and> 0x20 \<notin> set t"

lemma words_from_blank: "blank b \<Longrightarrow> words_from [] (b @ s) = words_from [] s"
  by (induction b) (auto simp: blank_def)

lemma words_from_word: "0x20 \<notin> set t \<Longrightarrow> words_from w (t @ s) = words_from (w @ t) s"
  by (induction t arbitrary: w) auto

lemma tokens_simps:
  "blank s \<Longrightarrow> tokens s = []"
  "blank b \<Longrightarrow> word_at t \<Longrightarrow> tokens (b @ t) = [t]"
  "blank b \<Longrightarrow> word_at t \<Longrightarrow> tokens (b @ t @ 0x20 # s') = t # tokens s'"
  using words_from_blank [of s "[]"] words_from_word [of t "[]" "[]"]
  by (simp_all add: tokens_def words_from_blank words_from_word word_at_def)

lemma take_until:
  obtains t u where "s = t @ u" "\<forall>c \<in> set t. P c" "u = [] \<or> \<not> P (hd u)"
proof (rule that)
  show "s = takeWhile P s @ dropWhile P s" by simp
  show "\<forall>c \<in> set (takeWhile P s). P c" by (auto dest: set_takeWhileD)
  show "dropWhile P s = [] \<or> \<not> P (hd (dropWhile P s))" using hd_dropWhile by blast
qed

lemma split_token:
  obtains (none) "blank s"
  | (single) b t where "s = b @ t" "blank b" "word_at t"
  | (more) b t s' where "s = b @ t @ 0x20 # s'" "blank b" "word_at t"
proof -
  obtain b r where r: "s = b @ r" "\<forall>c \<in> set b. c = 0x20" "r = [] \<or> hd r \<noteq> 0x20"
    by (rule take_until [of s "\<lambda>c. c = 0x20"])
  obtain t u where u: "r = t @ u" "\<forall>c \<in> set t. c \<noteq> 0x20" "u = [] \<or> hd u = 0x20"
    by (rule take_until [of r "\<lambda>c. c \<noteq> 0x20"]) simp
  show ?thesis
  proof (cases "r = []")
    case True
    then show ?thesis using r by (intro none) (simp add: blank_def)
  next
    case False
    then have t: "word_at t" using r(3) u by (cases t) (auto simp: word_at_def)
    show ?thesis
    proof (cases u)
      case Nil
      then show ?thesis using r(1,2) u(1) t by (intro single [of b t]) (simp_all add: blank_def)
    next
      case (Cons c s')
      then show ?thesis using r(1,2) u t by (intro more [of b t s']) (simp_all add: blank_def)
    qed
  qed
qed

text \<open>The array holds the string \<open>s\<close> from the index \<open>k\<close> on.\<close>

definition holds_at :: "byte list \<Rightarrow> nat \<Rightarrow> byte list \<Rightarrow> bool" where
  "holds_at ar k s \<longleftrightarrow> no_nul s \<and> (\<exists>r. drop k ar = s @ 0 # r)"

lemma takeWhile_blank: "blank b \<Longrightarrow> x \<noteq> 0x20 \<Longrightarrow> takeWhile (\<lambda>c. c = 0x20) (b @ x # y) = b"
  by (induction b) (auto simp: blank_def)

lemma takeWhile_word:
  "word_at t \<Longrightarrow> no_nul t \<Longrightarrow> x = 0x20 \<or> x = 0 \<Longrightarrow> takeWhile (\<lambda>c. c \<noteq> 0x20 \<and> c \<noteq> 0) (t @ x # y) = t"
proof -
  have "0x20 \<notin> set t \<Longrightarrow> no_nul t \<Longrightarrow> x = 0x20 \<or> x = 0 \<Longrightarrow> takeWhile (\<lambda>c. c \<noteq> 0x20 \<and> c \<noteq> 0) (t @ x # y) = t"
    by (induction t) auto
  then show "word_at t \<Longrightarrow> no_nul t \<Longrightarrow> x = 0x20 \<or> x = 0 \<Longrightarrow> takeWhile (\<lambda>c. c \<noteq> 0x20 \<and> c \<noteq> 0) (t @ x # y) = t"
    by (simp add: word_at_def)
qed

lemma drop_nth: "drop k ar = xs @ x # ys \<Longrightarrow> k + length xs < length ar \<and> ar ! (k + length xs) = x"
proof -
  assume d: "drop k ar = xs @ x # ys"
  then have "length ar - k = length xs + Suc (length ys)" using length_drop [of k ar] by simp
  moreover have "ar ! (k + length xs) = drop k ar ! length xs" using calculation by simp
  ultimately show ?thesis by (simp add: d)
qed

lemma drop_more: "drop k ar = xs @ ys \<Longrightarrow> drop (k + length xs) ar = ys"
  by (metis add.commute append_eq_conv_conj drop_drop)

text \<open>The next token: none is left, it is the last, or a blank follows it.\<close>

lemma strtok_none:
  assumes "drop k ar = s @ 0 # r" and "blank s"
  shows "strtok ar k = Inr (None, ar, k + length s)"
  using drop_nth [OF assms(1)] takeWhile_blank [OF assms(2)] by (simp add: strtok_def assms(1))

lemma strtok_word:
  assumes "drop k ar = b @ t @ x # r" and "blank b" and "word_at t" and "no_nul t" and "x = 0x20 \<or> x = 0"
  shows "strtok ar k = (if x = 0 then Inr (Some (k + length b), ar, k + length b + length t)
    else Inr (Some (k + length b), ar[k + length b + length t := 0], k + length b + length t + 1))"
proof -
  let ?p = "k + length b"
  obtain c t' where t: "t = c # t'" "c \<noteq> 0x20" "c \<noteq> 0" using assms(3,4) by (cases t) (auto simp: word_at_def)
  have tb: "takeWhile (\<lambda>c. c = 0x20) (drop k ar) = b" unfolding assms(1) t(1) using takeWhile_blank [OF assms(2) t(2)] by simp
  have p: "?p < length ar" "ar ! ?p = c" using drop_nth [of k ar b c "t' @ x # r"] assms(1) t(1) by simp_all
  have d: "drop ?p ar = t @ x # r" by (rule drop_more [OF assms(1)])
  have tt: "takeWhile (\<lambda>c. c \<noteq> 0x20 \<and> c \<noteq> 0) (drop ?p ar) = t" unfolding d by (rule takeWhile_word [OF assms(3,4,5)])
  have q: "?p + length t < length ar" "ar ! (?p + length t) = x" using drop_nth [OF d] by simp_all
  show ?thesis using p q t(3) by (simp add: strtok_def tb tt Let_def)
qed

text \<open>
  What a call does for the rest of the line: the token is a string, the tokens behind it are still
  there, and nothing up to the place where the search began has changed.
\<close>

definition next_token :: "byte list \<Rightarrow> nat \<Rightarrow> byte list \<Rightarrow> byte list list \<Rightarrow> nat \<Rightarrow> byte list \<Rightarrow> nat \<Rightarrow> bool" where
  "next_token ar k t ts p ar' k' \<longleftrightarrow> strtok ar k = Inr (Some p, ar', k') \<and> cstring (drop p ar') = t
     \<and> length ar' = length ar \<and> (\<exists>s'. holds_at ar' k' s' \<and> tokens s' = ts) \<and> take (Suc k) ar' = take (Suc k) ar"

lemma update_drop:
  assumes "drop k ar = xs @ x # ys"
  shows "drop k (ar[k + length xs := y]) = xs @ y # ys"
  using assms drop_nth [OF assms] by (simp add: drop_update_swap list_update_append)

lemma strtok_ok:
  assumes "holds_at ar k s" and "tokens s = t # ts"
  obtains p ar' k' where "next_token ar k t ts p ar' k'"
    and "\<exists>b c. drop k ar' = b @ t @ 0 # c \<and> blank b \<and> k + length b + length t \<le> k' \<and> word_at t \<and> no_nul t"
proof -
  obtain r where r: "drop k ar = s @ 0 # r" "no_nul s" using assms(1) by (auto simp: holds_at_def)
  show ?thesis
  proof (cases s rule: split_token)
    case none
    then show ?thesis using assms(2) tokens_simps(1) by simp
  next
    case (single b u)
    then have u: "u = t" "ts = []" using assms(2) tokens_simps(2) [of b u] by simp_all
    have d: "drop k ar = b @ t @ 0 # r" "no_nul t" using r single(1) u(1) by simp_all
    have run: "strtok ar k = Inr (Some (k + length b), ar, k + length b + length t)"
      using strtok_word [OF d(1) single(2) _ d(2)] single(3) u(1) by simp
    have c: "cstring (drop (k + length b) ar) = t" using drop_more [OF d(1)] d(2) by simp
    have "drop (k + length b + length t) ar = 0 # r" using drop_more [of k ar "b @ t"] d(1) by (simp add: add.assoc)
    then have "holds_at ar (k + length b + length t) [] \<and> tokens [] = []" by (simp add: holds_at_def tokens_def)
    with run c have "next_token ar k t ts (k + length b) ar (k + length b + length t)"
      unfolding next_token_def u(2) by blast
    then show ?thesis using d single(2,3) u(1) by (intro that) auto
  next
    case (more b u s')
    then have u: "u = t" "ts = tokens s'" using assms(2) tokens_simps(3) [of b u s'] by simp_all
    let ?q = "k + length b + length t"
    let ?ar = "ar[?q := 0]"
    have d: "drop k ar = b @ t @ 0x20 # s' @ 0 # r" "no_nul t" "no_nul s'" using r more(1) u(1) by simp_all
    have run: "strtok ar k = Inr (Some (k + length b), ?ar, ?q + 1)"
      using strtok_word [OF d(1) more(2) _ d(2)] more(3) u(1) by simp
    have d': "drop k ?ar = b @ t @ 0 # s' @ 0 # r"
      using update_drop [of k ar "b @ t" "0x20" _ 0] d(1) by (simp add: add.assoc)
    have c: "cstring (drop (k + length b) ?ar) = t" using drop_more [OF d'] d(2) by simp
    have "drop (?q + 1) ?ar = s' @ 0 # r"
      using drop_more [of k ?ar "b @ t @ [0]"] d' by (simp add: add.assoc)
    then have "holds_at ?ar (?q + 1) s'" using d(3) by (auto simp: holds_at_def)
    moreover have "0 < length t" using more(3) u(1) by (simp add: word_at_def)
    then have "take (Suc k) ?ar = take (Suc k) ar" by (intro take_update_cancel) linarith
    ultimately have "next_token ar k t ts (k + length b) ?ar (?q + 1)"
      using run c u(2) by (auto simp: next_token_def)
    then show ?thesis using d' more(2,3) u(1) d(2) by (intro that) auto
  qed
qed

section \<open>What a round adds to the packet\<close>

text \<open>The packet so far is the string \<open>P\<close>, and the arrays have their sizes.\<close>

definition packed :: "byte list \<Rightarrow> upvars \<Rightarrow> bool" where
  "packed P v \<longleftrightarrow> no_nul P \<and> (\<exists>r. pkt_ar v = P @ 0 # r) \<and> length (pkt_ar v) = PKT_LEN
     \<and> length (tmp_ar v) = MAX_LINE_LEN \<and> length (line_ar v) = MAX_LINE_LEN"

definition kept :: "upvars \<Rightarrow> upvars \<Rightarrow> bool" where
  "kept v v' \<longleftrightarrow> cpu_vars v' = cpu_vars v \<and> old_total v' = old_total v \<and> old_busy v' = old_busy v"

text \<open>The text of a metric, as much of it as fits into \<open>tmp\<close>.\<close>

definition entry :: "link \<Rightarrow> string \<Rightarrow> 64 word \<Rightarrow> string \<Rightarrow> bool \<Rightarrow> byte list" where
  "entry l name value ty lf = take (MAX_LINE_LEN - 1) (metric (ns l) (ascii name) value (ascii ty) (DFin 1) lf)"

text \<open>The step from \<open>v\<close> adds \<open>x\<close> to the packet \<open>P\<close>, if there is room, and leaves a line with \<open>Q\<close>.\<close>

definition adds :: "byte list \<Rightarrow> upvars \<Rightarrow> (byte list \<Rightarrow> bool) \<Rightarrow> byte list \<Rightarrow> upvars cres \<Rightarrow> bool" where
  "adds P v Q x r \<longleftrightarrow>
     (if length P + length x < PKT_LEN then \<exists>v'. r = Inr v' \<and> packed (P @ x) v' \<and> Q (line_ar v') \<and> kept v v'
      else r = Inl OutOfBounds)"

lemma adds_nothing: "packed P v \<Longrightarrow> Q (line_ar v) \<Longrightarrow> adds P v Q [] (Inr v)"
  by (auto simp: adds_def packed_def kept_def)

lemma adds_bind:
  assumes "adds P v Q x r" and "packed P v"
    and "\<And>v'. packed (P @ x) v' \<Longrightarrow> Q (line_ar v') \<Longrightarrow> kept v v' \<Longrightarrow> adds (P @ x) v' R y (f v')"
  shows "adds P v R (x @ y) (c_bind r f)"
proof (cases "length P + length x < PKT_LEN")
  case True
  then obtain v' where v': "r = Inr v'" "packed (P @ x) v'" "Q (line_ar v')" "kept v v'"
    using assms(1) by (auto simp: adds_def)
  then have "adds (P @ x) v' R y (f v')" by (intro assms(3))
  then show ?thesis using v'(1,4) by (auto simp: adds_def kept_def add.assoc split: if_splits)
next
  case False
  then show ?thesis using assms(1) by (auto simp: adds_def)
qed

lemma adds_weaken: "adds P v Q x r \<Longrightarrow> (\<And>ar. Q ar \<Longrightarrow> R ar) \<Longrightarrow> adds P v R x r"
  by (auto simp: adds_def split: if_splits)

lemma strcat_ok:
  assumes "dst = P @ 0 # r" and "no_nul P" and "src = x @ 0 # r'" and "no_nul x"
  shows "strcat dst src = (if length P + length x < length dst then Inr (P @ x @ 0 # drop (length P + length x + 1) dst)
    else Inl OutOfBounds)"
  using assms(2,4) unfolding assms(1,3) by (simp add: strcat_def write_at_def)

text \<open>The namespace of the link is a string.\<close>

definition link_ok :: "link \<Rightarrow> bool" where
  "link_ok l \<longleftrightarrow> (\<forall>n. ns l = Some n \<longrightarrow> no_nul n)"

definition plain_name :: "string \<Rightarrow> bool" where
  "plain_name s \<longleftrightarrow> no_nul (ascii s) \<and> map clean_char (ascii s) = ascii s"

lemma entry_no_nul: "link_ok l \<Longrightarrow> plain_name name \<Longrightarrow> no_nul (ascii ty) \<Longrightarrow> no_nul (entry l name value ty lf)"
proof -
  assume a: "link_ok l" "plain_name name" "no_nul (ascii ty)"
  have "no_nul (ascii '':'')" "no_nul (ascii ''|'')" "no_nul (ascii ''|@'')" by code_simp+
  moreover have "no_nul (fmt_d (sint value))" using fmt_d_plain(1) by (simp add: no_nul_def)
  ultimately have "no_nul (metric (ns l) (ascii name) value (ascii ty) (DFin 1) lf)"
    using a fmt_5f_no_nul by (auto simp: metric_def link_ok_def plain_name_def split: option.split)
  then show ?thesis by (auto simp: entry_def no_nul_def dest: in_set_takeD)
qed

lemma report_adds:
  assumes "packed P v" and "link_ok l" and "plain_name name" and "no_nul (ascii ty)" and "Q (line_ar v)"
  shows "adds P v Q (entry l name value ty lf) (report (Some l) name value ty lf v)"
proof -
  let ?e = "entry l name value ty lf"
  have name: "no_nul (ascii name)" "map clean_char (ascii name) = ascii name" using assms(3) by (auto simp: plain_name_def)
  have c: "cstring (ascii name @ [0]) = ascii name" using name(1) by simp
  obtain r where r: "pkt_ar v = P @ 0 # r" "no_nul P" using assms(1) by (auto simp: packed_def)
  obtain tmp r' where tmp: "statsd_prepare (Some l) (ascii name @ [0]) value (ascii ty) (DFin 1) (tmp_ar v) MAX_LINE_LEN lf
      = Inr (ascii name @ [0], tmp)" "tmp = ?e @ 0 # r'" "length tmp = MAX_LINE_LEN"
    using assms(1) name
    by (auto simp: statsd_prepare_def cleanup_ok c snprintf_def entry_def packed_def MAX_LINE_LEN_def Let_def)
  have run: "strcat (pkt_ar v) tmp = (if length P + length ?e < length (pkt_ar v)
      then Inr (P @ ?e @ 0 # drop (length P + length ?e + 1) (pkt_ar v)) else Inl OutOfBounds)"
    by (rule strcat_ok [OF r tmp(2) entry_no_nul [OF assms(2-4)]])
  show ?thesis
    using assms(1,5) tmp(1,3) run entry_no_nul [OF assms(2-4)] by (auto simp: adds_def packed_def report_def kept_def)
qed

section \<open>The lines of the interfaces\<close>

text \<open>After its first token was cut off, the line is a string of at most one token.\<close>

definition chopped :: "nat \<Rightarrow> byte list \<Rightarrow> bool" where
  "chopped k ar \<longleftrightarrow> (\<exists>c. take (Suc (length c)) ar = c @ [0] \<and> no_nul c \<and> length (tokens c) \<le> 1 \<and> length c \<le> k)"

lemma chopped_later: "chopped k ar \<Longrightarrow> take (Suc k) ar' = take (Suc k) ar \<Longrightarrow> k \<le> k' \<Longrightarrow> chopped k' ar'"
proof -
  assume a: "chopped k ar" "take (Suc k) ar' = take (Suc k) ar" "k \<le> k'"
  then obtain c where c: "take (Suc (length c)) ar = c @ [0]" "no_nul c" "length (tokens c) \<le> 1" "length c \<le> k"
    by (auto simp: chopped_def)
  then have "take (Suc (length c)) ar' = c @ [0]" using a(2) by (metis Suc_le_mono min.absorb1 take_take)
  then show ?thesis using c a(3) unfolding chopped_def by (intro exI [of _ c]) auto
qed

definition rx_entry :: "link \<Rightarrow> byte list \<Rightarrow> byte list" where
  "rx_entry l t = entry l ''if-rx'' (scast (atoi32 t)) ''c'' True"

definition tx_entry :: "link \<Rightarrow> byte list \<Rightarrow> byte list" where
  "tx_entry l t = entry l ''if-tx'' (scast (atoi32 t)) ''c'' True"

fun net_words :: "link \<Rightarrow> nat \<Rightarrow> byte list list \<Rightarrow> byte list" where
  "net_words l i [] = []"
| "net_words l i (t # ts) =
     (if i = 1 then rx_entry l t @ net_words l (i + 1) ts
      else if i = 9 then tx_entry l t
      else net_words l (i + 1) ts)"

text \<open>The second and the tenth word of a line are sent.\<close>

definition net_line :: "link \<Rightarrow> byte list list \<Rightarrow> byte list" where
  "net_line l ts = (if 1 < length ts then rx_entry l (ts ! 1) else []) @ (if 9 < length ts then tx_entry l (ts ! 9) else [])"

lemma net_words_tx: "2 \<le> i \<Longrightarrow> i \<le> 9 \<Longrightarrow> net_words l i ts = (if 9 - i < length ts then tx_entry l (ts ! (9 - i)) else [])"
proof (induction ts arbitrary: i)
  case (Cons t ts)
  show ?case
  proof (cases "i = 9")
    case False
    then have "9 - i = Suc (9 - Suc i)" using Cons.prems by simp
    then show ?thesis using Cons False by simp
  qed simp
qed simp

lemma net_words_line: "net_words l 0 ts = net_line l ts"
proof (cases ts)
  case (Cons t us)
  then show ?thesis by (cases us) (simp_all add: net_line_def net_words_tx numeral_eq_Suc)
qed (simp add: net_line_def)

lemma plain_names [simp]:
  "plain_name ''load''" "plain_name ''freemem''" "plain_name ''procs''" "plain_name ''uptime''"
  "plain_name ''if-rx''" "plain_name ''if-tx''" "plain_name ''cpu''"
  "no_nul (ascii ''c'')" "no_nul (ascii ''g'')"
  by code_simp+

lemma adds_line [simp]: "adds P (v\<lparr>line_ar := ar\<rparr>) Q x r \<longleftrightarrow> adds P v Q x r"
  by (simp add: adds_def kept_def)

lemma packed_line: "packed P v \<Longrightarrow> length ar = length (line_ar v) \<Longrightarrow> packed P (v\<lparr>line_ar := ar\<rparr>)"
  by (simp add: packed_def)

lemma net_fields_step:
  assumes "next_token (line_ar v) k t ts p ar k'"
  shows "net_fields lk i k v =
     (if i = 1 then c_bind (report lk ''if-rx'' (scast (atoi32 t)) ''c'' True (v\<lparr>line_ar := ar\<rparr>)) (\<lambda>v. net_fields lk (i + 1) k' v)
      else if i = 9 then report lk ''if-tx'' (scast (atoi32 t)) ''c'' True (v\<lparr>line_ar := ar\<rparr>)
      else net_fields lk (i + 1) k' (v\<lparr>line_ar := ar\<rparr>))"
  using assms by (subst net_fields.simps) (simp add: next_token_def Let_def)

lemma strtok_end:
  assumes "holds_at ar k s" and "tokens s = []" obtains k' where "strtok ar k = Inr (None, ar, k')" and "blank s"
proof -
  have b: "blank s"
    using assms(2) by (cases s rule: split_token) (use tokens_simps in \<open>auto\<close>)
  then show ?thesis using assms(1) strtok_none [of k ar s] by (auto simp: holds_at_def intro: that)
qed

lemma net_fields_adds:
  assumes "link_ok l"
  shows "packed P v \<Longrightarrow> holds_at (line_ar v) k s \<Longrightarrow> tokens s = ts \<Longrightarrow> chopped k (line_ar v) \<Longrightarrow>
    adds P v (\<lambda>ar. \<exists>k. chopped k ar) (net_words l i ts) (net_fields (Some l) i k v)"
proof (induction ts arbitrary: P v k s i)
  case Nil
  then obtain k' where "strtok (line_ar v) k = Inr (None, line_ar v, k')" using strtok_end by metis
  then have "net_fields (Some l) i k v = Inr v" by (simp add: net_fields.simps [of _ i])
  then show ?case using Nil by (auto intro: adds_nothing)
next
  case (Cons t ts)
  obtain p ar k' where n: "next_token (line_ar v) k t ts p ar k'"
    by (rule strtok_ok [OF Cons.prems(2,3)])
  then obtain s' where s': "holds_at ar k' s'" "tokens s' = ts" "length ar = length (line_ar v)"
    "take (Suc k) ar = take (Suc k) (line_ar v)" "strtok (line_ar v) k = Inr (Some p, ar, k')"
    by (auto simp: next_token_def)
  have "k \<le> k'" using strtok_progress [OF s'(5)] by simp
  then have ch: "chopped k' ar" by (rule chopped_later [OF Cons.prems(4) s'(4)])
  have pk: "packed P (v\<lparr>line_ar := ar\<rparr>)" using Cons.prems(1) s'(3) by (rule packed_line)
  note step = net_fields_step [OF n, of "Some l" i]
  have rep: "adds P v (\<lambda>x. x = ar) (entry l name (scast (atoi32 t)) ''c'' True)
      (report (Some l) name (scast (atoi32 t)) ''c'' True (v\<lparr>line_ar := ar\<rparr>))"
    if "plain_name name" for name
    using report_adds [OF pk assms that, of "''c''" "\<lambda>x. x = ar"] by simp
  consider "i = 1" | "i = 9" | "i \<noteq> 1" "i \<noteq> 9" by blast
  then show ?case
  proof cases
    case 1
    have "adds P v (\<lambda>ar. \<exists>k. chopped k ar) (rx_entry l t @ net_words l 2 ts)
        (c_bind (report (Some l) ''if-rx'' (scast (atoi32 t)) ''c'' True (v\<lparr>line_ar := ar\<rparr>)) (net_fields (Some l) 2 k'))"
      unfolding rx_entry_def
      by (rule adds_bind [OF rep Cons.prems(1)]) (use Cons.IH s'(1,2) ch in \<open>auto simp: rx_entry_def\<close>)
    then show ?thesis using step 1 by (simp add: numeral_2_eq_2)
  next
    case 2
    then show ?thesis using step rep [of "''if-tx''"] ch by (auto simp: tx_entry_def intro: adds_weaken)
  next
    case 3
    then show ?thesis using step Cons.IH [OF pk _ s'(2), of k' "i + 1"] s'(1) ch by simp
  qed
qed

text \<open>A whole line.\<close>

lemma net_line_adds:
  assumes "link_ok l" and "packed P v" and "holds_at (line_ar v) 0 s"
  shows "adds P v (\<lambda>ar. \<exists>k. chopped k ar) (net_line l (tokens s)) (net_fields (Some l) 0 0 v)"
proof (cases "tokens s")
  case Nil
  then obtain k' where k': "strtok (line_ar v) 0 = Inr (None, line_ar v, k')" using strtok_end [OF assms(3)] by metis
  then have "net_fields (Some l) 0 0 v = Inr v" by (simp add: net_fields.simps [of _ 0])
  moreover have "chopped (length s) (line_ar v)"
    using assms(3) Nil unfolding chopped_def holds_at_def by (intro exI [of _ s]) auto
  ultimately show ?thesis using assms(2) Nil by (auto simp: net_line_def intro: adds_nothing)
next
  case (Cons t ts)
  obtain p ar k' b c where n: "next_token (line_ar v) 0 t ts p ar k'"
    and d: "drop 0 ar = b @ t @ 0 # c" "blank b" "0 + length b + length t \<le> k'" "word_at t" "no_nul t"
    using strtok_ok [OF assms(3) Cons] by metis
  then obtain s' where s': "holds_at ar k' s'" "tokens s' = ts" "length ar = length (line_ar v)"
    by (auto simp: next_token_def)
  have "take (Suc (length (b @ t))) ar = (b @ t) @ [0]" "no_nul (b @ t)"
    using d by (auto simp: no_nul_def blank_def)
  then have ch: "chopped k' ar"
    unfolding chopped_def using d tokens_simps(2) [OF d(2,4)] by (intro exI [of _ "b @ t"]) simp
  have pk: "packed P (v\<lparr>line_ar := ar\<rparr>)" using assms(2) s'(3) by (rule packed_line)
  have "net_line l (tokens s) = net_words l 1 ts"
    unfolding net_words_line [symmetric] Cons by simp
  then show ?thesis
    using net_fields_step [OF n, of "Some l" 0] net_fields_adds [OF assms(1) pk _ s'(2), of k' 1] s'(1) ch by simp
qed

section \<open>The loop over /proc/net/dev\<close>

definition line_ok :: "byte list \<Rightarrow> bool" where
  "line_ok s \<longleftrightarrow> no_nul s \<and> 0x0A \<notin> set s \<and> length s + 1 < MAX_LINE_LEN"

definition file_of :: "byte list list \<Rightarrow> byte list" where
  "file_of lns = concat (map (\<lambda>s. s @ [0x0A]) lns)"

text \<open>What the lines of the file that name the interface add.\<close>

definition net_text :: "link \<Rightarrow> byte list \<Rightarrow> byte list list \<Rightarrow> byte list" where
  "net_text l iface lns =
     concat (map (\<lambda>s. if strstr (s @ [0x0A]) iface then net_line l (tokens (s @ [0x0A])) else []) lns)"

text \<open>A line that was looked at before: another pass over it adds nothing.\<close>

definition quiet :: "byte list \<Rightarrow> byte list \<Rightarrow> bool" where
  "quiet iface ar \<longleftrightarrow> nulterm ar \<and> (strstr (cstring ar) iface \<longrightarrow> (\<exists>k. chopped k ar))"

definition net_pass :: "link option \<Rightarrow> byte list \<Rightarrow> upvars \<Rightarrow> upvars cres" where
  "net_pass lk iface v =
     (if \<not> nulterm (line_ar v) then Inl OutOfBounds
      else if \<not> strstr (cstring (line_ar v)) iface then Inr v else net_fields lk 0 0 v)"

lemma holds_nulterm: "holds_at ar 0 s \<Longrightarrow> nulterm ar \<and> cstring ar = s"
  by (auto simp: holds_at_def)

lemma chopped_holds: "chopped k ar \<Longrightarrow> \<exists>c. holds_at ar 0 c \<and> length (tokens c) \<le> 1"
proof -
  assume "chopped k ar"
  then obtain c where c: "take (Suc (length c)) ar = c @ [0]" "no_nul c" "length (tokens c) \<le> 1"
    by (auto simp: chopped_def)
  have "ar = (c @ [0]) @ drop (Suc (length c)) ar" unfolding c(1) [symmetric] by simp
  then have "ar = c @ 0 # drop (Suc (length c)) ar" by simp
  then have "holds_at ar 0 c" using c(2) unfolding holds_at_def by (metis drop0)
  with c(3) show ?thesis by blast
qed

lemma net_pass_adds:
  assumes "link_ok l" and "packed P v" and "holds_at (line_ar v) 0 s"
  shows "adds P v (quiet iface) (if strstr s iface then net_line l (tokens s) else []) (net_pass (Some l) iface v)"
proof (cases "strstr s iface")
  case True
  have q: "quiet iface ar" if "\<exists>k. chopped k ar" for ar
    using that chopped_holds holds_nulterm by (auto simp: quiet_def)
  show ?thesis
    using True holds_nulterm [OF assms(3)] adds_weaken [OF net_line_adds [OF assms] q] by (simp add: net_pass_def)
next
  case False
  then show ?thesis
    using holds_nulterm [OF assms(3)] assms(2) by (auto simp: net_pass_def quiet_def intro: adds_nothing)
qed

lemma quiet_pass:
  assumes "link_ok l" and "packed P v" and "quiet iface (line_ar v)"
  shows "adds P v (\<lambda>_. True) [] (net_pass (Some l) iface v)"
proof (cases "strstr (cstring (line_ar v)) iface")
  case True
  then obtain c where c: "holds_at (line_ar v) 0 c" "length (tokens c) \<le> 1"
    using assms(3) chopped_holds by (auto simp: quiet_def)
  then have "net_line l (tokens c) = []" by (simp add: net_line_def)
  then show ?thesis
    using net_pass_adds [OF assms(1,2) c(1), of iface] by (auto intro: adds_weaken split: if_splits)
next
  case False
  then show ?thesis using assms by (auto simp: net_pass_def quiet_def intro: adds_nothing)
qed

lemma net_loop_pass:
  "net_loop lk iface inp v = c_bind (fgets MAX_LINE_LEN inp (line_ar v)) (\<lambda>ar.
     c_bind (net_pass lk iface (v\<lparr>line_ar := ar\<rparr>)) (\<lambda>v.
       if fgets_eof MAX_LINE_LEN inp then Inr v
       else net_loop lk iface (drop (fgets_len MAX_LINE_LEN inp) inp) v))"
  by (subst net_loop.simps) (simp add: net_pass_def Let_def cong: if_cong)

lemma fgets_ok:
  assumes "line_ok s" and "length buf = MAX_LINE_LEN"
  obtains ar where "fgets MAX_LINE_LEN (s @ 0x0A # r) buf = Inr ar" and "holds_at ar 0 (s @ [0x0A])"
    and "length ar = MAX_LINE_LEN" and "fgets_len MAX_LINE_LEN (s @ 0x0A # r) = length s + 1"
    and "\<not> fgets_eof MAX_LINE_LEN (s @ 0x0A # r)"
proof -
  have len: "fgets_len MAX_LINE_LEN (s @ 0x0A # r) = length s + 1"
    using assms(1) by (intro fgets_line) (auto simp: line_ok_def)
  have "take (length s + 1) (s @ 0x0A # r) = s @ [0x0A]" by simp
  then have "fgets MAX_LINE_LEN (s @ 0x0A # r) buf = write_at buf 0 (s @ [0x0A, 0])"
    by (simp add: fgets_def len)
  then show ?thesis
    using assms len by (intro that [of "s @ [0x0A, 0] @ drop (length s + 2) buf"])
      (auto simp: write_at_def line_ok_def holds_at_def fgets_eof_def)
qed

lemma net_loop_adds:
  assumes "link_ok l"
  shows "packed P v \<Longrightarrow> \<forall>s \<in> set lns. line_ok s \<Longrightarrow> lns = [] \<longrightarrow> quiet iface (line_ar v) \<Longrightarrow>
    adds P v (\<lambda>_. True) (net_text l iface lns) (net_loop (Some l) iface (file_of lns) v)"
proof (induction lns arbitrary: P v)
  case Nil
  have "net_loop (Some l) iface [] v = c_bind (net_pass (Some l) iface v) Inr"
    by (subst net_loop_pass) (simp add: fgets_def fgets_eof_def MAX_LINE_LEN_def)
  also have "\<dots> = net_pass (Some l) iface v" by (simp add: c_bind_def split: sum.split)
  finally show ?case using quiet_pass [OF assms Nil(1)] Nil(3) by (simp add: file_of_def net_text_def)
next
  case (Cons s lns)
  have s: "line_ok s" using Cons.prems(2) by simp
  obtain ar where ar: "fgets MAX_LINE_LEN (s @ 0x0A # file_of lns) (line_ar v) = Inr ar" "holds_at ar 0 (s @ [0x0A])"
    "length ar = MAX_LINE_LEN" "fgets_len MAX_LINE_LEN (s @ 0x0A # file_of lns) = length s + 1"
    "\<not> fgets_eof MAX_LINE_LEN (s @ 0x0A # file_of lns)"
    using fgets_ok [OF s, of "line_ar v" "file_of lns"] Cons.prems(1) by (auto simp: packed_def)
  have whole: "file_of (s # lns) = s @ 0x0A # file_of lns" by (simp add: file_of_def)
  have d: "drop (length s + 1) (s @ 0x0A # file_of lns) = file_of lns" by simp
  have pk: "packed P (v\<lparr>line_ar := ar\<rparr>)" using Cons.prems(1) ar(3) by (simp add: packed_def)
  have "adds P v (quiet iface) (if strstr (s @ [0x0A]) iface then net_line l (tokens (s @ [0x0A])) else [])
      (net_pass (Some l) iface (v\<lparr>line_ar := ar\<rparr>))"
    using net_pass_adds [OF assms pk, of "s @ [0x0A]" iface] ar(2) by simp
  then have "adds P v (\<lambda>_. True)
      ((if strstr (s @ [0x0A]) iface then net_line l (tokens (s @ [0x0A])) else []) @ net_text l iface lns)
      (c_bind (net_pass (Some l) iface (v\<lparr>line_ar := ar\<rparr>)) (\<lambda>v. net_loop (Some l) iface (file_of lns) v))"
    by (rule adds_bind [OF _ Cons.prems(1)]) (use Cons.IH Cons.prems(2) in auto)
  then show ?case
    unfolding whole by (subst net_loop_pass) (simp add: ar(1,4,5) d net_text_def)
qed

section \<open>A whole round\<close>

definition arrays_ok :: "upvars \<Rightarrow> bool" where
  "arrays_ok v \<longleftrightarrow> length (pkt_ar v) = PKT_LEN \<and> length (tmp_ar v) = MAX_LINE_LEN
     \<and> length (line_ar v) = MAX_LINE_LEN \<and> length (cpu_vars v) = 4"

text \<open>The times of the processor: what the first line of /proc/stat gives, else what was there before.\<close>

definition cpu_times :: "byte list \<Rightarrow> 32 word list \<Rightarrow> 32 word list" where
  "cpu_times s vs = (let xs = scan_cpu s in xs @ drop (length xs) vs)"

lemma cpu_times_length: "length vs = 4 \<Longrightarrow> length (cpu_times s vs) = 4"
proof -
  have "length (scan_us k s) \<le> k" for k s
    by (induction k arbitrary: s) (auto split: option.split)
  then have "length (scan_cpu s) \<le> 4" by (simp add: scan_cpu_def)
  then show "length vs = 4 \<Longrightarrow> length (cpu_times s vs) = 4" by (simp add: cpu_times_def Let_def)
qed

definition total_time :: "32 word list \<Rightarrow> 32 word" where
  "total_time vs = vs ! 0 + vs ! 2 + vs ! 3"

definition busy_time :: "32 word list \<Rightarrow> 32 word" where
  "busy_time vs = vs ! 0 + vs ! 2"

definition start_text :: "link \<Rightarrow> byte list \<Rightarrow> obs \<Rightarrow> byte list list \<Rightarrow> byte list" where
  "start_text l iface si lns =
     entry l ''load'' (100 * loads0 si div 0x10000) ''g'' True @ entry l ''freemem'' (freeram si div 1024) ''g'' True
     @ entry l ''procs'' (ucast (procs si)) ''g'' True @ entry l ''uptime'' (si_uptime si) ''c'' True
     @ net_text l iface lns"

definition cpu_text :: "link \<Rightarrow> 32 word \<Rightarrow> 32 word \<Rightarrow> byte list" where
  "cpu_text l b t = entry l ''cpu'' (ucast (100 * b div t)) ''g'' False"

lemma start_adds:
  assumes l: "link_ok l" and pk: "packed P v"
    and file_ok: "net_dev si = file_of lns" "lns \<noteq> []" "\<forall>s \<in> set lns. line_ok s"
  shows "adds P v (\<lambda>_. True) (start_text l iface si lns)
    (c_bind (report (Some l) ''load'' (100 * loads0 si div 0x10000) ''g'' True v) (\<lambda>v.
     c_bind (report (Some l) ''freemem'' (freeram si div 1024) ''g'' True v) (\<lambda>v.
     c_bind (report (Some l) ''procs'' (ucast (procs si)) ''g'' True v) (\<lambda>v.
     c_bind (report (Some l) ''uptime'' (si_uptime si) ''c'' True v) (\<lambda>v.
       net_loop (Some l) iface (net_dev si) v)))))"
proof -
  have rep: "adds P v (\<lambda>_. True) (entry l name x ty True) (report (Some l) name x ty True v)"
    if "packed P v" "plain_name name" "no_nul (ascii ty)" for P v name x ty
    by (rule report_adds [OF that(1) l that(2,3)]) simp
  show ?thesis
    unfolding start_text_def file_ok(1)
    by (intro adds_bind [OF rep] net_loop_adds [OF l]) (use pk file_ok(2,3) in simp_all)
qed

lemma cpu_part_ok:
  assumes "link_ok l" and "packed P v" and "line_ok s"
    and t: "vs = cpu_times (s @ [0x0A]) (cpu_vars v)" "e = cpu_text l (busy_time vs - old_busy v) (total_time vs - old_total v)"
  shows "if total_time vs = old_total v then cpu_part (Some l) (s @ 0x0A # r) v = Inl NoReturn
    else if PKT_LEN \<le> length (P @ e) then cpu_part (Some l) (s @ 0x0A # r) v = Inl OutOfBounds
    else \<exists>v'. cpu_part (Some l) (s @ 0x0A # r) v = Inr (total_time vs, busy_time vs, v') \<and> packed (P @ e) v' \<and> cpu_vars v' = vs"
proof -
  obtain ar where ar: "fgets MAX_LINE_LEN (s @ 0x0A # r) (line_ar v) = Inr ar" "holds_at ar 0 (s @ [0x0A])"
    "length ar = MAX_LINE_LEN"
    using fgets_ok [OF assms(3), of "line_ar v" r] assms(2) by (auto simp: packed_def)
  let ?v = "v\<lparr>line_ar := ar, cpu_vars := vs\<rparr>"
  have pk: "packed P ?v" using assms(2) ar(3) by (simp add: packed_def)
  have "adds P ?v (\<lambda>_. True) e (report (Some l) ''cpu'' (ucast (100 * (busy_time vs - old_busy v) div (total_time vs - old_total v))) ''g'' False ?v)"
    unfolding t(2) cpu_text_def by (rule report_adds [OF pk assms(1)]) simp_all
  then show ?thesis
    using holds_nulterm [OF ar(2)]
    by (auto simp: cpu_part_def ar(1) adds_def kept_def Let_def total_time_def busy_time_def t(1) cpu_times_def not_less)
qed

text \<open>C20: one round of uptimed, exactly: the packet is the load, the memory, the processes, the uptime,
  the traffic of every line that names the interface, and the share of the processor since the last
  round. It is sent when it fits into the 1400 bytes, and nothing is written behind them before the
  fault when it does not; when the times of the processor have not changed, the round ends in a
  division by zero. The line that is examined twice at the end of the file adds nothing.\<close>

lemma packed_string: "packed P v \<Longrightarrow> nulterm (pkt_ar v) \<and> cstring (pkt_ar v) = P"
  by (auto simp: packed_def)

lemma packed_arrays: "packed P v \<Longrightarrow> length (cpu_vars v) = 4 \<Longrightarrow> arrays_ok (v\<lparr>old_total := t, old_busy := b\<rparr>)"
  by (simp add: packed_def arrays_ok_def)

theorem uptimed_round_exact:
  assumes "link_ok l" and "arrays_ok v" and "net_dev si = file_of lns" and "lns \<noteq> []"
    and "\<forall>s \<in> set lns. line_ok s" and "proc_stat si = s @ 0x0A # r" and "line_ok s"
  shows "let vs = cpu_times (s @ [0x0A]) (cpu_vars v); start = start_text l iface si lns;
        packet = start @ cpu_text l (busy_time vs - old_busy v) (total_time vs - old_total v);
        result = uptimed_round sendto (Some l) iface si v
    in if PKT_LEN \<le> length start then result = Inl OutOfBounds
       else if total_time vs = old_total v then result = Inl NoReturn
       else if PKT_LEN \<le> length packet then result = Inl OutOfBounds
       else \<exists>v'. result = Inr (v', Some packet) \<and> arrays_ok v' \<and> cpu_vars v' = vs
              \<and> old_total v' = total_time vs \<and> old_busy v' = busy_time vs"
proof -
  let ?start = "start_text l iface si lns"
  define vs where "vs = cpu_times (s @ [0x0A]) (cpu_vars v)"
  define e where "e = cpu_text l (busy_time vs - old_busy v) (total_time vs - old_total v)"
  obtain pkt where pkt: "write_at (pkt_ar v) 0 [0] = Inr pkt" "packed [] (v\<lparr>pkt_ar := pkt\<rparr>)"
    using assms(2)
    by (intro that [of "0 # drop 1 (pkt_ar v)"]) (auto simp: write_at_def arrays_ok_def packed_def PKT_LEN_def)
  let ?v = "v\<lparr>pkt_ar := pkt\<rparr>"
  note start = start_adds [OF assms(1) pkt(2) assms(3-5), of iface]
  note round = uptimed_round_def pkt(1) c_bind_simps c_bind_assoc [symmetric]
  show ?thesis
  proof (cases "PKT_LEN \<le> length ?start")
    case True
    then show ?thesis using start by (simp add: adds_def Let_def round)
  next
    case False
    then obtain v1 where v1: "packed ?start v1" "kept ?v v1"
      and run: "uptimed_round sendto (Some l) iface si v = c_bind (cpu_part (Some l) (proc_stat si) v1) (\<lambda>(total, busy, v).
        c_bind (statsd_send sendto (Some l) (pkt_ar v)) (\<lambda>(_, sent). Inr (v\<lparr>old_total := total, old_busy := busy\<rparr>, sent)))"
      using start by (auto simp: adds_def round)
    have same: "cpu_vars v1 = cpu_vars v" "old_total v1 = old_total v" "old_busy v1 = old_busy v"
      using v1(2) by (simp_all add: kept_def)
    have len: "length vs = 4" using assms(2) cpu_times_length by (simp add: vs_def arrays_ok_def)
    note cpu = cpu_part_ok [OF assms(1) v1(1) assms(7), of vs e r, unfolded same, OF vs_def e_def, folded assms(6)]
    show ?thesis
      unfolding Let_def vs_def [symmetric] e_def [symmetric]
      using False cpu len by (auto simp: run statsd_send_def packed_string packed_arrays split: if_splits)
  qed
qed

definition demo_lines :: "byte list list" where
  "demo_lines = [ascii ''Inter-|   Receive  |  Transmit'', ascii ''    lo: 7 1 0 0 0 0 0 0 7 1'',
     ascii ''  eth0: 1000 9 0 0 0 0 0 0 2000 8'']"

definition demo_obs :: obs where
  "demo_obs = \<lparr>loads0 = 0x8000, freeram = 0x100000, procs = 70, si_uptime = 60, net_dev = file_of demo_lines,
     proc_stat = ascii ''cpu  10 4 5 85 0'' @ [0x0A]\<rparr>"

definition demo_vars :: upvars where
  "demo_vars = \<lparr>line_ar = replicate 200 7, tmp_ar = replicate 200 7, pkt_ar = replicate 1400 7,
     cpu_vars = [0, 0, 0, 0], old_total = 0, old_busy = 0\<rparr>"

definition demo_link :: link where
  "demo_link = \<lparr>sock = 3, ns = Some (ascii ''h.'')\<rparr>"

lemma demo_packet:
  "start_text demo_link (ascii ''eth0'') demo_obs demo_lines @ cpu_text demo_link 15 100
   = concat (map (\<lambda>s. ascii s @ [0x0A]) [''h.load:50|g'', ''h.freemem:1024|g'', ''h.procs:70|g'', ''h.uptime:60|c'',
       ''h.if-rx:1000|c'', ''h.if-tx:2000|c'']) @ ascii ''h.cpu:15|g''"
  by code_simp

theorem uptimed_round_exact_witness:
  "\<exists>v'. uptimed_round (\<lambda>_. True) (Some demo_link) (ascii ''eth0'') demo_obs demo_vars
     = Inr (v', Some (start_text demo_link (ascii ''eth0'') demo_obs demo_lines @ cpu_text demo_link 15 100)) \<and> old_total v' = 100"
proof -
  let ?s = "ascii ''cpu  10 4 5 85 0''"
  have t: "cpu_times (?s @ [0x0A]) (cpu_vars demo_vars) = [10, 4, 5, 85]" by code_simp
  have len: "length (start_text demo_link (ascii ''eth0'') demo_obs demo_lines @ cpu_text demo_link 15 100) < PKT_LEN"
    unfolding demo_packet by (simp add: PKT_LEN_def ascii_def)
  have v: "link_ok demo_link" "arrays_ok demo_vars" "\<forall>s \<in> set demo_lines. line_ok s" "line_ok ?s"
    by (simp_all add: link_ok_def demo_link_def arrays_ok_def demo_vars_def demo_lines_def line_ok_def no_nul_def
        PKT_LEN_def MAX_LINE_LEN_def ascii_def)
  have o: "net_dev demo_obs = file_of demo_lines" "demo_lines \<noteq> []" "proc_stat demo_obs = ?s @ 0x0A # []"
    "old_total demo_vars = 0" "old_busy demo_vars = 0"
    by (simp_all add: demo_obs_def demo_lines_def demo_vars_def)
  show ?thesis
    using uptimed_round_exact [OF v(1,2) o(1,2) v(3) o(3) v(4), of "ascii ''eth0''" "\<lambda>_. True"] len
    unfolding Let_def t o(4,5) by (auto simp: total_time_def busy_time_def)
qed

text \<open>
  The share of the processor is a percentage, unless the difference is so large that a hundred times
  it does not fit into 32 bits: in the first round it is the time since the machine was started.
\<close>

lemma cpu_percent:
  assumes "unat b \<le> unat t" and "t \<noteq> 0" and "100 * unat b < 2 ^ 32"
  shows "unat (100 * b div t :: 32 word) = 100 * unat b div unat t" and "100 * unat b div unat t \<le> 100"
proof -
  have "unat (100 * b) = unat (100 :: 32 word) * unat b" by (rule unat_mult_lem [THEN iffD1]) (use assms(3) in simp)
  then have "unat (100 * b) = 100 * unat b" by simp
  then show "unat (100 * b div t :: 32 word) = 100 * unat b div unat t" by (simp only: unat_div)
  have "unat t \<noteq> 0" using assms(2) by (simp add: word_unat_eq_iff)
  then show "100 * unat b div unat t \<le> 100" using div_le_mono [of "100 * unat b" "100 * unat t" "unat t"] assms(1) by simp
qed

lemma cpu_first_round: "unat (100 * 50000000 div 100000000 :: 32 word) = 7"
  by code_simp

text \<open>Without a link \<open>tmp\<close> is not written, and \<open>strcat\<close> reads what the stack holds.\<close>

lemma uptimed_no_link:
  assumes "arrays_ok v" and "\<not> nulterm (tmp_ar v)"
  shows "uptimed_round sendto None iface si v = Inl OutOfBounds"
  using assms by (simp add: uptimed_round_def report_def statsd_prepare_def strcat_def write_at_def arrays_ok_def PKT_LEN_def)

text \<open>Whenever the interface has an address, \<open>main\<close> has written behind \<open>ns\<close> before it opens a file.\<close>

lemma uptimed_main_overruns:
  assumes "up_hwaddr w = Some macaddr" and "length macaddr = 6" and "16 \<le> length (up_ns_stack w)"
  shows "uptimed_main w [host, iface] = Inl OutOfBounds"
  using uptimed_overruns [OF assms(2,3)] by (simp add: uptimed_main_def assms(1))

lemma uptimed_main_usage: "length args \<noteq> 2 \<Longrightarrow> uptimed_main w args = Inr (1, [])"
  by (auto simp: uptimed_main_def split: list.split)

end
