(* ===== verification/Tools.thy ===== *)
theory Tools
  imports Db_Store Geohash_Exact Json_Roundtrip
begin

text \<open>
  The two command line programs over the database: lmdb-mydump.c, which prints the records as
  compact JSON, and lmdb-ll-look.c, which looks up the points of a file. \<open>out\<close> is what is on the
  standard output; messages to the standard error are left out.
\<close>

section \<open>lmdb-mydump.c\<close>

definition dumper :: "byte list visitor" where
  "dumper key data out =
     (let buf = data @ [0]
      in c_bind (json_decode buf) (\<lambda>json.
         c_bind (json_decode buf) (\<lambda>json.
         case json of
           None \<Rightarrow> Inl BadPointer
         | Some j \<Rightarrow>
             c_bind (json_stringify j None) (\<lambda>js.
             c_bind (fmt_str (int (length key)) (int (length key)) key) (\<lambda>k.
               Inr (1, out @ k @ [0x20] @ js @ [0x0A]))))))"

text \<open>\<open>args\<close> are the arguments after the name of the program; the code of the process and its output.\<close>

definition mydump_main :: "'l lmdb \<Rightarrow> byte list list \<Rightarrow> byte list \<Rightarrow> ('l, int \<times> byte list) lmdb_call" where
  "mydump_main L args out l =
     (case args of
        [path] \<Rightarrow>
          c_bind (db_open L path None True l) (\<lambda>(db, l).
            if db = None then Inr ((1, out), l)
            else c_bind (db_enum L db dumper out l) (\<lambda>((_, out), l).
                 c_bind (db_close L db l) (\<lambda>l. Inr ((0, out), l))))
      | _ \<Rightarrow> Inr ((2, out), l))"

section \<open>lmdb-ll-look.c\<close>

text \<open>
  \<open>%lf\<close> of \<open>sscanf\<close> in decimal notation: blanks, a sign, digits with a point, and an exponent, whose
  letter must be followed by digits. What is read and the rest of the input.
\<close>

definition scan_lf :: "byte list \<Rightarrow> (double \<times> byte list) option" where
  "scan_lf s =
     (let t = dropWhile isspace s
      in case read_sign t of (_, u) \<Rightarrow>
         case read_mantissa is_digit u of (i, f, r) \<Rightarrow>
           if i = [] \<and> f = [] then None
           else if r \<noteq> [] \<and> tolower (hd r) = 0x65 then
             (case read_sign (tl r) of (_, v) \<Rightarrow>
                if takeWhile is_digit v = [] then None else Some (strtod t, dropWhile is_digit v))
           else Some (strtod t, r))"

text \<open>\<open>sscanf(buf, "%lf,%lf", &lat, &lon) != 2\<close>.\<close>

definition scan_point :: "byte list \<Rightarrow> (double \<times> double) option" where
  "scan_point s = (case scan_lf s of
     Some (lat, c # r) \<Rightarrow> if c = 0x2C then map_option (\<lambda>(lon, _). (lat, lon)) (scan_lf r) else None
   | _ \<Rightarrow> None)"

definition BUFSIZ :: nat where "BUFSIZ = 8192"

text \<open>The line end is replaced by the character \<open>'0'\<close>; a line that is empty has no last character.\<close>

definition chomp :: "byte list \<Rightarrow> byte list cres" where
  "chomp buf = (if buf = [] then Inl OutOfBounds
     else if last buf = 0x0A then Inr (butlast buf @ [0x30]) else Inr buf)"

text \<open>One line of the file; \<open>apbuf\<close> is the buffer for the record, \<open>junk\<close> what \<open>malloc\<close> returns.\<close>

definition look_line ::
  "'l lmdb \<Rightarrow> (nat \<Rightarrow> byte) \<Rightarrow> db option \<Rightarrow> byte list \<Rightarrow> byte list \<times> byte list \<Rightarrow> ('l, byte list \<times> byte list) lmdb_call" where
  "look_line L junk db line st l = (case st of (apbuf, out) \<Rightarrow>
     c_bind (chomp (cstring line)) (\<lambda>buf.
       case scan_point buf of
         None \<Rightarrow> Inr ((apbuf, out), l)
       | Some (lat, lon) \<Rightarrow>
           c_bind (geohash_encode junk lat lon 8) (\<lambda>geohash.
             case geohash of
               None \<Rightarrow> Inl BadPointer
             | Some mem \<Rightarrow>
                 c_bind (db_get L db (cstring mem) apbuf l) (\<lambda>((len, apbuf), l).
                   if len > 0 then
                     c_bind (json_decode apbuf) (\<lambda>obj.
                       case obj of
                         None \<Rightarrow> Inr ((apbuf, out), l)
                       | Some j \<Rightarrow> c_bind (json_stringify j None) (\<lambda>js.
                           Inr ((apbuf, out @ cstring mem @ [0x20] @ fmt_lf lat @ [0x20] @ fmt_lf lon @ [0x20] @ js @ [0x0A]), l)))
                   else Inr ((apbuf, out), l)))))"

function look_loop ::
  "'l lmdb \<Rightarrow> (nat \<Rightarrow> byte) \<Rightarrow> db option \<Rightarrow> byte list \<Rightarrow> byte list \<times> byte list \<Rightarrow> ('l, byte list \<times> byte list) lmdb_call" where
  "look_loop L junk db inp st l =
     (if inp = [] then Inr (st, l)
      else c_bind (look_line L junk db (take (fgets_len BUFSIZ inp) inp) st l) (\<lambda>(st, l).
             look_loop L junk db (drop (fgets_len BUFSIZ inp) inp) st l))"
  by pat_completeness auto
termination look_loop
  by (relation "measure (\<lambda>(L, junk, db, inp, st, l). length inp)")
    (use fgets_len_pos [of _ BUFSIZ] in \<open>auto simp: BUFSIZ_def\<close>)

declare look_loop.simps [simp del]

text \<open>\<open>csv\<close> is the contents of data/lat-lon.csv, if it can be opened.\<close>

definition look_main ::
  "'l lmdb \<Rightarrow> (nat \<Rightarrow> byte) \<Rightarrow> byte list option \<Rightarrow> byte list \<Rightarrow> 'l \<Rightarrow> ((int \<times> byte list) \<times> 'l) cres" where
  "look_main L junk csv stack l =
     (case csv of None \<Rightarrow> Inr ((1, []), l)
      | Some inp \<Rightarrow>
          c_bind (db_open L (ascii ''data/geocache'') None True l) (\<lambda>(db, l).
            if db = None then Inr ((1, []), l)
            else c_bind (look_loop L junk db inp (take BUFSIZ stack, []) l) (\<lambda>((_, out), l).
                 c_bind (db_close L db l) (\<lambda>l. Inr ((0, out), l)))))"

section \<open>What lmdb-mydump prints\<close>

definition json_of :: "byte list \<Rightarrow> json option" where
  "json_of v = (case json_decode (v @ [0]) of Inr j \<Rightarrow> j | Inl _ \<Rightarrow> None)"

lemma cstring_all: "no_nul k \<Longrightarrow> cstring k = k"
  by (induction k) (auto simp: cstring_def no_nul_def)

lemma dumper_ok:
  assumes "json_of v = Some j" and "no_nul k"
  shows "dumper k v out = Inr (1, out @ k @ [0x20] @ json_text j None @ [0x0A])"
proof -
  have n: "nulterm (v @ [0])" by simp
  have d: "json_decode (v @ [0]) = Inr (Some j)"
    using assms(1) by (auto simp: json_of_def split: sum.splits)
  have "json_stringify j None = Inr (json_text j None)"
    using decode_printable [OF n d] by (intro json_stringify_text_eq) simp_all
  moreover have "fmt_str (int (length k)) (int (length k)) k = Inr k"
    using assms(2) by (simp add: fmt_str_def Let_def cstring_all)
  ultimately show ?thesis using d by (simp add: dumper_def Let_def)
qed

definition first_line :: "(byte list \<times> byte list) list \<Rightarrow> byte list" where
  "first_line kvs = (case kvs of [] \<Rightarrow> []
     | (k, v) # _ \<Rightarrow> k @ [0x20] @ json_text (the (json_of v)) None @ [0x0A])"

context open_store
begin

lemma enum_dumper:
  assumes "is_ready l" and recs: "\<And>k v. disk l p k = Some v \<Longrightarrow> no_nul k \<and> json_of v \<noteq> None"
  obtains kvs l' where "in_key_order kvs" "map_of kvs = disk l p"
    "db_enum L handle dumper out l = Inr ((0, out @ first_line kvs), l')" "is_ready l'" "disk l' = disk l"
proof -
  obtain kvs where kvs: "in_key_order kvs" "map_of kvs = disk l p"
    "case visit dumper kvs out of
       Inl f \<Rightarrow> db_enum L handle dumper out l = Inl f
     | Inr a' \<Rightarrow> \<exists>l'. db_enum L handle dumper out l = Inr ((0, a'), l') \<and> is_ready l' \<and> disk l' = disk l"
    using assms(1) by (rule db_enum_ok)
  have "visit dumper kvs out = Inr (out @ first_line kvs)"
  proof (cases kvs)
    case (Cons kv rest)
    obtain k v where kv: "kv = (k, v)" by (cases kv)
    have "disk l p k = Some v" by (simp add: kvs(2) [symmetric] Cons kv)
    from recs [OF this] obtain j where "no_nul k" "json_of v = Some j" by auto
    then show ?thesis by (simp add: Cons kv first_line_def dumper_ok)
  qed (simp add: first_line_def)
  with kvs(3) obtain l' where "db_enum L handle dumper out l = Inr ((0, out @ first_line kvs), l')" "is_ready l'"
    "disk l' = disk l" by auto
  with kvs(1,2) show ?thesis by (rule that)
qed

end

context lmdb_laws
begin

lemma mydump_ok:
  assumes "healthy l" and recs: "\<And>k v. disk l path k = Some v \<Longrightarrow> no_nul k \<and> json_of v \<noteq> None"
  shows "\<exists>kvs l'. in_key_order kvs \<and> map_of kvs = disk l path
    \<and> mydump_main L [path] out l = Inr ((0, out @ first_line kvs), l') \<and> disk l' = disk l"
proof -
  obtain e l1 where o1: "db_open L path None True l = Inr (Some \<lparr>db_env = e, db_dbi = main\<rparr>, l1)"
    "healthy l1" "env l1 e = Some (Opened path)" "disk l1 = disk l"
    using assms(1) by (rule db_open_ok)
  let ?db = "Some \<lparr>db_env = e, db_dbi = main\<rparr>"
  have ready: "healthy l1 \<and> env l1 e = Some (Opened path)" using o1(2,3) by simp
  have recs1: "\<And>k v. disk l1 path k = Some v \<Longrightarrow> no_nul k \<and> json_of v \<noteq> None" using recs o1(4) by simp
  obtain kvs l2 where l2: "in_key_order kvs" "map_of kvs = disk l1 path"
    "db_enum L ?db dumper out l1 = Inr ((0, out @ first_line kvs), l2)"
    "healthy l2 \<and> env l2 e = Some (Opened path)" "disk l2 = disk l1"
    using ready recs1 by (rule open_store.enum_dumper [OF open_store.intro [OF lmdb_laws_axioms]])
  obtain l3 where "db_close L ?db l2 = Inr l3" "healthy l3" "disk l3 = disk l2"
    using l2(4) by (elim conjE) (rule db_close_ok)
  then show ?thesis using o1(1,4) l2 by (auto simp: mydump_main_def)
qed

end

section \<open>What holds of the tools\<close>

text \<open>C1: \<open>lmdb-mydump\<close> prints the record with the smallest key only, as compact JSON: the callback asks
  \<open>db_enum\<close> to stop. The database is unchanged.\<close>

theorem mydump_first_record:
  assumes "lmdb_laws L disk env txn cursor healthy main" and "healthy l"
    and "\<forall>k v. disk l path k = Some v \<longrightarrow> no_nul k \<and> json_of v \<noteq> None"
  shows "\<exists>kvs l'. in_key_order kvs \<and> map_of kvs = disk l path
    \<and> mydump_main L [path] out l = Inr ((0, out @ first_line kvs), l') \<and> disk l' = disk l"
  using assms lmdb_laws.mydump_ok [OF assms(1,2), of path out] by blast

definition mem_two :: mem where
  "mem_two = mem_empty\<lparr>mem_disk := [(ascii ''d'', [(ascii ''u0'', ascii ''[1]'' @ [0]), (ascii ''u1'', ascii ''[2]'' @ [0])])]\<rparr>"

theorem mydump_first_record_witness:
  "\<exists>kvs l'. in_key_order kvs \<and> map_of kvs = mem_disk_view mem_two (ascii ''d'')
    \<and> mydump_main mem_lmdb [ascii ''d''] [] mem_two = Inr ((0, [] @ first_line kvs), l')
    \<and> mem_disk_view l' = mem_disk_view mem_two"
proof (rule mydump_first_record [OF mem.lmdb_laws_axioms])
  show "mem_healthy mem_two" by (simp add: mem_two_def mem_empty_def mem_views)
  have "no_nul (ascii ''u0'')" "no_nul (ascii ''u1'')" by code_simp+
  moreover have "json_of (ascii ''[1]'' @ [0]) \<noteq> None" "json_of (ascii ''[2]'' @ [0]) \<noteq> None" by code_simp+
  ultimately show "\<forall>k v. mem_disk_view mem_two (ascii ''d'') k = Some v \<longrightarrow> no_nul k \<and> json_of v \<noteq> None"
    by (auto simp: mem_two_def mem_disk_view_def disk_of_def split: if_splits)
qed

text \<open>
  In lmdb-ll-look.c the line end becomes a digit: a longitude without a point is read as ten times its
  value. When that is off the earth, the geohash is the null pointer, whose length \<open>db_get\<close> takes.
\<close>

lemma chomp_line: "no_nul s \<Longrightarrow> chomp (cstring (s @ [0x0A])) = Inr (s @ [0x30])"
  using cstring_all [of "s @ [0x0A]"] by (simp add: chomp_def)

theorem look_integer_longitude: "look_line L junk db (ascii ''50,20'' @ [0x0A]) st l = Inl BadPointer"
proof -
  have "no_nul (ascii ''50,20'')" by code_simp
  note chomp_line [OF this]
  moreover have "scan_point (ascii ''50,20'' @ [0x30]) = Some (DFin 50, DFin 200)" by code_simp
  moreover have "geohash_encode junk (DFin 50) (DFin 200) 8 = Inr None"
    using range_iff [of "DFin 200" 180] by (intro encode_out_of_range) auto
  ultimately show ?thesis by (cases st) (simp add: look_line_def)
qed

end
