(* ===== verification/Db_Test.thy ===== *)
theory Db_Test
  imports Tools
begin

text \<open>
  The test program of db.c under \<open>TESTING\<close>: it looks for one record and prints it, or stores it. The
  lemma below is the test that it makes when it is run twice.
\<close>

definition DBNAME :: "byte list" where "DBNAME = ascii ''t/''"

text \<open>\<open>buf\<close> is what the array on the stack holds before it is filled; the result is the code of the
  process and its output.\<close>

definition db_test_main :: "'l lmdb \<Rightarrow> byte list \<Rightarrow> ('l, int \<times> byte list) lmdb_call" where
  "db_test_main L buf l =
     c_bind (db_open L DBNAME None False l) (\<lambda>(db, l).
       if db = None then Inr ((1, []), l)
       else c_bind (db_get L db (ascii ''jp'') buf l) (\<lambda>((n, buf), l).
            c_bind (if n > 0 then if nulterm buf then Inr (cstring buf @ [0x0A], l) else Inl OutOfBounds
                    else c_bind (db_put L db (ascii ''jp'') (ascii ''This is my name'') l) (\<lambda>(rc, l).
                           Inr (ascii ''put '' @ fmt_d rc @ [0x0A], l)))
              (\<lambda>(out, l). c_bind (db_close L db l) (\<lambda>l. Inr ((0, out), l)))))"

abbreviation test_record :: "byte list" where "test_record \<equiv> ascii ''This is my name''"

lemma test_record_facts:
  "valid_key (ascii ''jp'')" "test_record \<noteq> ascii ''DELETE''" "length test_record = 15"
  "ascii ''put '' @ fmt_d 0 = ascii ''put 0''" "\<forall>c \<in> set test_record. c \<noteq> 0"
  by code_simp+

lemma test_record_read:
  "nulterm (test_record @ [0] @ r)" "cstring (test_record @ [0] @ r) = test_record"
  using test_record_facts(5) by (simp_all add: cstring_def nulterm_def)

context lmdb_laws
begin

text \<open>A run opens the database, works on the opened store, and closes it again.\<close>

lemma test_run_stores:
  assumes "healthy l" and "disk l DBNAME (ascii ''jp'') = None"
  obtains l' where "db_test_main L buf l = Inr ((0, ascii ''put 0'' @ [0x0A]), l')" "healthy l'"
    "disk l' = (disk l)(DBNAME := (disk l DBNAME)(ascii ''jp'' \<mapsto> test_record @ [0]))"
proof -
  note store = open_store.intro [OF lmdb_laws_axioms]
  obtain e l1 where l1: "db_open L DBNAME None False l = Inr (Some \<lparr>db_env = e, db_dbi = main\<rparr>, l1)"
    "healthy l1" "env l1 e = Some (Opened DBNAME)" "disk l1 = disk l" using assms(1) by (rule db_open_ok)
  obtain l2 where l2: "db_get L (Some \<lparr>db_env = e, db_dbi = main\<rparr>) (ascii ''jp'') buf l1 = Inr ((- 1, buf), l2)"
    "healthy l2" "env l2 e = Some (Opened DBNAME)" "disk l2 = disk l"
    using open_store.db_get_ok [OF store, of l1 e DBNAME "ascii ''jp''" buf] l1(2-4) assms(2)
    by (auto simp: filled_def)
  obtain l3 where l3: "db_put L (Some \<lparr>db_env = e, db_dbi = main\<rparr>) (ascii ''jp'') test_record l2 = Inr (0, l3)"
    "healthy l3" "env l3 e = Some (Opened DBNAME)"
    "disk l3 = (disk l)(DBNAME := (disk l DBNAME)(ascii ''jp'' \<mapsto> test_record @ [0]))"
    using open_store.db_put_ok [OF store, of l2 e DBNAME "ascii ''jp''" test_record] l2(2-4) test_record_facts(1,2)
    by auto
  obtain l4 where "db_close L (Some \<lparr>db_env = e, db_dbi = main\<rparr>) l3 = Inr l4" "healthy l4" "disk l4 = disk l3"
    using l3(2,3) by (rule db_close_ok)
  then show ?thesis
    using l1(1) l2(1) l3(1,4) by (intro that [of l4]) (simp_all add: db_test_main_def test_record_facts(4) flip: append_assoc)
qed

lemma test_run_finds:
  assumes "healthy l" and "disk l DBNAME (ascii ''jp'') = Some (test_record @ [0])" and "length buf = BUFSIZ"
  obtains l' where "db_test_main L buf l = Inr ((0, test_record @ [0x0A]), l')" "healthy l'" "disk l' = disk l"
proof -
  note store = open_store.intro [OF lmdb_laws_axioms]
  obtain e l1 where l1: "db_open L DBNAME None False l = Inr (Some \<lparr>db_env = e, db_dbi = main\<rparr>, l1)"
    "healthy l1" "env l1 e = Some (Opened DBNAME)" "disk l1 = disk l" using assms(1) by (rule db_open_ok)
  obtain l2 where l2: "db_get L (Some \<lparr>db_env = e, db_dbi = main\<rparr>) (ascii ''jp'') buf l1
      = Inr (filled (Some (test_record @ [0])) buf, l2)"
    "healthy l2" "env l2 e = Some (Opened DBNAME)" "disk l2 = disk l"
    using open_store.db_get_ok [OF store, of l1 e DBNAME "ascii ''jp''" buf] l1(2-4) assms(2) test_record_facts(1)
    by auto
  have "filled (Some (test_record @ [0])) buf = (16, test_record @ [0] @ drop 16 buf)"
    using assms(3) test_record_facts(3) by (simp add: filled_def BUFSIZ_def)
  moreover obtain l3 where "db_close L (Some \<lparr>db_env = e, db_dbi = main\<rparr>) l2 = Inr l3" "healthy l3" "disk l3 = disk l2"
    using l2(2,3) by (rule db_close_ok)
  ultimately show ?thesis
    using l1(1) l2(1,4) test_record_read [of "drop 16 buf"]
    by (intro that [of l3]) (simp_all add: db_test_main_def)
qed

end

text \<open>Run on a database without the record, the program stores it; run again, in whatever state its
  stack is, it prints the record. Nothing else in any database changes.\<close>

lemma db_test_twice:
  assumes "lmdb_laws L disk env txn cursor healthy main"
    and "healthy l" and "disk l DBNAME (ascii ''jp'') = None" and "length buf' = BUFSIZ"
  shows "\<exists>l1 l2. db_test_main L buf l = Inr ((0, ascii ''put 0'' @ [0x0A]), l1)
    \<and> db_test_main L buf' l1 = Inr ((0, test_record @ [0x0A]), l2)
    \<and> disk l2 = (disk l)(DBNAME := (disk l DBNAME)(ascii ''jp'' \<mapsto> test_record @ [0]))"
proof -
  obtain l1 where l1: "db_test_main L buf l = Inr ((0, ascii ''put 0'' @ [0x0A]), l1)" "healthy l1"
    "disk l1 = (disk l)(DBNAME := (disk l DBNAME)(ascii ''jp'' \<mapsto> test_record @ [0]))"
    using assms(2,3) by (rule lmdb_laws.test_run_stores [OF assms(1)])
  have "disk l1 DBNAME (ascii ''jp'') = Some (test_record @ [0])" by (simp add: l1(3))
  with l1(2) obtain l2 where "db_test_main L buf' l1 = Inr ((0, test_record @ [0x0A]), l2)" "disk l2 = disk l1"
    using assms(4) by (rule lmdb_laws.test_run_finds [OF assms(1)])
  then show ?thesis using l1(1,3) by auto
qed

end
